(* ===== verification/Miniob_Prelude.thy ===== *)
theory Miniob_Prelude
  imports Main "HOL-Library.Word"
begin

text \<open>
  Shared vocabulary of the development: the return codes of \<^verbatim>\<open>common/sys/rc.h\<close>, the
  type abbreviations used for page numbers, log sequence numbers and raw bytes, the
  theorem collections the components extend, and facts about lists, intervals and words
  that several components need.
\<close>

unbundle bit_operations_syntax

section \<open>Return codes\<close>

datatype (plugins only: code) RC
  = SUCCESS
  | INVALID_ARGUMENT
  | UNIMPLEMENTED
  | SQL_SYNTAX
  | INTERNAL
  | NOMEM
  | NOTFOUND
  | EMPTY
  | FULL
  | EXIST
  | NOT_EXIST
  | BUFFERPOOL_OPEN
  | BUFFERPOOL_NOBUF
  | BUFFERPOOL_INVALID_PAGE_NUM
  | RECORD_OPENNED
  | RECORD_INVALID_RID
  | RECORD_INVALID_KEY
  | RECORD_DUPLICATE_KEY
  | RECORD_NOMEM
  | RECORD_EOF
  | RECORD_NOT_EXIST
  | RECORD_INVISIBLE
  | SCHEMA_DB_EXIST
  | SCHEMA_DB_NOT_EXIST
  | SCHEMA_DB_NOT_OPENED
  | SCHEMA_TABLE_NOT_EXIST
  | SCHEMA_TABLE_EXIST
  | SCHEMA_FIELD_NOT_EXIST
  | SCHEMA_FIELD_MISSING
  | SCHEMA_FIELD_TYPE_MISMATCH
  | SCHEMA_INDEX_NAME_REPEAT
  | IOERR_READ
  | IOERR_WRITE
  | IOERR_ACCESS
  | IOERR_OPEN
  | IOERR_CLOSE
  | IOERR_SEEK
  | IOERR_TOO_LONG
  | IOERR_SYNC
  | LOCKED_UNLOCK
  | LOCKED_NEED_WAIT
  | LOCKED_CONCURRENCY_CONFLICT
  | FILE_EXIST
  | FILE_NOT_EXIST
  | FILE_NAME
  | FILE_BOUND
  | FILE_CREATE
  | FILE_OPEN
  | FILE_NOT_OPENED
  | FILE_CLOSE
  | FILE_REMOVE
  | VARIABLE_NOT_EXISTS
  | VARIABLE_NOT_VALID
  | LOGBUF_FULL
  | LOG_FILE_FULL
  | LOG_ENTRY_INVALID
  | JSON_PARSE_FAILED
  | JSON_MEMBER_MISSING
  | RANGE_ERROR
  | WAL_INVALID_FILENAME
  | INPUT_EOF
  | INVALID_TOKEN
  | UNEXPECTED_END_OF_STRING
  | SYNTAX_ERROR
  | UNSUPPORTED

definition OB_SUCC :: "RC \<Rightarrow> bool" where
  "OB_SUCC rc \<longleftrightarrow> rc = SUCCESS"

definition OB_FAIL :: "RC \<Rightarrow> bool" where
  "OB_FAIL rc \<longleftrightarrow> rc \<noteq> SUCCESS"

section \<open>Types\<close>

type_synonym byte = "8 word"
type_synonym bytes_t = "byte list"
type_synonym page_num = int
type_synonym lsn = int

datatype ReadWriteMode = READ_ONLY | READ_WRITE

section \<open>Theorem collections\<close>

named_theorems rc_simps \<open>unfolding of the return code predicates\<close>
named_theorems loop_unfold \<open>one unrolling of a loop modelled by well-founded recursion\<close>
named_theorems inv_intro \<open>preservation of a component invariant by an operation\<close>

lemma OB_SUCC_simps [rc_simps, simp]: "OB_SUCC SUCCESS" "OB_SUCC rc \<longleftrightarrow> rc = SUCCESS"
  by (simp_all add: OB_SUCC_def)

lemma OB_FAIL_simps [rc_simps, simp]: "OB_FAIL rc \<longleftrightarrow> rc \<noteq> SUCCESS"
  by (simp add: OB_FAIL_def)

section \<open>Searching an interval\<close>

lemma find_upt_cons:
  "s < n \<Longrightarrow> List.find P [s..<n] = (if P s then Some s else List.find P [Suc s..<n])"
  by (simp add: upt_conv_Cons)

lemma find_upt_empty [simp]: "n \<le> s \<Longrightarrow> List.find P [s..<n] = None"
  by simp

lemma find_append:
  "List.find P (xs @ ys) = (case List.find P xs of Some x \<Rightarrow> Some x | None \<Rightarrow> List.find P ys)"
  by (induction xs) auto

lemma find_upt_split:
  assumes "s \<le> k" "k \<le> n"
  shows "List.find P [s..<n] =
     (case List.find P [s..<k] of Some i \<Rightarrow> Some i | None \<Rightarrow> List.find P [k..<n])"
proof -
  from assms obtain d where "n = k + d" by (auto simp: le_iff_add)
  with assms(1) have "[s..<n] = [s..<k] @ [k..<n]" by (metis upt_add_eq_append)
  then show ?thesis by (simp only: find_append)
qed

lemma find_upt_SomeD:
  assumes "List.find P [s..<n] = Some i"
  shows "s \<le> i \<and> i < n \<and> P i \<and> (\<forall>j. s \<le> j \<longrightarrow> j < i \<longrightarrow> \<not> P j)"
proof -
  from assms obtain m where m: "m < n - s" "P (s + m)" "i = s + m"
    and least: "\<forall>j<m. \<not> P (s + j)"
    by (auto simp: find_Some_iff)
  have "\<not> P j" if "s \<le> j" "j < i" for j
  proof -
    from that(1) have "j = s + (j - s)" by simp
    moreover from that m(3) have "j - s < m" by linarith
    ultimately show ?thesis using least by metis
  qed
  with m show ?thesis by auto
qed

lemma find_upt_NoneD:
  "List.find P [s..<n] = None \<Longrightarrow> s \<le> j \<Longrightarrow> j < n \<Longrightarrow> \<not> P j"
  by (auto simp: find_None_iff)

lemma find_upt_cut:
  assumes "n \<le> m"
  shows "List.find P [s..<n] =
    (case List.find P [s..<m] of Some i \<Rightarrow> (if i < n then Some i else None) | None \<Rightarrow> None)"
proof (cases "s \<le> n")
  case True
  show ?thesis
    unfolding find_upt_split [OF True assms, of P]
    by (auto split: option.splits dest!: find_upt_SomeD)
next
  case False
  then show ?thesis
    by (auto split: option.splits dest!: find_upt_SomeD)
qed

lemma find_upt_cong:
  "(\<And>i. s \<le> i \<Longrightarrow> i < n \<Longrightarrow> P i = Q i) \<Longrightarrow> List.find P [s..<n] = List.find Q [s..<n]"
  by (rule find_cong) auto

lemma find_upt_shift:
  "List.find P [k + s..<k + n] = map_option (\<lambda>i. k + i) (List.find (\<lambda>i. P (k + i)) [s..<n])"
proof (induction "n - s" arbitrary: s)
  case 0
  then show ?case by simp
next
  case (Suc d)
  then have "s < n" "d = n - Suc s" by auto
  with Suc.hyps(1) [of "Suc s"] show ?case
    by (simp add: find_upt_cons)
qed

text \<open>The index a search returns in the source: the position, or -1.\<close>

definition index_or_neg :: "nat option \<Rightarrow> int" where
  "index_or_neg r = (case r of Some i \<Rightarrow> int i | None \<Rightarrow> - 1)"

lemma index_or_neg_simps [simp]:
  "index_or_neg None = - 1"
  "index_or_neg (Some i) = int i"
  by (simp_all add: index_or_neg_def)

lemma index_or_neg_nonneg [simp]: "0 \<le> index_or_neg r \<longleftrightarrow> r \<noteq> None"
  by (cases r) simp_all

lemma index_or_neg_eq_iff [simp]:
  "index_or_neg r = - 1 \<longleftrightarrow> r = None"
  "index_or_neg r = int i \<longleftrightarrow> r = Some i"
  by (cases r; simp)+

section \<open>Bits of a byte\<close>

lemma and_push_bit_one_iff:
  fixes b :: "'a::len word"
  shows "(b AND push_bit i 1 = 0) \<longleftrightarrow> \<not> bit b i"
proof
  assume "b AND push_bit i 1 = 0"
  then have "\<not> bit (b AND push_bit i 1) i" by simp
  then show "\<not> bit b i"
    by (auto simp: bit_and_iff bit_exp_iff dest: bit_imp_le_length)
next
  assume "\<not> bit b i"
  then show "b AND push_bit i 1 = 0"
    by (intro bit_word_eqI) (auto simp: bit_and_iff bit_exp_iff)
qed

end
