(* ===== verification/Lower_Bound.thy ===== *)
theory Lower_Bound
  imports Miniob_Prelude
begin

text \<open>
  Model of \<^verbatim>\<open>src/common/lang/lower_bound.h\<close>: the binary search every index node uses.  The iterator
  range \<^verbatim>\<open>[first, last)\<close> is a list and iterators are positions in it; the three-way comparison is
  an argument, as in the template.  Also the contract of a key comparison, \<open>key_order\<close>, which the
  B+ tree relies on.
\<close>

section \<open>Binary search\<close>

function lower_bound_loop ::
  "('a \<Rightarrow> 'v \<Rightarrow> int) \<Rightarrow> 'a list \<Rightarrow> 'v \<Rightarrow> nat \<Rightarrow> nat \<Rightarrow> nat \<times> bool" where
  "lower_bound_loop cmp xs val first last_count =
    (if last_count > 0 then
       let step = last_count div 2;
           iter = first + step;
           result = cmp (xs ! iter) val
       in if result = 0 then (iter, True)
          else if result < 0 then lower_bound_loop cmp xs val (iter + 1) (last_count - (step + 1))
          else lower_bound_loop cmp xs val first step
     else (first, False))"
  by pat_completeness auto
termination by (relation "measure (\<lambda>(cmp, xs, val, first, last_count). last_count)") auto

declare lower_bound_loop.simps [simp del, loop_unfold]

text \<open>The position returned and the value stored through \<^verbatim>\<open>_found\<close>.\<close>

definition lower_bound :: "('a \<Rightarrow> 'v \<Rightarrow> int) \<Rightarrow> 'a list \<Rightarrow> 'v \<Rightarrow> nat \<times> bool" where
  "lower_bound cmp xs val = lower_bound_loop cmp xs val 0 (length xs)"

text \<open>\<^verbatim>\<open>Comparator<T>\<close>, the default comparison.\<close>

definition Comparator :: "'a::linorder \<Rightarrow> 'a \<Rightarrow> int" where
  "Comparator v1 v2 = (if v1 < v2 then - 1 else if v1 > v2 then 1 else 0)"

section \<open>Correctness\<close>

text \<open>
  The sequence is sorted without duplicates, as far as the comparison with \<open>v\<close> can tell:
  whatever precedes an element that is not greater than \<open>v\<close> is smaller than \<open>v\<close>.
\<close>

definition sorted_for :: "('a \<Rightarrow> 'v \<Rightarrow> int) \<Rightarrow> 'v \<Rightarrow> 'a list \<Rightarrow> bool" where
  "sorted_for cmp v xs \<longleftrightarrow> sorted_wrt (\<lambda>x y. cmp y v \<le> 0 \<longrightarrow> cmp x v < 0) xs"

text \<open>The number of leading elements smaller than the value searched.\<close>

definition rank :: "('a \<Rightarrow> 'v \<Rightarrow> int) \<Rightarrow> 'v \<Rightarrow> 'a list \<Rightarrow> nat" where
  "rank cmp v xs = length (takeWhile (\<lambda>x. cmp x v < 0) xs)"

lemma rank_le [simp]: "rank cmp v xs \<le> length xs"
  by (simp add: rank_def length_takeWhile_le)

lemma rank_Cons: "rank cmp v (x # xs) = (if cmp x v < 0 then Suc (rank cmp v xs) else 0)"
  by (simp add: rank_def)

lemma rank_Nil [simp]: "rank cmp v [] = 0"
  by (simp add: rank_def)

lemma below_rank: "i < rank cmp v xs \<Longrightarrow> cmp (xs ! i) v < 0"
  unfolding rank_def using nth_mem set_takeWhileD takeWhile_nth by metis

lemma at_rank: "rank cmp v xs < length xs \<Longrightarrow> \<not> cmp (xs ! rank cmp v xs) v < 0"
  unfolding rank_def by (rule nth_length_takeWhile)

lemma sorted_for_nth:
  "sorted_for cmp v xs \<Longrightarrow> i < j \<Longrightarrow> j < length xs \<Longrightarrow> cmp (xs ! j) v \<le> 0 \<Longrightarrow> cmp (xs ! i) v < 0"
  by (auto simp: sorted_for_def sorted_wrt_iff_nth_less)

lemma less_rank_iff:
  assumes "sorted_for cmp v xs" "i < length xs"
  shows "i < rank cmp v xs \<longleftrightarrow> cmp (xs ! i) v < 0"
proof
  assume lt: "cmp (xs ! i) v < 0"
  show "i < rank cmp v xs"
  proof (rule ccontr)
    assume "\<not> i < rank cmp v xs"
    with assms lt have r: "rank cmp v xs < length xs" "rank cmp v xs \<le> i" by auto
    with sorted_for_nth [OF assms(1), of "rank cmp v xs" i] assms(2) lt
    have "cmp (xs ! rank cmp v xs) v < 0" by (cases "rank cmp v xs = i") auto
    with at_rank [OF r(1)] show False by blast
  qed
qed (rule below_rank)

lemma rank_eqI:
  assumes "sorted_for cmp v xs" "i < length xs" "cmp (xs ! i) v = 0"
  shows "rank cmp v xs = i"
proof (rule antisym)
  show "rank cmp v xs \<le> i" using less_rank_iff [OF assms(1,2)] assms(3) by simp
  show "i \<le> rank cmp v xs"
  proof (cases i)
    case (Suc j)
    with assms sorted_for_nth [OF assms(1), of j i] less_rank_iff [OF assms(1), of j]
    show ?thesis by simp
  qed simp
qed

lemma found_iff:
  assumes "sorted_for cmp v xs"
  shows "(\<exists>x\<in>set xs. cmp x v = 0) \<longleftrightarrow>
    rank cmp v xs < length xs \<and> cmp (xs ! rank cmp v xs) v = 0"
  using rank_eqI [OF assms] by (metis in_set_conv_nth)

lemma lower_bound_loop_rank:
  assumes "sorted_for cmp v xs"
  shows "first \<le> rank cmp v xs \<Longrightarrow> rank cmp v xs \<le> first + n \<Longrightarrow> first + n \<le> length xs \<Longrightarrow>
    (first + n < length xs \<longrightarrow> 0 < cmp (xs ! (first + n)) v) \<Longrightarrow>
    lower_bound_loop cmp xs v first n =
      (rank cmp v xs, rank cmp v xs < length xs \<and> cmp (xs ! rank cmp v xs) v = 0)"
proof (induction n arbitrary: first rule: less_induct)
  case (less n)
  show ?case
  proof (cases "n = 0")
    case True
    with less.prems(1,2) have "rank cmp v xs = first" by simp
    with True less.prems(4) show ?thesis by (subst lower_bound_loop.simps) auto
  next
    case False
    define k where "k = first + n div 2"
    have k: "k < first + n" "k < length xs" using False less.prems by (auto simp: k_def)
    consider "cmp (xs ! k) v = 0" | "cmp (xs ! k) v < 0" | "cmp (xs ! k) v > 0" by linarith
    then show ?thesis
    proof cases
      case 1
      with k rank_eqI [OF assms] False show ?thesis
        by (subst lower_bound_loop.simps) (simp add: Let_def flip: k_def)
    next
      case 2
      have eq: "k + 1 + (n - (n div 2 + 1)) = first + n" using False by (auto simp: k_def)
      from 2 less_rank_iff [OF assms k(2)] have "k + 1 \<le> rank cmp v xs" by simp
      with less.IH [of "n - (n div 2 + 1)" "k + 1"] less.prems(2-4) eq 2 False show ?thesis
        by (subst lower_bound_loop.simps) (simp add: Let_def flip: k_def)
    next
      case 3
      with less_rank_iff [OF assms k(2)] have "rank cmp v xs \<le> k" by simp
      with less.IH [of "n div 2" first] less.prems(1) k(2) 3 False show ?thesis
        by (subst lower_bound_loop.simps) (simp add: Let_def flip: k_def)
    qed
  qed
qed

lemma lower_bound_rank:
  assumes "sorted_for cmp v xs"
  shows "lower_bound cmp xs v = (rank cmp v xs, \<exists>x\<in>set xs. cmp x v = 0)"
  using lower_bound_loop_rank [OF assms, of 0 "length xs"]
  by (simp add: lower_bound_def found_iff [OF assms])

section \<open>The contract of a key comparison\<close>

text \<open>
  The laws an index needs of its three-way comparison: it is a total preorder, read off the sign
  of the result.  Two keys may compare equal without being the same bytes.
\<close>

locale key_order =
  fixes cmp :: "'k \<Rightarrow> 'k \<Rightarrow> int"
  assumes cmp_refl: "cmp x x = 0"
    and cmp_flip: "cmp x y < 0 \<longleftrightarrow> 0 < cmp y x"
    and cmp_trans: "cmp x y \<le> 0 \<Longrightarrow> cmp y z \<le> 0 \<Longrightarrow> cmp x z \<le> 0"
begin

definition lt :: "'k \<Rightarrow> 'k \<Rightarrow> bool" where
  "lt x y \<longleftrightarrow> cmp x y < 0"

definition le :: "'k \<Rightarrow> 'k \<Rightarrow> bool" where
  "le x y \<longleftrightarrow> cmp x y \<le> 0"

lemma cmp_zero_sym: "cmp x y = 0 \<longleftrightarrow> cmp y x = 0"
  using cmp_flip [of x y] cmp_flip [of y x] by linarith

lemma not_lt: "\<not> lt x y \<longleftrightarrow> le y x"
  using cmp_flip [of x y] cmp_flip [of y x] by (auto simp: lt_def le_def)

lemma lt_le_trans: "lt x y \<Longrightarrow> le y z \<Longrightarrow> lt x z"
  using cmp_trans [of z x y] cmp_flip [of x z] cmp_flip [of z x] cmp_flip [of x y] cmp_trans [of y z x]
  unfolding lt_def le_def by linarith

lemma le_lt_trans: "le x y \<Longrightarrow> lt y z \<Longrightarrow> lt x z"
  using cmp_trans [of z x y] cmp_flip [of x z] cmp_flip [of z x] cmp_flip [of y z]
  unfolding lt_def le_def by linarith

lemma lt_imp_le: "lt x y \<Longrightarrow> le x y"
  by (simp add: lt_def le_def)

lemma lt_trans: "lt x y \<Longrightarrow> lt y z \<Longrightarrow> lt x z"
  using lt_le_trans lt_imp_le by blast

lemma lt_irrefl [simp]: "\<not> lt x x"
  by (simp add: lt_def cmp_refl)

lemma le_refl [simp]: "le x x"
  by (simp add: le_def cmp_refl)

lemma le_trans: "le x y \<Longrightarrow> le y z \<Longrightarrow> le x z"
  using cmp_trans by (simp add: le_def)

lemma sorted_imp_sorted_for:
  assumes "sorted_wrt (\<lambda>x y. lt (f x) (f y)) xs"
  shows "sorted_for (\<lambda>x. cmp (f x)) v xs"
  using assms lt_le_trans unfolding sorted_for_def lt_def le_def
  by (auto elim: sorted_wrt_mono_rel [rotated])

lemma lower_bound_sorted:
  "sorted_wrt (\<lambda>x y. lt (f x) (f y)) xs \<Longrightarrow>
   lower_bound (\<lambda>x. cmp (f x)) xs v =
     (rank (\<lambda>x. cmp (f x)) v xs, \<exists>x\<in>set xs. cmp (f x) v = 0)"
  by (intro lower_bound_rank sorted_imp_sorted_for)

end

interpretation default_cmp: key_order "Comparator :: 'a::linorder \<Rightarrow> 'a \<Rightarrow> int"
  by unfold_locales (auto simp: Comparator_def split: if_splits)

section \<open>Properties\<close>

text \<open>
  C29: on a sorted sequence the binary search of lower_bound terminates and returns the number of
  elements smaller than the value, i.e. the position of the first element that is not smaller,
  and sets the found flag exactly when some element compares equal to the value.
\<close>

theorem lower_bound_correct:
  assumes "sorted_for cmp v xs"
  shows "lower_bound cmp xs v =
    (length (takeWhile (\<lambda>x. cmp x v < 0) xs), \<exists>x\<in>set xs. cmp x v = 0)"
  using lower_bound_rank [OF assms] by (simp add: rank_def)

theorem lower_bound_correct_witness:
  "lower_bound Comparator [1, 3, 5, 7, 9] (7 :: int) = (3, True) \<and>
   lower_bound Comparator [1, 3, 5, 7, 9] (4 :: int) = (2, False)"
  using lower_bound_correct [of Comparator "7 :: int" "[1, 3, 5, 7, 9]"]
    lower_bound_correct [of Comparator "4 :: int" "[1, 3, 5, 7, 9]"]
  by (simp add: sorted_for_def Comparator_def)

end
