(* ===== verification/Index_Key.thy ===== *)
theory Index_Key
  imports Lower_Bound "HOL-Library.List_Lexorder"
begin

text \<open>
  Keys of an index and their order: \<^verbatim>\<open>RID\<close> (\<^verbatim>\<open>storage/record/record.h\<close>), the comparison functions
  of \<^verbatim>\<open>common/lang/comparator.cpp\<close>, and \<^verbatim>\<open>AttrComparator\<close> and \<^verbatim>\<open>KeyComparator\<close> of
  \<^verbatim>\<open>storage/index/bplus_tree.h\<close>.  A key is the attribute's bytes followed by the RID of the record.

  Floating point attributes are compared with IEEE arithmetic and a tolerance; that comparison is
  an argument \<open>fcmp\<close> of the attribute comparison.  For integer and character attributes the
  comparison is shown to be a total order, so that the contract \<open>key_order\<close> holds.
\<close>

section \<open>Record identifiers\<close>

record rid =
  rid_page_num :: int
  rid_slot_num :: int

text \<open>Page and slot numbers are not negative, so the subtractions stay in the range of \<^verbatim>\<open>int\<close>.\<close>

definition rid_compare :: "rid \<Rightarrow> rid \<Rightarrow> int" where
  "rid_compare r1 r2 =
    (let page_diff = rid_page_num r1 - rid_page_num r2
     in if page_diff \<noteq> 0 then page_diff else rid_slot_num r1 - rid_slot_num r2)"

definition rid_min :: rid where
  "rid_min = \<lparr> rid_page_num = 0, rid_slot_num = 0 \<rparr>"

definition rid_max :: rid where
  "rid_max = \<lparr> rid_page_num = 2 ^ 31 - 1, rid_slot_num = 2 ^ 31 - 1 \<rparr>"

definition rid_valid :: "rid \<Rightarrow> bool" where
  "rid_valid r \<longleftrightarrow> 0 \<le> rid_page_num r \<and> rid_page_num r < 2 ^ 31 \<and>
     0 \<le> rid_slot_num r \<and> rid_slot_num r < 2 ^ 31"

section \<open>Attribute comparison\<close>

datatype AttrType = UNDEFINED | CHARS | INTS | FLOATS | VECTORS | BOOLEANS | MAXTYPE

definition INT32_MAX :: int where "INT32_MAX = 2 ^ 31 - 1"

text \<open>A four byte integer in memory, least significant byte first.\<close>

definition int_of_bytes :: "byte list \<Rightarrow> 32 word" where
  "int_of_bytes bs =
    word_of_int (uint (bs ! 0) + 2 ^ 8 * uint (bs ! 1) + 2 ^ 16 * uint (bs ! 2) + 2 ^ 24 * uint (bs ! 3))"

definition compare_int :: "32 word \<Rightarrow> 32 word \<Rightarrow> int" where
  "compare_int v1 v2 = (if sint v1 > sint v2 then 1 else if sint v1 < sint v2 then - 1 else 0)"

text \<open>\<^verbatim>\<open>strnlen\<close> and the prefix it delimits, and \<^verbatim>\<open>strncmp\<close> with a terminating zero after the bytes.\<close>

definition strn :: "byte list \<Rightarrow> nat \<Rightarrow> byte list" where
  "strn s n = takeWhile (\<lambda>c. c \<noteq> 0) (take n s)"

fun strncmp :: "byte list \<Rightarrow> byte list \<Rightarrow> nat \<Rightarrow> int" where
  "strncmp s1 s2 0 = 0"
| "strncmp s1 s2 (Suc n) =
    (let c1 = (case s1 of [] \<Rightarrow> 0 | c # _ \<Rightarrow> c);
         c2 = (case s2 of [] \<Rightarrow> 0 | c # _ \<Rightarrow> c)
     in if c1 < c2 then - 1 else if c1 > c2 then 1
        else if c1 = 0 then 0 else strncmp (tl s1) (tl s2) n)"

definition compare_string :: "byte list \<Rightarrow> nat \<Rightarrow> byte list \<Rightarrow> nat \<Rightarrow> int" where
  "compare_string s1 len1 s2 len2 =
    (let maxlen = min len1 len2;
         result = strncmp s1 s2 maxlen
     in if result \<noteq> 0 then (if result < 0 then - 1 else 1)
        else if len1 > maxlen then 1
        else if len2 > maxlen then - 1
        else 0)"

definition attr_comparator ::
  "(AttrType \<Rightarrow> byte list \<Rightarrow> byte list \<Rightarrow> int) \<Rightarrow> AttrType \<Rightarrow> nat \<Rightarrow> byte list \<Rightarrow> byte list \<Rightarrow> int" where
  "attr_comparator fcmp t len v1 v2 =
    (case t of
       INTS \<Rightarrow> compare_int (int_of_bytes v1) (int_of_bytes v2)
     | CHARS \<Rightarrow> (let s1 = strn v1 len; s2 = strn v2 len
                 in compare_string s1 (length s1) s2 (length s2))
     | FLOATS \<Rightarrow> fcmp FLOATS v1 v2
     | VECTORS \<Rightarrow> fcmp VECTORS v1 v2
     | _ \<Rightarrow> INT32_MAX)"

section \<open>Keys\<close>

datatype key = Key (key_attr: "byte list") (key_rid: rid)

definition key_comparator :: "(byte list \<Rightarrow> byte list \<Rightarrow> int) \<Rightarrow> key \<Rightarrow> key \<Rightarrow> int" where
  "key_comparator acmp v1 v2 =
    (let result = acmp (key_attr v1) (key_attr v2)
     in if result \<noteq> 0 then result else rid_compare (key_rid v1) (key_rid v2))"

definition make_key :: "nat \<Rightarrow> byte list \<Rightarrow> rid \<Rightarrow> key" where
  "make_key attr_len user_key r = Key (take attr_len user_key) r"

section \<open>The comparisons are orders\<close>

lemma rid_compare_zero: "rid_compare r1 r2 = 0 \<longleftrightarrow> r1 = r2"
  by (auto simp: rid_compare_def Let_def)

interpretation rid_order: key_order rid_compare
  by unfold_locales (auto simp: rid_compare_def Let_def split: if_splits)

lemma rid_bounds:
  "rid_valid r \<Longrightarrow> rid_compare rid_min r \<le> 0" "rid_valid r \<Longrightarrow> rid_compare r rid_max \<le> 0"
  by (auto simp: rid_valid_def rid_compare_def rid_min_def rid_max_def Let_def)

lemma compare_int_Comparator: "compare_int v1 v2 = Comparator (sint v1) (sint v2)"
  by (auto simp: compare_int_def Comparator_def)

lemma strncmp_prefix_order:
  assumes "0 \<notin> set s1" "0 \<notin> set s2"
  shows "compare_string s1 (length s1) s2 (length s2) = Comparator s1 s2"
  using assms
proof (induction s1 arbitrary: s2)
  case Nil
  then show ?case by (cases s2) (auto simp: compare_string_def Comparator_def)
next
  case (Cons a s1)
  show ?case
  proof (cases s2)
    case (Cons b s2')
    with Cons.IH [of s2'] Cons.prems show ?thesis
      by (auto simp: compare_string_def Comparator_def Let_def split: if_splits)
  qed (auto simp: compare_string_def Comparator_def)
qed

lemma strn_no_zero: "0 \<notin> set (strn s n)"
  by (auto simp: strn_def dest: set_takeWhileD)

lemma attr_comparator_INTS:
  "attr_comparator fcmp INTS len v1 v2 = Comparator (sint (int_of_bytes v1)) (sint (int_of_bytes v2))"
  by (simp add: attr_comparator_def compare_int_Comparator)

lemma attr_comparator_CHARS:
  "attr_comparator fcmp CHARS len v1 v2 = Comparator (strn v1 len) (strn v2 len)"
  by (simp add: attr_comparator_def Let_def strncmp_prefix_order strn_no_zero)

lemma key_order_pullback:
  assumes "\<And>x y. cmp x y = Comparator (f x) (f y :: 'a::linorder)"
  shows "key_order cmp"
  by unfold_locales (auto simp: assms Comparator_def split: if_splits)

lemma attr_order:
  "t \<in> {INTS, CHARS} \<Longrightarrow> key_order (attr_comparator fcmp t len)"
  using key_order_pullback [OF attr_comparator_INTS] key_order_pullback [OF attr_comparator_CHARS]
  by auto

text \<open>Appending the RID makes an order on keys out of an order on attributes.\<close>

locale attr_key_order = key_order acmp
  for acmp :: "byte list \<Rightarrow> byte list \<Rightarrow> int"
begin

lemma key_flip: "key_comparator acmp x y < 0 \<longleftrightarrow> 0 < key_comparator acmp y x"
  using cmp_flip [of "key_attr x" "key_attr y"] cmp_flip [of "key_attr y" "key_attr x"] cmp_zero_sym [of "key_attr x" "key_attr y"]
    rid_order.cmp_flip [of "key_rid x" "key_rid y"]
  by (auto simp: key_comparator_def Let_def)

lemma key_trans:
  assumes "key_comparator acmp x y \<le> 0" "key_comparator acmp y z \<le> 0"
  shows "key_comparator acmp x z \<le> 0"
proof -
  have xy: "acmp (key_attr x) (key_attr y) \<le> 0" and yz: "acmp (key_attr y) (key_attr z) \<le> 0"
    using assms by (auto simp: key_comparator_def Let_def split: if_splits)
  have xz: "acmp (key_attr x) (key_attr z) \<le> 0" by (rule cmp_trans [OF xy yz])
  show ?thesis
  proof (cases "acmp (key_attr x) (key_attr z) = 0")
    case True
    have "le (key_attr z) (key_attr x)" using True cmp_zero_sym [of "key_attr x" "key_attr z"] by (simp add: le_def)
    with xy yz have "\<not> lt (key_attr x) (key_attr y)" "\<not> lt (key_attr y) (key_attr z)"
      unfolding not_lt by (auto simp: le_def intro: cmp_trans)
    with xy yz have "acmp (key_attr x) (key_attr y) = 0" "acmp (key_attr y) (key_attr z) = 0" by (auto simp: lt_def)
    with assms True rid_order.cmp_trans show ?thesis by (auto simp: key_comparator_def Let_def)
  qed (use xz in \<open>simp add: key_comparator_def\<close>)
qed

end

sublocale attr_key_order \<subseteq> keys: key_order "key_comparator acmp"
  by unfold_locales
    (simp add: key_comparator_def cmp_refl rid_order.cmp_refl, rule key_flip, erule (1) key_trans)

interpretation int_keys: attr_key_order "attr_comparator fcmp INTS len" for fcmp len
  by (rule attr_key_order.intro) (rule attr_order, simp)

interpretation char_keys: attr_key_order "attr_comparator fcmp CHARS len" for fcmp len
  by (rule attr_key_order.intro) (rule attr_order, simp)

end
