(* ===== verification/Bitmap.thy ===== *)
theory Bitmap
  imports Miniob_Prelude
begin

text \<open>
  Model of \<^verbatim>\<open>src/common/lang/bitmap.cpp\<close>: a bitmap kept in a byte buffer owned by somebody
  else (a page header), with the two forward scans used to find a free and an occupied slot.
  A C++ \<^verbatim>\<open>char\<close> is an 8 bit word, so \<^verbatim>\<open>byte != -1\<close> is the test that some bit is clear.  Positions
  are natural numbers; the scans return an \<^verbatim>\<open>int\<close>, with -1 for \<^emph>\<open>nothing found\<close>.  The main
  results are that the byte-wise scans agree with a plain search over the positions, and the
  contract \<open>bit_store\<close> through which the record pages and the buffer pool use the bitmap.
\<close>

unbundle bit_operations_syntax

section \<open>Operations\<close>

record bitmap =
  bm_bits :: "byte list"
  bm_size :: nat

function find_first_zero :: "byte \<Rightarrow> nat \<Rightarrow> int" where
  "find_first_zero b i =
    (if i < 8 then
       if b AND push_bit i 1 = 0 then int i else find_first_zero b (i + 1)
     else - 1)"
  by pat_completeness auto
termination by (relation "measure (\<lambda>(b, i). 8 - i)") auto

function find_first_setted :: "byte \<Rightarrow> nat \<Rightarrow> int" where
  "find_first_setted b i =
    (if i < 8 then
       if b AND push_bit i 1 \<noteq> 0 then int i else find_first_setted b (i + 1)
     else - 1)"
  by pat_completeness auto
termination by (relation "measure (\<lambda>(b, i). 8 - i)") auto

definition bytes :: "nat \<Rightarrow> nat" where
  "bytes n = (if n mod 8 = 0 then n div 8 else n div 8 + 1)"

definition bitmap_init :: "byte list \<Rightarrow> nat \<Rightarrow> bitmap" where
  "bitmap_init buf n = \<lparr> bm_bits = buf, bm_size = n \<rparr>"

definition bitmap_get_bit :: "bitmap \<Rightarrow> nat \<Rightarrow> bool" where
  "bitmap_get_bit bm index = ((bm_bits bm ! (index div 8)) AND push_bit (index mod 8) 1 \<noteq> 0)"

definition bitmap_set_bit :: "bitmap \<Rightarrow> nat \<Rightarrow> bitmap" where
  "bitmap_set_bit bm index = bm \<lparr> bm_bits := (bm_bits bm)
     [index div 8 := (bm_bits bm ! (index div 8)) OR push_bit (index mod 8) 1] \<rparr>"

definition bitmap_clear_bit :: "bitmap \<Rightarrow> nat \<Rightarrow> bitmap" where
  "bitmap_clear_bit bm index = bm \<lparr> bm_bits := (bm_bits bm)
     [index div 8 := (bm_bits bm ! (index div 8)) AND NOT (push_bit (index mod 8) 1)] \<rparr>"

function next_unsetted_loop :: "byte list \<Rightarrow> nat \<Rightarrow> nat \<Rightarrow> nat \<Rightarrow> int" where
  "next_unsetted_loop buf e iter start_in_byte =
    (if iter < e then
       let byte = buf ! iter;
           index_in_byte = (if byte \<noteq> - 1 then find_first_zero byte start_in_byte else - 1)
       in if index_in_byte \<ge> 0 then int iter * 8 + index_in_byte
          else next_unsetted_loop buf e (iter + 1) 0
     else - 1)"
  by pat_completeness auto
termination by (relation "measure (\<lambda>(buf, e, iter, s). e - iter)") auto

definition next_unsetted_bit :: "bitmap \<Rightarrow> nat \<Rightarrow> int" where
  "next_unsetted_bit bm start =
    (let ret = next_unsetted_loop (bm_bits bm) (bytes (bm_size bm)) (start div 8) (start mod 8)
     in if ret \<ge> int (bm_size bm) then - 1 else ret)"

function next_setted_loop :: "byte list \<Rightarrow> nat \<Rightarrow> nat \<Rightarrow> nat \<Rightarrow> int" where
  "next_setted_loop buf e iter start_in_byte =
    (if iter < e then
       let byte = buf ! iter;
           index_in_byte = (if byte \<noteq> 0 then find_first_setted byte start_in_byte else - 1)
       in if index_in_byte \<ge> 0 then int iter * 8 + index_in_byte
          else next_setted_loop buf e (iter + 1) 0
     else - 1)"
  by pat_completeness auto
termination by (relation "measure (\<lambda>(buf, e, iter, s). e - iter)") auto

definition next_setted_bit :: "bitmap \<Rightarrow> nat \<Rightarrow> int" where
  "next_setted_bit bm start =
    (let ret = next_setted_loop (bm_bits bm) (bytes (bm_size bm)) (start div 8) (start mod 8)
     in if ret \<ge> int (bm_size bm) then - 1 else ret)"

text \<open>The buffer is long enough for the declared number of bits.\<close>

definition bitmap_wf :: "bitmap \<Rightarrow> bool" where
  "bitmap_wf bm \<longleftrightarrow> bytes (bm_size bm) \<le> length (bm_bits bm)"

declare find_first_zero.simps [simp del] find_first_setted.simps [simp del]
declare next_unsetted_loop.simps [simp del] next_setted_loop.simps [simp del]
lemmas bitmap_loops [loop_unfold] =
  find_first_zero.simps find_first_setted.simps next_unsetted_loop.simps next_setted_loop.simps

section \<open>Single bits\<close>

lemma bytes_bound: "n \<le> 8 * bytes n" "8 * bytes n < n + 8"
  by (simp_all add: bytes_def, presburger+)

lemma index_in_bytes: "i < n \<Longrightarrow> i div 8 < bytes n"
  using bytes_bound(1) [of n] by linarith

lemma get_bit_iff: "bitmap_get_bit bm i \<longleftrightarrow> bit (bm_bits bm ! (i div 8)) (i mod 8)"
  by (simp only: bitmap_get_bit_def and_push_bit_one_iff not_not)

lemma bit_single_iff: "bit (2 ^ k :: byte) j \<longleftrightarrow> k = j \<and> j < 8"
  by (auto simp: bit_exp_iff dest: bit_imp_le_length)

lemma pos_eq_iff: "(i :: nat) div 8 = j div 8 \<Longrightarrow> i mod 8 = j mod 8 \<longleftrightarrow> i = j"
  by (metis div_mult_mod_eq)

lemma get_set_bit:
  assumes "i div 8 < length (bm_bits bm)"
  shows "bitmap_get_bit (bitmap_set_bit bm i) j \<longleftrightarrow> i = j \<or> bitmap_get_bit bm j"
proof (cases "i div 8 = j div 8")
  case True
  note mod_eq = pos_eq_iff [OF True]
  from assms have "bitmap_get_bit (bitmap_set_bit bm i) j \<longleftrightarrow>
      bit (bm_bits bm ! (j div 8)) (j mod 8) \<or> (i mod 8 = j mod 8)"
    by (simp add: get_bit_iff bitmap_set_bit_def bit_or_iff bit_single_iff True)
  then show ?thesis unfolding mod_eq get_bit_iff by blast
next
  case False
  then have "i \<noteq> j" by blast
  with False show ?thesis unfolding get_bit_iff bitmap_set_bit_def by simp
qed

lemma get_clear_bit:
  assumes "i div 8 < length (bm_bits bm)"
  shows "bitmap_get_bit (bitmap_clear_bit bm i) j \<longleftrightarrow> i \<noteq> j \<and> bitmap_get_bit bm j"
proof (cases "i div 8 = j div 8")
  case True
  note mod_eq = pos_eq_iff [OF True]
  from assms have "bitmap_get_bit (bitmap_clear_bit bm i) j \<longleftrightarrow>
      bit (bm_bits bm ! (j div 8)) (j mod 8) \<and> (i mod 8 \<noteq> j mod 8)"
    by (simp add: get_bit_iff bitmap_clear_bit_def bit_and_iff bit_not_iff bit_single_iff True)
  then show ?thesis unfolding mod_eq get_bit_iff by blast
next
  case False
  then have "i \<noteq> j" by blast
  with False show ?thesis unfolding get_bit_iff bitmap_clear_bit_def by simp
qed

lemma bitmap_shape [simp]:
  "bm_size (bitmap_set_bit bm i) = bm_size bm" "length (bm_bits (bitmap_set_bit bm i)) = length (bm_bits bm)"
  "bm_size (bitmap_clear_bit bm i) = bm_size bm" "length (bm_bits (bitmap_clear_bit bm i)) = length (bm_bits bm)"
  by (simp_all add: bitmap_set_bit_def bitmap_clear_bit_def)

lemma bitmap_wf_ops [simp, inv_intro]:
  "bitmap_wf bm \<Longrightarrow> bitmap_wf (bitmap_set_bit bm i)" "bitmap_wf bm \<Longrightarrow> bitmap_wf (bitmap_clear_bit bm i)"
  by (simp_all add: bitmap_wf_def)

section \<open>Forward scans\<close>

text \<open>
  Both scans have the same shape: skip a byte that cannot contain a hit, otherwise look for the
  first hit in it, and go on with position 0 of the next byte.  The locale states that shape
  once and proves that such a scan is a search over the bit positions.
\<close>

locale byte_scan =
  fixes hit :: "byte \<Rightarrow> nat \<Rightarrow> bool"
    and first :: "byte \<Rightarrow> nat \<Rightarrow> int"
    and skip :: "byte \<Rightarrow> bool"
    and loop :: "byte list \<Rightarrow> nat \<Rightarrow> nat \<Rightarrow> nat \<Rightarrow> int"
  assumes first_step:
      "first b i = (if i < 8 then if hit b i then int i else first b (i + 1) else - 1)"
    and skip_no_hit: "skip b \<Longrightarrow> i < 8 \<Longrightarrow> \<not> hit b i"
    and loop_step:
      "loop buf e iter s =
        (if iter < e then
           let k = (if skip (buf ! iter) then - 1 else first (buf ! iter) s)
           in if k \<ge> 0 then int iter * 8 + k else loop buf e (iter + 1) 0
         else - 1)"
begin

lemma first_find: "first b i = index_or_neg (List.find (hit b) [i..<8])"
proof (induction "8 - i" arbitrary: i)
  case 0
  then show ?case by (subst first_step) simp
next
  case (Suc d)
  then have "i < 8" "d = 8 - (i + 1)" by auto
  with Suc.hyps(1) [of "i + 1"] show ?case
    by (subst first_step) (simp add: find_upt_cons)
qed

lemma skip_find: "skip b \<Longrightarrow> List.find (hit b) [s..<8] = None"
  by (auto simp: find_None_iff skip_no_hit)

lemma find_in_byte:
  "List.find (\<lambda>p. hit (buf ! (p div 8)) (p mod 8)) [8 * iter + s..<8 * iter + 8] =
   map_option (\<lambda>i. 8 * iter + i) (List.find (hit (buf ! iter)) [s..<8])"
  unfolding find_upt_shift
  by (intro arg_cong [where f = "map_option _"] find_upt_cong) simp

lemma loop_find:
  "s \<le> 8 \<Longrightarrow> loop buf e iter s =
   index_or_neg (List.find (\<lambda>p. hit (buf ! (p div 8)) (p mod 8)) [8 * iter + s..<8 * e])"
proof (induction "e - iter" arbitrary: iter s)
  case 0
  then show ?case by (subst loop_step) simp
next
  case (Suc d)
  then have "iter < e" and step: "d = e - (iter + 1)" by auto
  then have le: "8 * iter + 8 \<le> 8 * e" by simp
  have ge: "8 * iter + s \<le> 8 * iter + 8" using Suc.prems by simp
  have rest: "8 * iter + 8 = 8 * (iter + 1) + 0" by simp
  show ?case
    unfolding find_upt_split [OF ge le] find_in_byte
    using \<open>iter < e\<close> Suc.hyps(1) [OF step, of 0]
    by (subst loop_step)
      (auto simp: first_find skip_find Let_def add.commute [of _ 8] split: option.splits)
qed

lemma scan_find:
  "(let ret = loop buf (bytes n) (start div 8) (start mod 8)
    in if ret \<ge> int n then - 1 else ret) =
   index_or_neg (List.find (\<lambda>p. hit (buf ! (p div 8)) (p mod 8)) [start..<n])"
  using loop_find [of "start mod 8" buf "bytes n" "start div 8"]
  by (auto simp: Let_def find_upt_cut [OF bytes_bound(1) [of n], of _ start] split: option.splits)

end

interpretation unsetted: byte_scan "\<lambda>b i. \<not> bit b i" find_first_zero "\<lambda>b. b = - 1"
  next_unsetted_loop
proof
  show "find_first_zero b i =
      (if i < 8 then if \<not> bit b i then int i else find_first_zero b (i + 1) else - 1)" for b i
    by (subst find_first_zero.simps) (simp only: and_push_bit_one_iff)
  show "b = - 1 \<Longrightarrow> i < 8 \<Longrightarrow> \<not> \<not> bit b i" for b :: byte and i
    by simp
  show "next_unsetted_loop buf e iter s =
      (if iter < e then
         let k = (if buf ! iter = - 1 then - 1 else find_first_zero (buf ! iter) s)
         in if k \<ge> 0 then int iter * 8 + k else next_unsetted_loop buf e (iter + 1) 0
       else - 1)" for buf e iter s
    by (subst next_unsetted_loop.simps) (simp add: Let_def)
qed

interpretation setted: byte_scan bit find_first_setted "\<lambda>b. b = 0" next_setted_loop
proof
  show "find_first_setted b i =
      (if i < 8 then if bit b i then int i else find_first_setted b (i + 1) else - 1)" for b i
    by (subst find_first_setted.simps) (simp only: and_push_bit_one_iff not_not)
  show "b = 0 \<Longrightarrow> i < 8 \<Longrightarrow> \<not> bit b i" for b :: byte and i
    by simp
  show "next_setted_loop buf e iter s =
      (if iter < e then
         let k = (if buf ! iter = 0 then - 1 else find_first_setted (buf ! iter) s)
         in if k \<ge> 0 then int iter * 8 + k else next_setted_loop buf e (iter + 1) 0
       else - 1)" for buf e iter s
    by (subst next_setted_loop.simps) (simp add: Let_def)
qed

lemma next_unsetted_find:
  "next_unsetted_bit bm start =
   index_or_neg (List.find (\<lambda>i. \<not> bitmap_get_bit bm i) [start..<bm_size bm])"
  unfolding next_unsetted_bit_def get_bit_iff by (rule unsetted.scan_find)

lemma next_setted_find:
  "next_setted_bit bm start =
   index_or_neg (List.find (bitmap_get_bit bm) [start..<bm_size bm])"
  unfolding next_setted_bit_def setted.scan_find
  by (simp add: get_bit_iff [abs_def])

section \<open>The contract of a slot bitmap\<close>

text \<open>
  What a page relies on: setting and clearing a slot changes that slot only, and keeps the
  capacity.  Inside the contract the number of occupied slots is derived, which is what the
  counters stored beside the bitmap (\<^verbatim>\<open>record_num\<close>, \<^verbatim>\<open>allocated_pages\<close>) must agree with.
\<close>

locale bit_store =
  fixes get :: "'s \<Rightarrow> nat \<Rightarrow> bool"
    and put :: "'s \<Rightarrow> nat \<Rightarrow> 's"
    and del :: "'s \<Rightarrow> nat \<Rightarrow> 's"
    and cap :: "'s \<Rightarrow> nat"
    and wf :: "'s \<Rightarrow> bool"
  assumes get_put: "wf s \<Longrightarrow> i < cap s \<Longrightarrow> get (put s i) j \<longleftrightarrow> i = j \<or> get s j"
    and get_del: "wf s \<Longrightarrow> i < cap s \<Longrightarrow> get (del s i) j \<longleftrightarrow> i \<noteq> j \<and> get s j"
    and cap_put: "cap (put s i) = cap s"
    and cap_del: "cap (del s i) = cap s"
begin

definition used :: "'s \<Rightarrow> nat" where
  "used s = card {i. i < cap s \<and> get s i}"

lemma used_put:
  assumes "wf s" "i < cap s" "\<not> get s i"
  shows "used (put s i) = used s + 1"
proof -
  have "{j. j < cap s \<and> get (put s i) j} = insert i {j. j < cap s \<and> get s j}"
    using assms by (auto simp: get_put)
  then show ?thesis using assms by (simp add: used_def cap_put)
qed

lemma used_put_again:
  assumes "wf s" "i < cap s" "get s i"
  shows "used (put s i) = used s"
proof -
  have "{j. j < cap s \<and> get (put s i) j} = {j. j < cap s \<and> get s j}"
    using assms by (auto simp: get_put)
  then show ?thesis by (simp add: used_def cap_put)
qed

lemma used_del:
  assumes "wf s" "i < cap s" "get s i"
  shows "used (del s i) + 1 = used s"
proof -
  have eq: "{j. j < cap s \<and> get s j} = insert i {j. j < cap s \<and> get (del s i) j}"
    using assms by (auto simp: get_del)
  have "i \<notin> {j. j < cap s \<and> get (del s i) j}" using assms by (auto simp: get_del)
  then show ?thesis using assms by (simp add: used_def cap_del eq)
qed

lemma used_le: "used s \<le> cap s"
proof -
  have "card {i. i < cap s \<and> get s i} \<le> card {..<cap s}" by (intro card_mono) auto
  then show ?thesis by (simp add: used_def)
qed

lemma used_full: "used s = cap s \<longleftrightarrow> (\<forall>i<cap s. get s i)"
proof
  assume "used s = cap s"
  then have "{i. i < cap s \<and> get s i} = {..<cap s}"
    by (intro card_subset_eq) (auto simp: used_def)
  then show "\<forall>i<cap s. get s i" by blast
next
  assume "\<forall>i<cap s. get s i"
  then have "{i. i < cap s \<and> get s i} = {..<cap s}" by auto
  then show "used s = cap s" by (simp add: used_def)
qed

lemma used_pos: "i < cap s \<Longrightarrow> get s i \<Longrightarrow> 0 < used s"
  by (auto simp: used_def card_gt_0_iff)

end

interpretation slots: bit_store bitmap_get_bit bitmap_set_bit bitmap_clear_bit bm_size bitmap_wf
  by unfold_locales
    (auto simp: bitmap_wf_def intro!: get_set_bit get_clear_bit dest: index_in_bytes)

section \<open>Properties\<close>

text \<open>
  C28: the two byte-wise scans of the bitmap return exactly the first clear, respectively set,
  position in the range from the start position to the size of the bitmap, and -1 when there is
  none, whatever the padding bits of the last byte contain.
\<close>

theorem bitmap_scans_search:
  "next_unsetted_bit bm start =
     index_or_neg (List.find (\<lambda>i. \<not> bitmap_get_bit bm i) [start..<bm_size bm]) \<and>
   next_setted_bit bm start =
     index_or_neg (List.find (\<lambda>i. bitmap_get_bit bm i) [start..<bm_size bm])"
  using next_unsetted_find next_setted_find by blast

end
