(* ===== verification/Buffer_Pool.thy ===== *)
theory Buffer_Pool
  imports Bitmap
begin

text \<open>
  Model of the page allocation of a buffer pool file: \<^verbatim>\<open>DiskBufferPool\<close> in
  \<^verbatim>\<open>storage/buffer/disk_buffer_pool.cpp\<close>, its log records (\<^verbatim>\<open>buffer_pool_log.cpp\<close>) and the redo
  of these records, and the iterator over the allocated pages.  The state is the file header
  page: number of pages, number of allocated pages and the allocation bitmap, with the log
  sequence number stored on that page.  Obtaining a memory frame for a page is an argument of the
  operations that need one (\<open>frame_rc\<close>), so the paths where no frame is available are present.

  The log is the sequence of records appended so far; \<^verbatim>\<open>LogHandler::append\<close> numbers them
  consecutively.  The records of this module have a fixed size far below the largest payload,
  so the append itself always succeeds.
\<close>

section \<open>Write-ahead log as seen by a client\<close>

record 'e wal =
  wal_lsn :: lsn
  wal_entries :: "(lsn \<times> 'e) list"

definition wal_append :: "'e \<Rightarrow> 'e wal \<Rightarrow> lsn \<times> 'e wal" where
  "wal_append e w =
    (let l = wal_lsn w + 1
     in (l, w \<lparr> wal_lsn := l, wal_entries := wal_entries w @ [(l, e)] \<rparr>))"

section \<open>State\<close>

definition BP_INVALID_PAGE_NUM :: page_num where "BP_INVALID_PAGE_NUM = - 1"
definition BP_HEADER_PAGE :: page_num where "BP_HEADER_PAGE = 0"
definition BP_PAGE_SIZE :: nat where "BP_PAGE_SIZE = 8192"
definition BP_PAGE_DATA_SIZE :: nat where "BP_PAGE_DATA_SIZE = BP_PAGE_SIZE - 8 - 4"
definition MAX_PAGE_NUM :: nat where "MAX_PAGE_NUM = (BP_PAGE_DATA_SIZE - 4 - 4 - 4) * 8"

record bp_file_header =
  buffer_pool_id :: int
  page_count :: nat
  allocated_pages :: int
  bp_bitmap :: "byte list"

datatype bp_operation = ALLOCATE nat | DEALLOCATE nat

record disk_buffer_pool =
  file_header :: bp_file_header
  hdr_lsn :: lsn
  bp_log :: "bp_operation wal"

definition bp_bits :: "bp_file_header \<Rightarrow> bitmap" where
  "bp_bits h = bitmap_init (bp_bitmap h) (page_count h)"

definition page_allocated :: "bp_file_header \<Rightarrow> nat \<Rightarrow> bool" where
  "page_allocated h i \<longleftrightarrow> i < page_count h \<and> bitmap_get_bit (bp_bits h) i"

section \<open>Operations\<close>

text \<open>The loop of \<^verbatim>\<open>allocate_page\<close> over the page numbers below \<^verbatim>\<open>page_count\<close>.\<close>

function find_free_page :: "bp_file_header \<Rightarrow> nat \<Rightarrow> nat option" where
  "find_free_page h i =
    (if i < page_count h then
       if (bp_bitmap h ! (i div 8)) AND push_bit (i mod 8) 1 = 0 then Some i
       else find_free_page h (i + 1)
     else None)"
  by pat_completeness auto
termination by (relation "measure (\<lambda>(h, i). page_count h - i)") auto

declare find_free_page.simps [simp del, loop_unfold]

definition or_page_bit :: "nat \<Rightarrow> byte list \<Rightarrow> byte list" where
  "or_page_bit i bs = bs[i div 8 := (bs ! (i div 8)) OR push_bit (i mod 8) 1]"

definition and_not_page_bit :: "nat \<Rightarrow> byte list \<Rightarrow> byte list" where
  "and_not_page_bit i bs = bs[i div 8 := (bs ! (i div 8)) AND NOT (push_bit (i mod 8) 1)]"

definition allocate_page ::
  "(nat \<Rightarrow> RC) \<Rightarrow> disk_buffer_pool \<Rightarrow> RC \<times> nat option \<times> disk_buffer_pool" where
  "allocate_page frame_rc bp =
    (let h = file_header bp;
         reuse = (if allocated_pages h < int (page_count h) then find_free_page h 0 else None)
     in case reuse of
          Some i \<Rightarrow>
            (let h' = h \<lparr> allocated_pages := allocated_pages h + 1,
                          bp_bitmap := or_page_bit i (bp_bitmap h) \<rparr>;
                 (l, w) = wal_append (ALLOCATE i) (bp_log bp);
                 bp' = bp \<lparr> file_header := h', hdr_lsn := l, bp_log := w \<rparr>
             in if frame_rc i = SUCCESS then (SUCCESS, Some i, bp') else (frame_rc i, None, bp'))
        | None \<Rightarrow>
            if page_count h \<ge> MAX_PAGE_NUM then (BUFFERPOOL_NOBUF, None, bp)
            else
              (let i = page_count h;
                   (l, w) = wal_append (ALLOCATE i) (bp_log bp);
                   bp1 = bp \<lparr> hdr_lsn := l, bp_log := w \<rparr>
               in if frame_rc i \<noteq> SUCCESS then (frame_rc i, None, bp1)
                  else (SUCCESS, Some i,
                        bp1 \<lparr> file_header := h \<lparr> allocated_pages := allocated_pages h + 1,
                                                  page_count := page_count h + 1,
                                                  bp_bitmap := or_page_bit i (bp_bitmap h) \<rparr> \<rparr>)))"

definition dispose_page :: "nat \<Rightarrow> disk_buffer_pool \<Rightarrow> RC \<times> disk_buffer_pool" where
  "dispose_page i bp =
    (if i = 0 then (INTERNAL, bp)
     else
       let h = file_header bp;
           (l, w) = wal_append (DEALLOCATE i) (bp_log bp)
       in (SUCCESS, bp \<lparr> hdr_lsn := l, bp_log := w,
             file_header := h \<lparr> allocated_pages := allocated_pages h - 1,
                                bp_bitmap := and_not_page_bit i (bp_bitmap h) \<rparr> \<rparr>))"

definition recover_page :: "nat \<Rightarrow> disk_buffer_pool \<Rightarrow> RC \<times> disk_buffer_pool" where
  "recover_page i bp =
    (let h = file_header bp
     in if (bp_bitmap h ! (i div 8)) AND push_bit (i mod 8) 1 = 0 then
          (SUCCESS, bp \<lparr> file_header := h \<lparr> bp_bitmap := or_page_bit i (bp_bitmap h),
                                              allocated_pages := allocated_pages h + 1,
                                              page_count := page_count h + 1 \<rparr> \<rparr>)
        else (SUCCESS, bp))"

definition redo_allocate_page :: "lsn \<Rightarrow> nat \<Rightarrow> disk_buffer_pool \<Rightarrow> RC \<times> disk_buffer_pool" where
  "redo_allocate_page l i bp =
    (let h = file_header bp
     in if hdr_lsn bp \<ge> l then (SUCCESS, bp)
        else if i < page_count h then
          (let bm = bp_bits h
           in if bitmap_get_bit bm i then (SUCCESS, bp)
              else (SUCCESS, bp \<lparr> file_header := h \<lparr> bp_bitmap := bm_bits (bitmap_set_bit bm i),
                                                     allocated_pages := allocated_pages h + 1 \<rparr> \<rparr>))
        else if i > page_count h then (INTERNAL, bp)
        else if page_count h \<ge> MAX_PAGE_NUM then (INTERNAL, bp)
        else
          (let h1 = h \<lparr> allocated_pages := allocated_pages h + 1, page_count := page_count h + 1 \<rparr>;
               bm = bp_bits h1
           in (SUCCESS, bp \<lparr> hdr_lsn := l,
                 file_header := h1 \<lparr> bp_bitmap := bm_bits (bitmap_set_bit bm i) \<rparr> \<rparr>)))"

definition redo_deallocate_page :: "lsn \<Rightarrow> nat \<Rightarrow> disk_buffer_pool \<Rightarrow> RC \<times> disk_buffer_pool" where
  "redo_deallocate_page l i bp =
    (let h = file_header bp
     in if hdr_lsn bp \<ge> l then (SUCCESS, bp)
        else if i \<ge> page_count h then (INTERNAL, bp)
        else
          (let bm = bp_bits h
           in if \<not> bitmap_get_bit bm i then (INTERNAL, bp)
              else (SUCCESS, bp \<lparr> hdr_lsn := l,
                      file_header := h \<lparr> bp_bitmap := bm_bits (bitmap_clear_bit bm i),
                                         allocated_pages := allocated_pages h - 1 \<rparr> \<rparr>)))"

definition check_page_num :: "nat \<Rightarrow> disk_buffer_pool \<Rightarrow> RC" where
  "check_page_num i bp =
    (let h = file_header bp
     in if i \<ge> page_count h then BUFFERPOOL_INVALID_PAGE_NUM
        else if (bp_bitmap h ! (i div 8)) AND push_bit (i mod 8) 1 = 0
          then BUFFERPOOL_INVALID_PAGE_NUM
        else SUCCESS)"

text \<open>\<^verbatim>\<open>BufferPoolLogReplayer::replay\<close>, on a record of this file.\<close>

definition bp_replay :: "lsn \<times> bp_operation \<Rightarrow> disk_buffer_pool \<Rightarrow> RC \<times> disk_buffer_pool" where
  "bp_replay e bp =
    (case snd e of
       ALLOCATE i \<Rightarrow> redo_allocate_page (fst e) i bp
     | DEALLOCATE i \<Rightarrow> redo_deallocate_page (fst e) i bp)"

text \<open>The replay driver stops at the first record that cannot be replayed.\<close>

fun bp_replay_all :: "(lsn \<times> bp_operation) list \<Rightarrow> disk_buffer_pool \<Rightarrow> RC \<times> disk_buffer_pool" where
  "bp_replay_all [] bp = (SUCCESS, bp)"
| "bp_replay_all (e # es) bp =
    (let (rc, bp') = bp_replay e bp
     in if OB_FAIL rc then (rc, bp') else bp_replay_all es bp')"

section \<open>Iterator over the allocated pages\<close>

record bp_iterator =
  it_bitmap :: bitmap
  current_page_num :: int

definition bp_iterator_init :: "disk_buffer_pool \<Rightarrow> int \<Rightarrow> bp_iterator" where
  "bp_iterator_init bp start_page =
    \<lparr> it_bitmap = bp_bits (file_header bp),
      current_page_num = (if start_page \<le> 0 then - 1 else start_page - 1) \<rparr>"

definition bp_iterator_has_next :: "bp_iterator \<Rightarrow> bool" where
  "bp_iterator_has_next it \<longleftrightarrow>
    next_setted_bit (it_bitmap it) (nat (current_page_num it + 1)) \<noteq> - 1"

definition bp_iterator_next :: "bp_iterator \<Rightarrow> int \<times> bp_iterator" where
  "bp_iterator_next it =
    (let p = next_setted_bit (it_bitmap it) (nat (current_page_num it + 1))
     in (p, if p \<noteq> - 1 then it \<lparr> current_page_num := p \<rparr> else it))"

definition bp_iterator_reset :: "bp_iterator \<Rightarrow> bp_iterator" where
  "bp_iterator_reset it = it \<lparr> current_page_num := 0 \<rparr>"

text \<open>The loop \<^verbatim>\<open>while (it.has_next()) \{ p = it.next(); ... \}\<close> every user of the iterator runs.\<close>

function bp_iterate :: "bp_iterator \<Rightarrow> int list" where
  "bp_iterate it =
    (if bp_iterator_has_next it then
       let (p, it') = bp_iterator_next it in p # bp_iterate it'
     else [])"
  by pat_completeness auto
termination
proof (relation "measure (\<lambda>it. nat (int (bm_size (it_bitmap it)) - current_page_num it))")
  fix it x p it'
  assume "bp_iterator_has_next it" "x = bp_iterator_next it" "(p, it') = x"
  then obtain i where find: "List.find (bitmap_get_bit (it_bitmap it))
      [nat (current_page_num it + 1)..<bm_size (it_bitmap it)] = Some i"
    and it': "it' = it \<lparr> current_page_num := int i \<rparr>"
    by (auto simp: bp_iterator_has_next_def bp_iterator_next_def next_setted_find Let_def)
  from find_upt_SomeD [OF find] show "(it', it) \<in>
      measure (\<lambda>it. nat (int (bm_size (it_bitmap it)) - current_page_num it))"
    by (auto simp: it')
qed simp

declare bp_iterate.simps [simp del, loop_unfold]

section \<open>A new file\<close>

text \<open>The header page written by \<^verbatim>\<open>BufferPoolManager::create_file\<close>: one page, itself.\<close>

definition create_file_header :: "int \<Rightarrow> bp_file_header" where
  "create_file_header next_buffer_pool_id =
    \<lparr> buffer_pool_id = next_buffer_pool_id, page_count = 1, allocated_pages = 1,
      bp_bitmap = or_page_bit 0 (replicate (BP_PAGE_DATA_SIZE - 12) 0) \<rparr>"

definition open_new_pool :: "int \<Rightarrow> disk_buffer_pool" where
  "open_new_pool bpid = \<lparr> file_header = create_file_header bpid, hdr_lsn = 0,
     bp_log = \<lparr> wal_lsn = 0, wal_entries = [] \<rparr> \<rparr>"

section \<open>Invariant\<close>

definition bp_wf :: "disk_buffer_pool \<Rightarrow> bool" where
  "bp_wf bp \<longleftrightarrow>
    (let h = file_header bp
     in page_count h \<le> MAX_PAGE_NUM \<and> MAX_PAGE_NUM \<le> 8 * length (bp_bitmap h) \<and>
        allocated_pages h = int (slots.used (bp_bits h)) \<and> page_allocated h 0 \<and>
        hdr_lsn bp \<le> wal_lsn (bp_log bp))"

definition live_pages :: "disk_buffer_pool \<Rightarrow> nat set" where
  "live_pages bp = {i. page_allocated (file_header bp) i}"

lemma bp_bits_sel [simp]: "bm_size (bp_bits h) = page_count h" "bm_bits (bp_bits h) = bp_bitmap h"
  by (simp_all add: bp_bits_def bitmap_init_def)

lemma bp_bits_upd [simp]:
  "bm_bits (bitmap_set_bit (bp_bits h) i) = or_page_bit i (bp_bitmap h)"
  "bm_bits (bitmap_clear_bit (bp_bits h) i) = and_not_page_bit i (bp_bitmap h)"
  by (simp_all add: bitmap_set_bit_def bitmap_clear_bit_def or_page_bit_def and_not_page_bit_def)

lemma length_page_bit [simp]:
  "length (or_page_bit i bs) = length bs" "length (and_not_page_bit i bs) = length bs"
  by (simp_all add: or_page_bit_def and_not_page_bit_def)

lemma page_bit_test:
  "(bp_bitmap h ! (i div 8)) AND push_bit (i mod 8) 1 = 0 \<longleftrightarrow> \<not> bitmap_get_bit (bp_bits h) i"
  by (simp add: bitmap_get_bit_def)

lemma page_index_in_range: "i < MAX_PAGE_NUM \<Longrightarrow> MAX_PAGE_NUM \<le> 8 * length bs \<Longrightarrow> i div 8 < length bs"
  by linarith

lemma get_bit_cong:
  "bm_bits b = bm_bits c \<Longrightarrow> bitmap_get_bit b i = bitmap_get_bit c i"
  by (simp add: bitmap_get_bit_def)

lemma get_or_page_bit:
  assumes "i div 8 < length (bp_bitmap h)" "bp_bitmap h' = or_page_bit i (bp_bitmap h)"
  shows "bitmap_get_bit (bp_bits h') j \<longleftrightarrow> i = j \<or> bitmap_get_bit (bp_bits h) j"
proof -
  have "bitmap_get_bit (bp_bits h') j = bitmap_get_bit (bitmap_set_bit (bp_bits h) i) j"
    by (rule get_bit_cong) (simp add: assms(2))
  also have "\<dots> \<longleftrightarrow> i = j \<or> bitmap_get_bit (bp_bits h) j"
    by (rule get_set_bit) (simp add: assms(1))
  finally show ?thesis .
qed

lemma get_and_not_page_bit:
  assumes "i div 8 < length (bp_bitmap h)" "bp_bitmap h' = and_not_page_bit i (bp_bitmap h)"
  shows "bitmap_get_bit (bp_bits h') j \<longleftrightarrow> i \<noteq> j \<and> bitmap_get_bit (bp_bits h) j"
proof -
  have "bitmap_get_bit (bp_bits h') j = bitmap_get_bit (bitmap_clear_bit (bp_bits h) i) j"
    by (rule get_bit_cong) (simp add: assms(2))
  also have "\<dots> \<longleftrightarrow> i \<noteq> j \<and> bitmap_get_bit (bp_bits h) j"
    by (rule get_clear_bit) (simp add: assms(1))
  finally show ?thesis .
qed

lemma find_free_page_find:
  "find_free_page h i = List.find (\<lambda>j. \<not> bitmap_get_bit (bp_bits h) j) [i..<page_count h]"
proof (induction "page_count h - i" arbitrary: i)
  case 0
  then show ?case by (subst find_free_page.simps) simp
next
  case (Suc d)
  then have "i < page_count h" "d = page_count h - (i + 1)" by auto
  with Suc.hyps(1) [of "i + 1"] show ?case
    by (subst find_free_page.simps) (simp only: page_bit_test, simp add: find_upt_cons)
qed

section \<open>Allocated pages as a set\<close>

definition allocated :: "bp_file_header \<Rightarrow> nat set" where
  "allocated h = {i. page_allocated h i}"

lemma allocated_finite [simp]: "finite (allocated h)"
  by (rule finite_subset [of _ "{..<page_count h}"]) (auto simp: allocated_def page_allocated_def)

lemma used_card: "slots.used (bp_bits h) = card (allocated h)"
  by (simp add: slots.used_def allocated_def page_allocated_def)

lemma live_allocated: "live_pages bp = allocated (file_header bp)"
  by (simp add: live_pages_def allocated_def)

lemma allocated_reuse:
  assumes "i < page_count h" "i div 8 < length (bp_bitmap h)"
    "bp_bitmap h' = or_page_bit i (bp_bitmap h)" "page_count h' = page_count h"
  shows "allocated h' = insert i (allocated h)"
  using assms get_or_page_bit [OF assms(2,3)]
  by (auto simp: allocated_def page_allocated_def)

lemma allocated_extend:
  assumes "i = page_count h" "i div 8 < length (bp_bitmap h)"
    "bp_bitmap h' = or_page_bit i (bp_bitmap h)" "page_count h' = page_count h + 1"
  shows "allocated h' = insert i (allocated h)"
  using assms get_or_page_bit [OF assms(2,3)]
  by (auto simp: allocated_def page_allocated_def less_Suc_eq)

lemma allocated_dispose:
  assumes "i < page_count h" "i div 8 < length (bp_bitmap h)"
    "bp_bitmap h' = and_not_page_bit i (bp_bitmap h)" "page_count h' = page_count h"
  shows "allocated h' = allocated h - {i}"
  using assms get_and_not_page_bit [OF assms(2,3)]
  by (auto simp: allocated_def page_allocated_def)

lemma allocated_less: "i \<in> allocated h \<Longrightarrow> i < page_count h"
  by (simp add: allocated_def page_allocated_def)

lemma allocated_full_iff: "card (allocated h) = page_count h \<longleftrightarrow> allocated h = {..<page_count h}"
proof
  assume "card (allocated h) = page_count h"
  then show "allocated h = {..<page_count h}"
    by (intro card_subset_eq) (auto dest: allocated_less)
qed simp

lemma bp_wf_iff:
  "bp_wf bp \<longleftrightarrow>
    page_count (file_header bp) \<le> MAX_PAGE_NUM \<and>
    MAX_PAGE_NUM \<le> 8 * length (bp_bitmap (file_header bp)) \<and>
    allocated_pages (file_header bp) = int (card (live_pages bp)) \<and> 0 \<in> live_pages bp \<and>
    hdr_lsn bp \<le> wal_lsn (bp_log bp)"
  by (simp add: bp_wf_def Let_def used_card live_allocated) (simp add: allocated_def)

section \<open>Allocation and disposal on the set of allocated pages\<close>

lemma wal_append_simps [simp]:
  "wal_append e w = (wal_lsn w + 1,
     w \<lparr> wal_lsn := wal_lsn w + 1, wal_entries := wal_entries w @ [(wal_lsn w + 1, e)] \<rparr>)"
  by (simp add: wal_append_def Let_def)

text \<open>The page the next allocation hands out: the least page number not allocated.\<close>

definition next_free :: "disk_buffer_pool \<Rightarrow> nat" where
  "next_free bp = (LEAST p. p \<notin> live_pages bp)"

text \<open>The header after allocating page \<open>i\<close>, written without the case distinction of the code.\<close>

definition header_alloc :: "nat \<Rightarrow> bp_file_header \<Rightarrow> bp_file_header" where
  "header_alloc i h = h \<lparr> allocated_pages := allocated_pages h + 1,
     page_count := max (page_count h) (i + 1), bp_bitmap := or_page_bit i (bp_bitmap h) \<rparr>"

definition header_free :: "nat \<Rightarrow> bp_file_header \<Rightarrow> bp_file_header" where
  "header_free i h = h \<lparr> allocated_pages := allocated_pages h - 1,
     bp_bitmap := and_not_page_bit i (bp_bitmap h) \<rparr>"

definition log_op :: "bp_operation \<Rightarrow> bp_file_header \<Rightarrow> disk_buffer_pool \<Rightarrow> disk_buffer_pool" where
  "log_op e h bp =
    (let (l, w) = wal_append e (bp_log bp)
     in bp \<lparr> file_header := h, hdr_lsn := l, bp_log := w \<rparr>)"

lemma next_free_reuse:
  assumes "List.find (\<lambda>j. \<not> bitmap_get_bit (bp_bits (file_header bp)) j)
    [0..<page_count (file_header bp)] = Some i"
  shows "next_free bp = i" "i < page_count (file_header bp)" "i \<notin> live_pages bp"
proof -
  from find_upt_SomeD [OF assms]
  have i: "i < page_count (file_header bp)" "\<not> bitmap_get_bit (bp_bits (file_header bp)) i"
    and less: "\<And>j. j < i \<Longrightarrow> bitmap_get_bit (bp_bits (file_header bp)) j" by auto
  from i show free: "i \<notin> live_pages bp" by (simp add: live_pages_def page_allocated_def)
  show "next_free bp = i" unfolding next_free_def
  proof (rule Least_equality)
    show "i \<notin> live_pages bp" by (rule free)
    fix y
    assume "y \<notin> live_pages bp"
    with less [of y] i show "i \<le> y"
      by (cases "y < i") (auto simp: live_pages_def page_allocated_def)
  qed
qed (use find_upt_SomeD [OF assms] in auto)

lemma next_free_extend:
  assumes "live_pages bp = {..<page_count (file_header bp)}"
  shows "next_free bp = page_count (file_header bp)"
  unfolding next_free_def assms by (rule Least_equality) auto

lemma no_free_iff:
  assumes "bp_wf bp"
  shows "(allocated_pages (file_header bp) < int (page_count (file_header bp)) \<longrightarrow>
      find_free_page (file_header bp) 0 = None) \<longleftrightarrow>
    live_pages bp = {..<page_count (file_header bp)}"
proof -
  have le: "card (live_pages bp) \<le> page_count (file_header bp)"
    using card_mono [of "{..<page_count (file_header bp)}" "live_pages bp"]
    by (auto simp: live_allocated dest: allocated_less)
  have "find_free_page (file_header bp) 0 = None \<longleftrightarrow> live_pages bp = {..<page_count (file_header bp)}"
    by (auto simp: find_free_page_find find_None_iff live_pages_def page_allocated_def)
  then show ?thesis
    using assms le allocated_full_iff [of "file_header bp"]
    by (auto simp: bp_wf_iff live_allocated)
qed

lemma allocate_page_eq:
  assumes "bp_wf bp" "\<And>i. frame_rc i = SUCCESS"
  shows "allocate_page frame_rc bp =
    (if live_pages bp = {..<MAX_PAGE_NUM} then (BUFFERPOOL_NOBUF, None, bp)
     else (SUCCESS, Some (next_free bp),
           log_op (ALLOCATE (next_free bp)) (header_alloc (next_free bp) (file_header bp)) bp))"
proof (cases "live_pages bp = {..<page_count (file_header bp)}")
  case True
  then have none: "(if allocated_pages (file_header bp) < int (page_count (file_header bp))
      then find_free_page (file_header bp) 0 else None) = None"
    using no_free_iff [OF assms(1)] by auto
  have full: "live_pages bp = {..<MAX_PAGE_NUM} \<longleftrightarrow> page_count (file_header bp) \<ge> MAX_PAGE_NUM"
  proof -
    have "page_count (file_header bp) \<le> MAX_PAGE_NUM" using assms(1) by (simp add: bp_wf_iff)
    then show ?thesis unfolding True lessThan_eq_iff by linarith
  qed
  show ?thesis
    unfolding allocate_page_def Let_def none full next_free_extend [OF True]
    using assms(2) by (simp add: log_op_def header_alloc_def)
next
  case False
  then obtain i where i: "find_free_page (file_header bp) 0 = Some i"
    and lt: "allocated_pages (file_header bp) < int (page_count (file_header bp))"
    using no_free_iff [OF assms(1)] by auto
  from next_free_reuse [of bp i] i
  have nf: "next_free bp = i" "i < page_count (file_header bp)" "i \<notin> live_pages bp"
    by (simp_all add: find_free_page_find)
  have "page_count (file_header bp) \<le> MAX_PAGE_NUM" using assms(1) unfolding bp_wf_iff by blast
  with nf(2) have "i < MAX_PAGE_NUM" by (rule less_le_trans)
  with nf(3) have "live_pages bp \<noteq> {..<MAX_PAGE_NUM}" by blast
  with nf lt i show ?thesis
    by (simp add: allocate_page_def Let_def assms(2) log_op_def header_alloc_def)
qed

lemma log_op_sel [simp]:
  "file_header (log_op e h bp) = h" "hdr_lsn (log_op e h bp) = wal_lsn (bp_log bp) + 1"
  "wal_lsn (bp_log (log_op e h bp)) = wal_lsn (bp_log bp) + 1"
  "wal_entries (bp_log (log_op e h bp)) = wal_entries (bp_log bp) @ [(wal_lsn (bp_log bp) + 1, e)]"
  by (simp_all add: log_op_def)

lemma next_free_facts:
  assumes "bp_wf bp" "live_pages bp \<noteq> {..<MAX_PAGE_NUM}"
  shows "next_free bp \<notin> live_pages bp" "next_free bp < MAX_PAGE_NUM"
    "next_free bp \<le> page_count (file_header bp)"
proof -
  show "next_free bp \<notin> live_pages bp" unfolding next_free_def
    by (rule LeastI [of _ "page_count (file_header bp)"]) (auto simp: live_allocated dest: allocated_less)
  show le: "next_free bp \<le> page_count (file_header bp)" unfolding next_free_def
    by (rule Least_le) (auto simp: live_allocated dest: allocated_less)
  show "next_free bp < MAX_PAGE_NUM"
  proof (rule ccontr)
    assume "\<not> next_free bp < MAX_PAGE_NUM"
    then have ge: "MAX_PAGE_NUM \<le> next_free bp" by simp
    have "p \<in> live_pages bp" if "p < MAX_PAGE_NUM" for p
      using that ge not_less_Least [of p "\<lambda>p. p \<notin> live_pages bp"] by (auto simp: next_free_def)
    moreover have "p < MAX_PAGE_NUM" if "p \<in> live_pages bp" for p
      using that assms(1) allocated_less [of p "file_header bp"]
      by (auto simp: live_allocated bp_wf_iff)
    ultimately have "live_pages bp = {..<MAX_PAGE_NUM}" by auto
    with assms(2) show False ..
  qed
qed

lemma bp_wf_D:
  assumes "bp_wf bp"
  shows "page_count (file_header bp) \<le> MAX_PAGE_NUM"
    "MAX_PAGE_NUM \<le> 8 * length (bp_bitmap (file_header bp))"
    "allocated_pages (file_header bp) = int (card (live_pages bp))"
    "0 \<in> live_pages bp" "hdr_lsn bp \<le> wal_lsn (bp_log bp)"
  using assms unfolding bp_wf_iff by blast+

lemma live_alloc:
  assumes "bp_wf bp" "i < MAX_PAGE_NUM" "i \<le> page_count (file_header bp)"
  shows "live_pages (log_op e (header_alloc i (file_header bp)) bp) = insert i (live_pages bp)"
proof -
  let ?h = "file_header bp"
  have len: "i div 8 < length (bp_bitmap ?h)"
    by (rule page_index_in_range [OF assms(2) bp_wf_D(2) [OF assms(1)]])
  have "allocated (header_alloc i ?h) = insert i (allocated ?h)"
  proof (cases "i < page_count ?h")
    case True
    then show ?thesis by (intro allocated_reuse [OF _ len]) (simp_all add: header_alloc_def)
  next
    case False
    with assms(3) show ?thesis by (intro allocated_extend [OF _ len]) (simp_all add: header_alloc_def)
  qed
  then show ?thesis by (simp add: live_allocated)
qed

lemma bp_wf_alloc [inv_intro]:
  assumes "bp_wf bp" "i < MAX_PAGE_NUM" "i \<le> page_count (file_header bp)" "i \<notin> live_pages bp"
  shows "bp_wf (log_op e (header_alloc i (file_header bp)) bp)"
  unfolding bp_wf_iff live_alloc [OF assms(1-3)]
  using assms bp_wf_D [OF assms(1)]
  by (simp add: header_alloc_def card_insert_if live_allocated)

lemma live_free:
  assumes "bp_wf bp" "i \<in> live_pages bp"
  shows "live_pages (log_op e (header_free i (file_header bp)) bp) = live_pages bp - {i}"
proof -
  from assms(2) have lt: "i < page_count (file_header bp)" by (simp add: live_allocated allocated_less)
  from lt bp_wf_D(1) [OF assms(1)] have "i < MAX_PAGE_NUM" by (rule less_le_trans)
  then have len: "i div 8 < length (bp_bitmap (file_header bp))"
    by (rule page_index_in_range [OF _ bp_wf_D(2) [OF assms(1)]])
  have "allocated (header_free i (file_header bp)) = allocated (file_header bp) - {i}"
    by (rule allocated_dispose [OF lt len]) (simp_all add: header_free_def)
  then show ?thesis by (simp add: live_allocated)
qed

lemma bp_wf_free [inv_intro]:
  assumes "bp_wf bp" "i \<in> live_pages bp" "i \<noteq> 0"
  shows "bp_wf (log_op e (header_free i (file_header bp)) bp)"
proof -
  have "0 < card (live_pages bp)" using assms(2) by (auto simp: card_gt_0_iff live_allocated)
  then show ?thesis
    unfolding bp_wf_iff live_free [OF assms(1,2)]
    using assms bp_wf_D [OF assms(1)] by (simp add: header_free_def of_nat_diff)
qed

lemma dispose_page_eq:
  "i \<noteq> 0 \<Longrightarrow>
   dispose_page i bp = (SUCCESS, log_op (DEALLOCATE i) (header_free i (file_header bp)) bp)"
  by (simp add: dispose_page_def log_op_def header_free_def Let_def)

lemma check_page_num_live: "check_page_num i bp = SUCCESS \<longleftrightarrow> i \<in> live_pages bp"
  unfolding check_page_num_def Let_def page_bit_test
  by (auto simp: live_pages_def page_allocated_def)

section \<open>The contract of a page allocator\<close>

text \<open>
  What the record files and the index rely on: a page handed out was not in use, giving pages
  out and back changes no other page, and page 0 (the file header) is never handed out.
\<close>

locale page_allocator =
  fixes alloc :: "'s \<Rightarrow> RC \<times> nat option \<times> 's"
    and free :: "nat \<Rightarrow> 's \<Rightarrow> RC \<times> 's"
    and live :: "'s \<Rightarrow> nat set"
    and wf :: "'s \<Rightarrow> bool"
  assumes alloc_some: "wf s \<Longrightarrow> alloc s = (rc, Some p, s') \<Longrightarrow>
      rc = SUCCESS \<and> wf s' \<and> p \<notin> live s \<and> live s' = insert p (live s)"
    and alloc_none: "wf s \<Longrightarrow> alloc s = (rc, None, s') \<Longrightarrow> rc \<noteq> SUCCESS \<and> wf s' \<and> live s' = live s"
    and free_live: "wf s \<Longrightarrow> p \<in> live s \<Longrightarrow> p \<noteq> 0 \<Longrightarrow>
      \<exists>s'. free p s = (SUCCESS, s') \<and> wf s' \<and> live s' = live s - {p}"
    and zero_live: "wf s \<Longrightarrow> 0 \<in> live s"
begin

lemma alloc_nonzero:
  assumes "wf s" "alloc s = (rc, Some p, s')"
  shows "p \<noteq> 0"
proof
  assume "p = 0"
  with alloc_some [OF assms] zero_live [OF assms(1)] show False by simp
qed

lemma alloc_twice_distinct:
  assumes "wf s" "alloc s = (rc, Some p, s')" "alloc s' = (rc', Some q, s'')"
  shows "p \<noteq> q"
proof -
  from alloc_some [OF assms(1,2)] have "wf s'" "p \<in> live s'" by simp_all
  with alloc_some [OF _ assms(3)] show ?thesis by auto
qed

end

interpretation bp_pages: page_allocator "allocate_page (\<lambda>_. SUCCESS)" dispose_page live_pages bp_wf
proof
  fix s :: disk_buffer_pool and s' rc p
  assume wf: "bp_wf s"
  show "rc = SUCCESS \<and> bp_wf s' \<and> p \<notin> live_pages s \<and> live_pages s' = insert p (live_pages s)"
    if "allocate_page (\<lambda>_. SUCCESS) s = (rc, Some p, s')"
    using that next_free_facts [OF wf] bp_wf_alloc [OF wf] live_alloc [OF wf]
    by (auto simp: allocate_page_eq [OF wf] split: if_splits)
  show "rc \<noteq> SUCCESS \<and> bp_wf s' \<and> live_pages s' = live_pages s"
    if "allocate_page (\<lambda>_. SUCCESS) s = (rc, None, s')"
    using that wf by (auto simp: allocate_page_eq [OF wf] split: if_splits)
  show "\<exists>s'. dispose_page p s = (SUCCESS, s') \<and> bp_wf s' \<and> live_pages s' = live_pages s - {p}"
    if "p \<in> live_pages s" "p \<noteq> 0"
    using that bp_wf_free [OF wf that] live_free [OF wf that(1)] by (simp add: dispose_page_eq)
  show "0 \<in> live_pages s" by (rule bp_wf_D(4) [OF wf])
qed

section \<open>Redo\<close>

text \<open>A run of the pool: allocations and disposals, with the log records they wrote.\<close>

inductive bp_run :: "disk_buffer_pool \<Rightarrow> (lsn \<times> bp_operation) list \<Rightarrow> disk_buffer_pool \<Rightarrow> bool" where
  run_start: "bp_run bp [] bp"
| run_alloc: "bp_run bp es bp1 \<Longrightarrow> allocate_page (\<lambda>_. SUCCESS) bp1 = (SUCCESS, Some i, bp2) \<Longrightarrow>
    bp_run bp (es @ [(hdr_lsn bp2, ALLOCATE i)]) bp2"
| run_dispose: "bp_run bp es bp1 \<Longrightarrow> i \<in> live_pages bp1 \<Longrightarrow> dispose_page i bp1 = (SUCCESS, bp2) \<Longrightarrow>
    bp_run bp (es @ [(hdr_lsn bp2, DEALLOCATE i)]) bp2"

lemma bp_replay_all_append:
  "bp_replay_all (xs @ ys) bp =
    (let (rc, bp') = bp_replay_all xs bp in if OB_FAIL rc then (rc, bp') else bp_replay_all ys bp')"
  by (induction xs arbitrary: bp) (auto split: prod.splits)

lemma bp_replay_skip:
  "\<forall>e\<in>set es. fst e \<le> hdr_lsn bp \<Longrightarrow> bp_replay_all es bp = (SUCCESS, bp)"
  by (induction es)
    (auto simp: bp_replay_def redo_allocate_page_def redo_deallocate_page_def
      split: bp_operation.splits)

lemma redo_allocate_eq:
  assumes "hdr_lsn r < l" "file_header r = file_header bp" "bp_wf bp"
    "i < MAX_PAGE_NUM" "i \<le> page_count (file_header bp)" "i \<notin> live_pages bp"
  shows "\<exists>r'. redo_allocate_page l i r = (SUCCESS, r') \<and>
    file_header r' = header_alloc i (file_header bp) \<and> hdr_lsn r' \<le> l"
proof (cases "i < page_count (file_header bp)")
  case True
  with assms(6) have "\<not> bitmap_get_bit (bp_bits (file_header bp)) i"
    by (simp add: live_pages_def page_allocated_def)
  with True assms(1,2) show ?thesis
    by (simp add: redo_allocate_page_def Let_def header_alloc_def)
next
  case False
  with assms(5) have i: "i = page_count (file_header bp)" by simp
  with assms(1,2,4) show ?thesis
    by (simp add: redo_allocate_page_def Let_def header_alloc_def)
qed

lemma redo_deallocate_eq:
  assumes "hdr_lsn r < l" "file_header r = file_header bp" "i \<in> live_pages bp"
  shows "\<exists>r'. redo_deallocate_page l i r = (SUCCESS, r') \<and>
    file_header r' = header_free i (file_header bp) \<and> hdr_lsn r' \<le> l"
  using assms
  by (simp add: redo_deallocate_page_def Let_def header_free_def live_pages_def page_allocated_def)

lemma bp_run_wf [inv_intro]: "bp_run bp es bp' \<Longrightarrow> bp_wf bp \<Longrightarrow> bp_wf bp'"
proof (induction rule: bp_run.induct)
  case (run_alloc bp es bp1 i bp2)
  then show ?case using bp_pages.alloc_some by blast
next
  case (run_dispose bp es bp1 i bp2)
  from run_dispose.hyps(3) have "i \<noteq> 0" by (cases "i = 0") (simp_all add: dispose_page_def)
  with run_dispose bp_pages.free_live [of bp1 i] show ?case by auto
qed

lemma bp_run_alloc_step:
  assumes "bp_wf bp1" "allocate_page (\<lambda>_. SUCCESS) bp1 = (SUCCESS, Some i, bp2)"
  shows "bp2 = log_op (ALLOCATE i) (header_alloc i (file_header bp1)) bp1"
    "i < MAX_PAGE_NUM" "i \<le> page_count (file_header bp1)" "i \<notin> live_pages bp1"
  using assms(2) next_free_facts [OF assms(1)]
  by (auto simp: allocate_page_eq [OF assms(1)] split: if_splits)

lemma bp_run_dispose_step:
  assumes "dispose_page i bp1 = (SUCCESS, bp2)"
  shows "bp2 = log_op (DEALLOCATE i) (header_free i (file_header bp1)) bp1"
  using assms dispose_page_eq [of i bp1] by (cases "i = 0") (auto simp: dispose_page_def)

lemma bp_run_lsn:
  "bp_run bp es bp' \<Longrightarrow> bp_wf bp \<Longrightarrow>
   wal_lsn (bp_log bp) \<le> wal_lsn (bp_log bp') \<and>
   (es \<noteq> [] \<longrightarrow> hdr_lsn bp' = wal_lsn (bp_log bp')) \<and>
   (\<forall>e\<in>set es. fst e \<le> wal_lsn (bp_log bp')) \<and>
   wal_entries (bp_log bp') = wal_entries (bp_log bp) @ es"
proof (induction rule: bp_run.induct)
  case (run_alloc bp es bp1 i bp2)
  note bp_run_alloc_step(1) [OF bp_run_wf [OF run_alloc.hyps(1) run_alloc.prems] run_alloc.hyps(2)]
  with run_alloc.IH [OF run_alloc.prems] show ?case by auto
next
  case (run_dispose bp es bp1 i bp2)
  from bp_run_dispose_step [OF run_dispose.hyps(3)] run_dispose.IH [OF run_dispose.prems]
  show ?case by auto
qed simp

lemma bp_replay_run:
  "bp_run bp es bp' \<Longrightarrow> bp_wf bp \<Longrightarrow> file_header r = file_header bp \<Longrightarrow>
   hdr_lsn r \<le> wal_lsn (bp_log bp) \<Longrightarrow>
   \<exists>r'. bp_replay_all es r = (SUCCESS, r') \<and> file_header r' = file_header bp' \<and>
     hdr_lsn r' \<le> wal_lsn (bp_log bp')"
proof (induction rule: bp_run.induct)
  case (run_alloc bp es bp1 i bp2)
  have wf: "bp_wf bp1" by (rule bp_run_wf [OF run_alloc.hyps(1) run_alloc.prems(1)])
  note step = bp_run_alloc_step [OF wf run_alloc.hyps(2)]
  from run_alloc.IH [OF run_alloc.prems] obtain r1 where
    r1: "bp_replay_all es r = (SUCCESS, r1)" "file_header r1 = file_header bp1"
    "hdr_lsn r1 < hdr_lsn bp2" by (auto simp: step(1))
  from redo_allocate_eq [OF r1(3,2) wf step(2-4)] r1(1)
  show ?case by (auto simp: bp_replay_all_append bp_replay_def step(1))
next
  case (run_dispose bp es bp1 i bp2)
  note step = bp_run_dispose_step [OF run_dispose.hyps(3)]
  from run_dispose.IH [OF run_dispose.prems] obtain r1 where
    r1: "bp_replay_all es r = (SUCCESS, r1)" "file_header r1 = file_header bp1"
    "hdr_lsn r1 < hdr_lsn bp2" by (auto simp: step)
  from redo_deallocate_eq [OF r1(3,2) run_dispose.hyps(2)] r1(1)
  show ?case by (auto simp: bp_replay_all_append bp_replay_def step)
qed simp

section \<open>Iteration\<close>

lemma filter_upt_find:
  "filter P [s..<n] =
    (case List.find P [s..<n] of None \<Rightarrow> [] | Some i \<Rightarrow> i # filter P [Suc i..<n])"
proof (induction "n - s" arbitrary: s)
  case (Suc d)
  then have "s < n" "d = n - Suc s" by auto
  with Suc.hyps(1) [of "Suc s"] show ?case by (simp add: find_upt_cons upt_conv_Cons)
qed simp

lemma bp_iterate_filter:
  "current_page_num it \<ge> - 1 \<Longrightarrow>
   bp_iterate it = map int (filter (bitmap_get_bit (it_bitmap it))
     [nat (current_page_num it + 1)..<bm_size (it_bitmap it)])"
proof (induction it rule: bp_iterate.induct)
  case (1 it)
  let ?s = "nat (current_page_num it + 1)" and ?n = "bm_size (it_bitmap it)"
  let ?P = "bitmap_get_bit (it_bitmap it)"
  show ?case
  proof (cases "List.find ?P [?s..<?n]")
    case None
    then show ?thesis
      by (subst bp_iterate.simps, subst filter_upt_find)
        (simp add: bp_iterator_has_next_def next_setted_find)
  next
    case (Some i)
    let ?it = "it \<lparr> current_page_num := int i \<rparr>"
    have next_it: "bp_iterator_has_next it" "bp_iterator_next it = (int i, ?it)"
      using Some
      by (simp_all add: bp_iterator_has_next_def bp_iterator_next_def next_setted_find Let_def)
    have "bp_iterate ?it = map int (filter ?P [Suc i..<?n])"
      using "1.IH" [OF next_it(1) refl next_it(2) [symmetric]] by (simp add: nat_add_distrib)
    with Some next_it show ?thesis
      by (subst bp_iterate.simps, subst filter_upt_find) simp
  qed
qed

lemma open_new_pool_live: "live_pages (open_new_pool bpid) = {0}"
proof -
  have "bp_bitmap (create_file_header bpid) ! 0 = 1"
    by (simp add: create_file_header_def or_page_bit_def BP_PAGE_DATA_SIZE_def BP_PAGE_SIZE_def)
  then show ?thesis
    by (auto simp: live_pages_def page_allocated_def open_new_pool_def get_bit_iff)
      (simp_all add: create_file_header_def)
qed

lemma open_new_pool_wf: "bp_wf (open_new_pool bpid)"
  unfolding bp_wf_iff open_new_pool_live
  by (simp add: open_new_pool_def create_file_header_def MAX_PAGE_NUM_def BP_PAGE_DATA_SIZE_def
      BP_PAGE_SIZE_def)

section \<open>Properties\<close>

text \<open>
  C25: with frames available, allocate_page hands out the smallest page number that is not
  allocated and marks exactly that page, keeping the page counters consistent with the bitmap;
  it fails, with BUFFERPOOL_NOBUF and without any change, only when all MAX_PAGE_NUM pages are
  allocated.
\<close>

theorem allocate_page_least:
  assumes "bp_wf bp" "\<And>i. frame_rc i = SUCCESS"
  shows "case allocate_page frame_rc bp of (rc, r, bp') \<Rightarrow>
    bp_wf bp' \<and>
    (if live_pages bp = {..<MAX_PAGE_NUM} then rc = BUFFERPOOL_NOBUF \<and> r = None \<and> bp' = bp
     else \<exists>p. rc = SUCCESS \<and> r = Some p \<and> p \<notin> live_pages bp \<and> {..<p} \<subseteq> live_pages bp \<and>
            live_pages bp' = insert p (live_pages bp))"
proof (cases "live_pages bp = {..<MAX_PAGE_NUM}")
  case True
  show ?thesis unfolding allocate_page_eq [OF assms] if_P [OF True] prod.case
    by (intro conjI refl assms(1))
next
  case False
  note nf = next_free_facts [OF assms(1) False]
  have below: "{..<next_free bp} \<subseteq> live_pages bp"
  proof
    fix p
    assume "p \<in> {..<next_free bp}"
    then show "p \<in> live_pages bp"
      using not_less_Least [of p "\<lambda>p. p \<notin> live_pages bp"] by (simp add: next_free_def)
  qed
  show ?thesis
    unfolding allocate_page_eq [OF assms] prod.case if_not_P [OF False]
    by (intro conjI exI [of _ "next_free bp"] refl bp_wf_alloc live_alloc assms(1) nf below)
qed

theorem allocate_page_least_witness:
  "\<exists>bp'. allocate_page (\<lambda>_. SUCCESS) (open_new_pool 7) = (SUCCESS, Some 1, bp') \<and>
     bp_wf bp' \<and> live_pages bp' = {0, 1}"
proof -
  have full: "{0 :: nat} \<noteq> {..<MAX_PAGE_NUM}"
  proof
    assume "{0 :: nat} = {..<MAX_PAGE_NUM}"
    then have "1 \<notin> {..<MAX_PAGE_NUM}" by auto
    then show False by (simp add: MAX_PAGE_NUM_def BP_PAGE_DATA_SIZE_def BP_PAGE_SIZE_def)
  qed
  obtain rc r bp' where eq: "allocate_page (\<lambda>_. SUCCESS) (open_new_pool 7) = (rc, r, bp')"
    by (metis surj_pair)
  from allocate_page_least [OF open_new_pool_wf [of 7], of "\<lambda>_. SUCCESS"] full
  obtain p where p: "bp_wf bp'" "rc = SUCCESS" "r = Some p" "p \<notin> {0}" "{..<p} \<subseteq> {0}"
    "live_pages bp' = insert p {0}"
    unfolding eq open_new_pool_live by auto
  have "p = 1"
  proof (rule ccontr)
    assume "p \<noteq> 1"
    with p(4) have "1 \<in> {..<p}" by simp
    with p(5) show False by auto
  qed
  with p eq show ?thesis by (auto simp: insert_commute)
qed

text \<open>
  C26: redo is exact.  Take any run of allocations and disposals, crash after the header page of
  some intermediate state was the last one written, and replay all log records of the run from
  its beginning: every record is accepted, records already contained in the header page are
  skipped, and the file header becomes the one of the final state.
\<close>

theorem bp_redo_exact:
  assumes "bp_wf bp0" "bp_run bp0 es1 bp1" "bp_run bp1 es2 bp2"
  shows "wal_entries (bp_log bp2) = wal_entries (bp_log bp0) @ es1 @ es2 \<and>
    (\<exists>r. bp_replay_all (es1 @ es2) bp1 = (SUCCESS, r) \<and> file_header r = file_header bp2)"
proof -
  have wf1: "bp_wf bp1" by (rule bp_run_wf [OF assms(2,1)])
  note l1 = bp_run_lsn [OF assms(2,1)] and l2 = bp_run_lsn [OF assms(3) wf1]
  have "bp_replay_all es1 bp1 = (SUCCESS, bp1)"
    by (rule bp_replay_skip) (use l1 in auto)
  moreover have "\<exists>r. bp_replay_all es2 bp1 = (SUCCESS, r) \<and> file_header r = file_header bp2"
    using bp_replay_run [OF assms(3) wf1 refl bp_wf_D(5) [OF wf1]] by blast
  ultimately show ?thesis using l1 l2 by (auto simp: bp_replay_all_append)
qed

theorem bp_redo_exact_witness:
  "\<exists>bp1 bp2. bp_run (open_new_pool 7) [(hdr_lsn bp1, ALLOCATE 1)] bp1 \<and>
     bp_run bp1 [(hdr_lsn bp2, DEALLOCATE 1)] bp2 \<and>
     (\<exists>r. bp_replay_all ([(hdr_lsn bp1, ALLOCATE 1)] @ [(hdr_lsn bp2, DEALLOCATE 1)]) bp1 =
            (SUCCESS, r) \<and> file_header r = file_header bp2)"
proof -
  have nf: "next_free (open_new_pool 7) = 1"
    unfolding next_free_def open_new_pool_live by (rule Least_equality) auto
  have "(1 :: nat) \<in> {..<MAX_PAGE_NUM}"
    by (simp add: MAX_PAGE_NUM_def BP_PAGE_DATA_SIZE_def BP_PAGE_SIZE_def)
  then have full: "live_pages (open_new_pool 7) \<noteq> {..<MAX_PAGE_NUM}"
    unfolding open_new_pool_live by auto
  obtain bp1 where a: "allocate_page (\<lambda>_. SUCCESS) (open_new_pool 7) = (SUCCESS, Some 1, bp1)"
    using full by (simp add: allocate_page_eq [OF open_new_pool_wf] nf)
  note live1 = bp_pages.alloc_some [OF open_new_pool_wf a]
  obtain bp2 where d: "dispose_page 1 bp1 = (SUCCESS, bp2)" by (simp add: dispose_page_eq)
  have run1: "bp_run (open_new_pool 7) [(hdr_lsn bp1, ALLOCATE 1)] bp1"
    using run_alloc [OF run_start a] by simp
  have run2: "bp_run bp1 [(hdr_lsn bp2, DEALLOCATE 1)] bp2"
    using run_dispose [OF run_start _ d] live1 by simp
  from bp_redo_exact [OF open_new_pool_wf run1 run2] run1 run2 show ?thesis by blast
qed

text \<open>
  C27: the page iterator visits exactly the allocated pages from its start page on, each once, in
  increasing order.
\<close>

theorem bp_iterator_visits:
  "bp_iterate (bp_iterator_init bp start) =
     map int (filter (\<lambda>i. i \<in> live_pages bp) [nat start..<page_count (file_header bp)])"
proof -
  have "bp_iterate (bp_iterator_init bp start) =
    map int (filter (bitmap_get_bit (bp_bits (file_header bp)))
      [nat start..<page_count (file_header bp)])"
    by (subst bp_iterate_filter) (auto simp: bp_iterator_init_def)
  also have "filter (bitmap_get_bit (bp_bits (file_header bp)))
      [nat start..<page_count (file_header bp)] =
    filter (\<lambda>i. i \<in> live_pages bp) [nat start..<page_count (file_header bp)]"
    by (rule filter_cong) (auto simp: live_pages_def page_allocated_def)
  finally show ?thesis .
qed

end
