(* ===== verification/Bplus_Node.thy ===== *)
theory Bplus_Node
  imports Index_Key Buffer_Pool
begin

text \<open>
  Model of the node handlers of the B+ tree (\<^verbatim>\<open>IndexNodeHandler\<close>, \<^verbatim>\<open>LeafIndexNodeHandler\<close> and
  \<^verbatim>\<open>InternalIndexNodeHandler\<close> in \<^verbatim>\<open>storage/index/bplus_tree.cpp\<close>) and of the log records they append
  (\<^verbatim>\<open>bplus_tree_log.cpp\<close>, \<^verbatim>\<open>bplus_tree_log_entry.cpp\<close>).

  A node page is a value of \<open>index_node\<close>: the header fields and the array of items as a list, so
  \<^verbatim>\<open>key_num\<close> is the length of the list and moving items with \<^verbatim>\<open>memmove\<close> is list surgery.  A handler
  operation changes pages of the index file and appends a record to the log of the running mini
  transaction, so it takes the state of the tree handler and the number of the page the handler
  was created for.  Appending to the log of a mini transaction only pushes to a vector and cannot
  fail.  The first key of an internal node is stored but never compared.
\<close>

section \<open>Pages of an index file\<close>

datatype index_node =
  is_leaf: LeafNode (node_parent: page_num) (next_brother: page_num) (leaf_items: "(key \<times> rid) list")
| InternalNode (node_parent: page_num) (internal_items: "(key \<times> page_num) list")

datatype BplusTreeOperationType = READ | INSERT | DELETE

record index_file_header =
  root_page :: page_num
  internal_max_size :: nat
  leaf_max_size :: nat
  attr_length :: nat
  key_length :: nat
  attr_type :: AttrType

datatype items = LeafItems "(key \<times> rid) list" | InternalItems "(key \<times> page_num) list"

datatype log_entry =
  INIT_HEADER_PAGE index_file_header
| UPDATE_ROOT_PAGE page_num page_num
| SET_PARENT_PAGE page_num page_num page_num
| LEAF_INIT_EMPTY page_num
| LEAF_SET_NEXT_PAGE page_num page_num page_num
| INTERNAL_INIT_EMPTY page_num
| INTERNAL_CREATE_NEW_ROOT page_num page_num key page_num
| INTERNAL_UPDATE_KEY page_num nat key key
| NODE_INSERT page_num nat items
| NODE_REMOVE page_num nat items

text \<open>
  The state of a \<^verbatim>\<open>BplusTreeHandler\<close> with its file: allocation state, contents of the node pages,
  the header kept in memory and the one on the header page, and the log records of the current
  mini transaction.
\<close>

record tree_handler =
  th_pool :: disk_buffer_pool
  th_pages :: "page_num \<Rightarrow> index_node option"
  th_header :: index_file_header
  th_header_page :: index_file_header
  th_log :: "log_entry list"

section \<open>Sizes\<close>

definition RID_SIZE :: nat where "RID_SIZE = 8"
definition PAGE_NUM_SIZE :: nat where "PAGE_NUM_SIZE = 4"
definition INTERNAL_HEADER_SIZE :: nat where "INTERNAL_HEADER_SIZE = 12"
definition LEAF_HEADER_SIZE :: nat where "LEAF_HEADER_SIZE = 12 + 4"

definition calc_internal_page_capacity :: "nat \<Rightarrow> nat" where
  "calc_internal_page_capacity attr_len =
    (let item_size = attr_len + RID_SIZE + PAGE_NUM_SIZE
     in (BP_PAGE_DATA_SIZE - INTERNAL_HEADER_SIZE) div item_size)"

definition calc_leaf_page_capacity :: "nat \<Rightarrow> nat" where
  "calc_leaf_page_capacity attr_len =
    (let item_size = attr_len + RID_SIZE + RID_SIZE
     in (BP_PAGE_DATA_SIZE - LEAF_HEADER_SIZE) div item_size)"

fun node_size :: "index_node \<Rightarrow> nat" where
  "node_size (LeafNode par nx xs) = length xs"
| "node_size (InternalNode par xs) = length xs"

definition max_size :: "index_file_header \<Rightarrow> index_node \<Rightarrow> nat" where
  "max_size h n = (if is_leaf n then leaf_max_size h else internal_max_size h)"

definition min_size :: "index_file_header \<Rightarrow> index_node \<Rightarrow> nat" where
  "min_size h n = (let mx = max_size h n in mx - mx div 2)"

definition is_safe ::
  "index_file_header \<Rightarrow> index_node \<Rightarrow> BplusTreeOperationType \<Rightarrow> bool \<Rightarrow> bool" where
  "is_safe h n op is_root_node =
    (case op of
       READ \<Rightarrow> True
     | INSERT \<Rightarrow> node_size n < max_size h n
     | DELETE \<Rightarrow>
         if is_root_node then
           if is_leaf n then node_size n > 1 else node_size n > 2
         else node_size n > min_size h n)"

definition node_validate :: "index_node \<Rightarrow> bool" where
  "node_validate n =
    (if node_parent n = BP_INVALID_PAGE_NUM then
       if node_size n < 1 then False
       else if \<not> is_leaf n \<and> node_size n < 2 then False
       else True
     else True)"

section \<open>Primitive changes of a node\<close>

definition insert_at :: "nat \<Rightarrow> 'a list \<Rightarrow> 'a list \<Rightarrow> 'a list" where
  "insert_at index new xs = take index xs @ new @ drop index xs"

definition remove_at :: "nat \<Rightarrow> nat \<Rightarrow> 'a list \<Rightarrow> 'a list" where
  "remove_at index num xs = take index xs @ drop (index + num) xs"

definition item_count :: "items \<Rightarrow> nat" where
  "item_count new = (case new of LeafItems ys \<Rightarrow> length ys | InternalItems ys \<Rightarrow> length ys)"

fun recover_insert_items :: "nat \<Rightarrow> items \<Rightarrow> index_node \<Rightarrow> index_node" where
  "recover_insert_items index (LeafItems ys) (LeafNode par nx xs) = LeafNode par nx (insert_at index ys xs)"
| "recover_insert_items index (InternalItems ys) (InternalNode par xs) = InternalNode par (insert_at index ys xs)"
| "recover_insert_items index _ n = n"

fun recover_remove_items :: "nat \<Rightarrow> nat \<Rightarrow> index_node \<Rightarrow> index_node" where
  "recover_remove_items index num (LeafNode par nx xs) = LeafNode par nx (remove_at index num xs)"
| "recover_remove_items index num (InternalNode par xs) = InternalNode par (remove_at index num xs)"

fun put_parent :: "page_num \<Rightarrow> index_node \<Rightarrow> index_node" where
  "put_parent q (LeafNode par nx xs) = LeafNode q nx xs"
| "put_parent q (InternalNode par xs) = InternalNode q xs"

fun put_next :: "page_num \<Rightarrow> index_node \<Rightarrow> index_node" where
  "put_next q (LeafNode par nx xs) = LeafNode par q xs"
| "put_next q (InternalNode par xs) = InternalNode par xs"

fun put_key :: "nat \<Rightarrow> key \<Rightarrow> index_node \<Rightarrow> index_node" where
  "put_key index k (InternalNode par xs) = InternalNode par (xs[index := (k, snd (xs ! index))])"
| "put_key index k (LeafNode par nx xs) = LeafNode par nx xs"

definition change :: "page_num \<Rightarrow> (index_node \<Rightarrow> index_node) \<Rightarrow> tree_handler \<Rightarrow> tree_handler" where
  "change p f st = st \<lparr> th_pages := (th_pages st)(p := map_option f (th_pages st p)) \<rparr>"

definition append_log_entry :: "log_entry \<Rightarrow> tree_handler \<Rightarrow> tree_handler" where
  "append_log_entry e st = st \<lparr> th_log := th_log st @ [e] \<rparr>"

text \<open>The node on a page the caller holds a frame of.\<close>

abbreviation node_at :: "tree_handler \<Rightarrow> page_num \<Rightarrow> index_node" where
  "node_at st p \<equiv> the (th_pages st p)"

definition set_parent_page_num :: "page_num \<Rightarrow> page_num \<Rightarrow> tree_handler \<Rightarrow> tree_handler" where
  "set_parent_page_num p q st =
    change p (put_parent q) (append_log_entry (SET_PARENT_PAGE p q (node_parent (node_at st p))) st)"

section \<open>Leaf nodes\<close>

definition leaf_init_empty :: "page_num \<Rightarrow> tree_handler \<Rightarrow> tree_handler" where
  "leaf_init_empty p st =
    change p (\<lambda>_. LeafNode BP_INVALID_PAGE_NUM BP_INVALID_PAGE_NUM [])
      (append_log_entry (LEAF_INIT_EMPTY p) st)"

definition set_next_page :: "page_num \<Rightarrow> page_num \<Rightarrow> tree_handler \<Rightarrow> tree_handler" where
  "set_next_page p q st =
    change p (put_next q) (append_log_entry (LEAF_SET_NEXT_PAGE p q (next_brother (node_at st p))) st)"

definition leaf_lookup :: "(key \<Rightarrow> key \<Rightarrow> int) \<Rightarrow> index_node \<Rightarrow> key \<Rightarrow> nat \<times> bool" where
  "leaf_lookup cmp n k = lower_bound (\<lambda>it. cmp (fst it)) (leaf_items n) k"

definition node_insert_items :: "page_num \<Rightarrow> nat \<Rightarrow> items \<Rightarrow> tree_handler \<Rightarrow> tree_handler" where
  "node_insert_items p index new st =
    change p (recover_insert_items index new) (append_log_entry (NODE_INSERT p index new) st)"

definition node_remove_items :: "page_num \<Rightarrow> nat \<Rightarrow> items \<Rightarrow> tree_handler \<Rightarrow> tree_handler" where
  "node_remove_items p index old st =
    change p (recover_remove_items index (item_count old)) (append_log_entry (NODE_REMOVE p index old) st)"

definition leaf_insert :: "page_num \<Rightarrow> nat \<Rightarrow> key \<Rightarrow> rid \<Rightarrow> tree_handler \<Rightarrow> tree_handler" where
  "leaf_insert p index k r st = node_insert_items p index (LeafItems [(k, r)]) st"

definition leaf_remove :: "page_num \<Rightarrow> nat \<Rightarrow> tree_handler \<Rightarrow> tree_handler" where
  "leaf_remove p index st =
    node_remove_items p index (LeafItems [leaf_items (node_at st p) ! index]) st"

definition leaf_remove_key ::
  "(key \<Rightarrow> key \<Rightarrow> int) \<Rightarrow> page_num \<Rightarrow> key \<Rightarrow> tree_handler \<Rightarrow> nat \<times> tree_handler" where
  "leaf_remove_key cmp p k st =
    (let (index, found) = leaf_lookup cmp (node_at st p) k
     in if found then (1, leaf_remove p index st) else (0, st))"

definition leaf_append :: "page_num \<Rightarrow> (key \<times> rid) list \<Rightarrow> tree_handler \<Rightarrow> tree_handler" where
  "leaf_append p new st = node_insert_items p (node_size (node_at st p)) (LeafItems new) st"

definition leaf_preappend :: "page_num \<Rightarrow> key \<times> rid \<Rightarrow> tree_handler \<Rightarrow> tree_handler" where
  "leaf_preappend p item st = leaf_insert p 0 (fst item) (snd item) st"

definition leaf_move_half_to :: "page_num \<Rightarrow> page_num \<Rightarrow> tree_handler \<Rightarrow> tree_handler" where
  "leaf_move_half_to p other st =
    (let xs = leaf_items (node_at st p);
         move_index = length xs div 2;
         st1 = leaf_append other (drop move_index xs) st
     in node_remove_items p move_index (LeafItems (drop move_index xs)) st1)"

definition leaf_move_first_to_end :: "page_num \<Rightarrow> page_num \<Rightarrow> tree_handler \<Rightarrow> tree_handler" where
  "leaf_move_first_to_end p other st =
    leaf_remove p 0 (leaf_append other [leaf_items (node_at st p) ! 0] st)"

definition leaf_move_last_to_front :: "page_num \<Rightarrow> page_num \<Rightarrow> tree_handler \<Rightarrow> tree_handler" where
  "leaf_move_last_to_front p other st =
    (let n = node_size (node_at st p)
     in leaf_remove p (n - 1) (leaf_preappend other (leaf_items (node_at st p) ! (n - 1)) st))"

definition leaf_move_to :: "page_num \<Rightarrow> page_num \<Rightarrow> tree_handler \<Rightarrow> tree_handler" where
  "leaf_move_to p other st =
    (let xs = leaf_items (node_at st p);
         st1 = leaf_append other xs st;
         st2 = set_next_page other (next_brother (node_at st1 p)) st1
     in node_remove_items p 0 (LeafItems xs) st2)"

section \<open>Internal nodes\<close>

definition internal_init_empty :: "page_num \<Rightarrow> tree_handler \<Rightarrow> tree_handler" where
  "internal_init_empty p st =
    change p (\<lambda>_. InternalNode BP_INVALID_PAGE_NUM []) (append_log_entry (INTERNAL_INIT_EMPTY p) st)"

definition zero_key :: "nat \<Rightarrow> key" where
  "zero_key attr_len = Key (replicate attr_len 0) \<lparr> rid_page_num = 0, rid_slot_num = 0 \<rparr>"

text \<open>Filling the two slots of a root that was just initialised.\<close>

fun put_new_root :: "nat \<Rightarrow> page_num \<Rightarrow> key \<Rightarrow> page_num \<Rightarrow> index_node \<Rightarrow> index_node" where
  "put_new_root attr_len first k p (InternalNode par xs) =
     InternalNode par [(zero_key attr_len, first), (k, p)]"
| "put_new_root attr_len first k p (LeafNode par nx xs) = LeafNode par nx xs"

definition create_new_root ::
  "page_num \<Rightarrow> page_num \<Rightarrow> key \<Rightarrow> page_num \<Rightarrow> tree_handler \<Rightarrow> tree_handler" where
  "create_new_root r first k p st =
    change r (put_new_root (attr_length (th_header st)) first k p)
      (append_log_entry (INTERNAL_CREATE_NEW_ROOT r first k p) st)"

text \<open>The index of the child to follow, the found flag, and the position for an insertion.\<close>

definition internal_lookup :: "(key \<Rightarrow> key \<Rightarrow> int) \<Rightarrow> index_node \<Rightarrow> key \<Rightarrow> nat \<times> bool \<times> nat" where
  "internal_lookup cmp n k =
    (let xs = internal_items n; size = length xs
     in if size = 0 then (0, False, 1)
        else
          let (pos, found) = lower_bound (\<lambda>it. cmp (fst it)) (tl xs) k;
              ret = pos + 1
          in (if ret \<ge> size \<or> cmp k (fst (xs ! ret)) < 0 then ret - 1 else ret, found, ret))"

definition internal_insert ::
  "(key \<Rightarrow> key \<Rightarrow> int) \<Rightarrow> page_num \<Rightarrow> key \<Rightarrow> page_num \<Rightarrow> tree_handler \<Rightarrow> tree_handler" where
  "internal_insert cmp p k child st =
    (let (_, _, insert_position) = internal_lookup cmp (node_at st p) k
     in node_insert_items p insert_position (InternalItems [(k, child)]) st)"

definition set_key_at :: "page_num \<Rightarrow> nat \<Rightarrow> key \<Rightarrow> tree_handler \<Rightarrow> tree_handler" where
  "set_key_at p index k st =
    change p (put_key index k)
      (append_log_entry (INTERNAL_UPDATE_KEY p index k (fst (internal_items (node_at st p) ! index))) st)"

definition internal_value_at :: "index_node \<Rightarrow> nat \<Rightarrow> page_num" where
  "internal_value_at n index = snd (internal_items n ! index)"

fun value_index_loop :: "(key \<times> page_num) list \<Rightarrow> page_num \<Rightarrow> int \<Rightarrow> int" where
  "value_index_loop [] p i = - 1"
| "value_index_loop (x # xs) p i = (if p = snd x then i else value_index_loop xs p (i + 1))"

definition value_index :: "index_node \<Rightarrow> page_num \<Rightarrow> int" where
  "value_index n p = value_index_loop (internal_items n) p 0"

definition internal_remove :: "page_num \<Rightarrow> nat \<Rightarrow> tree_handler \<Rightarrow> tree_handler" where
  "internal_remove p index st =
    node_remove_items p index (InternalItems [internal_items (node_at st p) ! index]) st"

text \<open>Fetching a page fails when the file has no such page.\<close>

fun set_children_parent :: "page_num list \<Rightarrow> page_num \<Rightarrow> tree_handler \<Rightarrow> RC \<times> tree_handler" where
  "set_children_parent [] q st = (SUCCESS, st)"
| "set_children_parent (c # cs) q st =
    (case th_pages st c of
       None \<Rightarrow> (IOERR_READ, st)
     | Some _ \<Rightarrow> set_children_parent cs q (set_parent_page_num c q st))"

definition internal_insert_items ::
  "page_num \<Rightarrow> nat \<Rightarrow> (key \<times> page_num) list \<Rightarrow> tree_handler \<Rightarrow> RC \<times> tree_handler" where
  "internal_insert_items p index new st =
    set_children_parent (map snd new) p (node_insert_items p index (InternalItems new) st)"

definition internal_append :: "page_num \<Rightarrow> (key \<times> page_num) list \<Rightarrow> tree_handler \<Rightarrow> RC \<times> tree_handler" where
  "internal_append p new st = internal_insert_items p (node_size (node_at st p)) new st"

definition internal_preappend :: "page_num \<Rightarrow> key \<times> page_num \<Rightarrow> tree_handler \<Rightarrow> RC \<times> tree_handler" where
  "internal_preappend p item st = internal_insert_items p 0 [item] st"

definition internal_move_half_to :: "page_num \<Rightarrow> page_num \<Rightarrow> tree_handler \<Rightarrow> RC \<times> tree_handler" where
  "internal_move_half_to p other st =
    (let xs = internal_items (node_at st p);
         move_index = length xs div 2;
         (rc, st1) = internal_append other (drop move_index xs) st
     in if OB_FAIL rc then (rc, st1)
        else (rc, node_remove_items p move_index (InternalItems (drop move_index xs)) st1))"

definition internal_move_to :: "page_num \<Rightarrow> page_num \<Rightarrow> tree_handler \<Rightarrow> RC \<times> tree_handler" where
  "internal_move_to p other st =
    (let xs = internal_items (node_at st p);
         (rc, st1) = internal_append other xs st
     in if OB_FAIL rc then (rc, st1)
        else (SUCCESS, node_remove_items p 0 (InternalItems xs) st1))"

definition internal_move_first_to_end :: "page_num \<Rightarrow> page_num \<Rightarrow> tree_handler \<Rightarrow> RC \<times> tree_handler" where
  "internal_move_first_to_end p other st =
    (let (rc, st1) = internal_append other [internal_items (node_at st p) ! 0] st
     in if OB_FAIL rc then (rc, st1) else (rc, internal_remove p 0 st1))"

definition internal_move_last_to_front :: "page_num \<Rightarrow> page_num \<Rightarrow> tree_handler \<Rightarrow> RC \<times> tree_handler" where
  "internal_move_last_to_front p other st =
    (let n = node_size (node_at st p);
         item = internal_items (node_at st p) ! (n - 1);
         (rc, st1) = internal_preappend other item st
     in if OB_FAIL rc then (rc, st1)
        else (SUCCESS, node_remove_items p (n - 1) (InternalItems [item]) st1))"

end
