(* ===== verification/Bplus_Tree.thy ===== *)
theory Bplus_Tree
  imports Bplus_Node
begin

text \<open>
  Model of \<^verbatim>\<open>BplusTreeHandler\<close> (\<^verbatim>\<open>storage/index/bplus_tree.cpp\<close>): creation, search, insertion with node
  splits, deletion with merging and redistribution, and the validation routines.  The handler's
  key comparison is the argument \<open>cmp\<close>.

  Walks along child and parent links are loops without a bound in the source; they are partial
  functions returning \<open>None\<close> when the walk does not end, so a statement that an operation returns
  is a statement about these walks.  Latches and pins do not change the pages and are left out.
  A page outside the file cannot be fetched; a frame can always be obtained.
\<close>

section \<open>Pages and the header\<close>

definition FIRST_INDEX_PAGE :: page_num where "FIRST_INDEX_PAGE = 1"

text \<open>
  \<^verbatim>\<open>allocate_page\<close>: a page that extends the file is cleared, a page that was used before keeps its
  contents.
\<close>

definition tree_allocate_page :: "tree_handler \<Rightarrow> RC \<times> page_num option \<times> tree_handler" where
  "tree_allocate_page st =
    (case allocate_page (\<lambda>_. SUCCESS) (th_pool st) of
       (rc, None, bp) \<Rightarrow> (rc, None, st \<lparr> th_pool := bp \<rparr>)
     | (rc, Some i, bp) \<Rightarrow>
         (rc, Some (int i),
          st \<lparr> th_pool := bp,
               th_pages := (if th_pages st (int i) = None
                            then (th_pages st)(int i \<mapsto> InternalNode 0 []) else th_pages st) \<rparr>))"

definition tree_dispose_page :: "page_num \<Rightarrow> tree_handler \<Rightarrow> tree_handler" where
  "tree_dispose_page p st = st \<lparr> th_pool := snd (dispose_page (nat p) (th_pool st)) \<rparr>"

definition is_empty :: "tree_handler \<Rightarrow> bool" where
  "is_empty st \<longleftrightarrow> root_page (th_header st) = BP_INVALID_PAGE_NUM"

definition set_root_page :: "page_num \<Rightarrow> tree_handler \<Rightarrow> tree_handler" where
  "set_root_page q st =
    st \<lparr> th_header := (th_header st) \<lparr> root_page := q \<rparr>,
         th_header_page := (th_header_page st) \<lparr> root_page := q \<rparr> \<rparr>"

definition update_root_page_num_locked :: "page_num \<Rightarrow> tree_handler \<Rightarrow> tree_handler" where
  "update_root_page_num_locked q st =
    set_root_page q
      (append_log_entry (UPDATE_ROOT_PAGE q (root_page (th_header_page st))) st)"

text \<open>\<^verbatim>\<open>create\<close> on a new file; sizes below zero ask for the capacity of a page.\<close>

definition tree_create ::
  "disk_buffer_pool \<Rightarrow> AttrType \<Rightarrow> nat \<Rightarrow> int \<Rightarrow> int \<Rightarrow> RC \<times> tree_handler option" where
  "tree_create bp atype alen internal_max leaf_max =
    (let imax = (if internal_max < 0 then calc_internal_page_capacity alen else nat internal_max);
         lmax = (if leaf_max < 0 then calc_leaf_page_capacity alen else nat leaf_max)
     in case allocate_page (\<lambda>_. SUCCESS) bp of
          (rc, None, bp') \<Rightarrow> (rc, None)
        | (rc, Some i, bp') \<Rightarrow>
            if int i \<noteq> FIRST_INDEX_PAGE then (INTERNAL, None)
            else
              let h = \<lparr> root_page = BP_INVALID_PAGE_NUM, internal_max_size = imax,
                        leaf_max_size = lmax, attr_length = alen, key_length = alen + RID_SIZE,
                        attr_type = atype \<rparr>
              in (SUCCESS, Some \<lparr> th_pool = bp', th_pages = (\<lambda>_. None), th_header = h,
                                  th_header_page = h, th_log = [] \<rparr>))"

section \<open>Search\<close>

partial_function (option) descend ::
  "(index_node \<Rightarrow> page_num) \<Rightarrow> page_num \<Rightarrow> tree_handler \<Rightarrow> (RC \<times> page_num) option" where
  "descend child_page_getter p st =
    (case th_pages st p of
       None \<Rightarrow> Some (IOERR_READ, p)
     | Some n \<Rightarrow>
         if is_leaf n then Some (SUCCESS, p)
         else descend child_page_getter (child_page_getter n) st)"

definition find_leaf_internal ::
  "(index_node \<Rightarrow> page_num) \<Rightarrow> tree_handler \<Rightarrow> (RC \<times> page_num) option" where
  "find_leaf_internal child_page_getter st =
    (if is_empty st then Some (EMPTY, BP_INVALID_PAGE_NUM)
     else descend child_page_getter (root_page (th_header st)) st)"

definition find_leaf :: "(key \<Rightarrow> key \<Rightarrow> int) \<Rightarrow> key \<Rightarrow> tree_handler \<Rightarrow> (RC \<times> page_num) option" where
  "find_leaf cmp k st =
    find_leaf_internal (\<lambda>n. internal_value_at n (fst (internal_lookup cmp n k))) st"

definition left_most_page :: "tree_handler \<Rightarrow> (RC \<times> page_num) option" where
  "left_most_page st = find_leaf_internal (\<lambda>n. internal_value_at n 0) st"

section \<open>Insertion\<close>

definition split_leaf :: "page_num \<Rightarrow> tree_handler \<Rightarrow> RC \<times> page_num option \<times> tree_handler" where
  "split_leaf p st =
    (case tree_allocate_page st of
       (rc, None, st1) \<Rightarrow> (rc, None, st1)
     | (rc, Some q, st1) \<Rightarrow>
         (SUCCESS, Some q,
          leaf_move_half_to p q
            (set_parent_page_num q (node_parent (node_at st1 p)) (leaf_init_empty q st1))))"

definition split_internal :: "page_num \<Rightarrow> tree_handler \<Rightarrow> RC \<times> page_num option \<times> tree_handler" where
  "split_internal p st =
    (case tree_allocate_page st of
       (rc, None, st1) \<Rightarrow> (rc, None, st1)
     | (rc, Some q, st1) \<Rightarrow>
         (SUCCESS, Some q,
          snd (internal_move_half_to p q
            (set_parent_page_num q (node_parent (node_at st1 p)) (internal_init_empty q st1)))))"

partial_function (option) insert_entry_into_parent ::
  "(key \<Rightarrow> key \<Rightarrow> int) \<Rightarrow> page_num \<Rightarrow> page_num \<Rightarrow> key \<Rightarrow> tree_handler \<Rightarrow> (RC \<times> tree_handler) option" where
  "insert_entry_into_parent cmp frame new_frame k st =
    (let parent = node_parent (node_at st frame)
     in if parent = BP_INVALID_PAGE_NUM then
          (case tree_allocate_page st of
             (rc, None, st1) \<Rightarrow> Some (rc, st1)
           | (rc, Some r, st1) \<Rightarrow>
               (let st2 = create_new_root r frame k new_frame (internal_init_empty r st1);
                    st3 = set_parent_page_num new_frame r (set_parent_page_num frame r st2)
                in Some (SUCCESS, update_root_page_num_locked r st3)))
        else
          (case th_pages st parent of
             None \<Rightarrow> Some (IOERR_READ, st)
           | Some parent_node \<Rightarrow>
               if node_size parent_node < max_size (th_header st) parent_node then
                 Some (SUCCESS,
                   set_parent_page_num new_frame parent (internal_insert cmp parent k new_frame st))
               else
                 (case split_internal parent st of
                    (rc, None, st1) \<Rightarrow> Some (rc, st1)
                  | (rc, Some new_parent, st1) \<Rightarrow>
                      (let st2 =
                         (if cmp k (fst (internal_items (node_at st1 new_parent) ! 0)) > 0
                          then set_parent_page_num new_frame new_parent
                                 (internal_insert cmp new_parent k new_frame st1)
                          else set_parent_page_num new_frame parent
                                 (internal_insert cmp parent k new_frame st1))
                       in insert_entry_into_parent cmp parent new_parent
                            (fst (internal_items (node_at st2 new_parent) ! 0)) st2))))"

definition insert_entry_into_leaf_node ::
  "(key \<Rightarrow> key \<Rightarrow> int) \<Rightarrow> page_num \<Rightarrow> key \<Rightarrow> rid \<Rightarrow> tree_handler \<Rightarrow> (RC \<times> tree_handler) option" where
  "insert_entry_into_leaf_node cmp frame k r st =
    (let leaf_node = node_at st frame;
         (insert_position, exists) = leaf_lookup cmp leaf_node k
     in if exists then Some (RECORD_DUPLICATE_KEY, st)
        else if node_size leaf_node < max_size (th_header st) leaf_node then
          Some (SUCCESS, leaf_insert frame insert_position k r st)
        else
          (case split_leaf frame st of
             (rc, None, st1) \<Rightarrow> Some (rc, st1)
           | (rc, Some new_frame, st1) \<Rightarrow>
               (let st2 = set_next_page new_frame (next_brother (node_at st1 frame)) st1;
                    st3 = set_parent_page_num new_frame (node_parent (node_at st2 frame)) st2;
                    st4 = set_next_page frame new_frame st3;
                    left_size = node_size (node_at st4 frame);
                    st5 = (if insert_position < left_size
                           then leaf_insert frame insert_position k r st4
                           else leaf_insert new_frame (insert_position - left_size) k r st4)
                in insert_entry_into_parent cmp frame new_frame
                     (fst (leaf_items (node_at st5 new_frame) ! 0)) st5)))"

definition create_new_tree :: "key \<Rightarrow> rid \<Rightarrow> tree_handler \<Rightarrow> RC \<times> tree_handler" where
  "create_new_tree k r st =
    (if root_page (th_header st) \<noteq> BP_INVALID_PAGE_NUM then (INTERNAL, st)
     else
       case tree_allocate_page st of
         (rc, None, st1) \<Rightarrow> (rc, st1)
       | (rc, Some p, st1) \<Rightarrow>
           (rc, update_root_page_num_locked p (leaf_insert p 0 k r (leaf_init_empty p st1))))"

definition insert_entry ::
  "(key \<Rightarrow> key \<Rightarrow> int) \<Rightarrow> byte list \<Rightarrow> rid \<Rightarrow> tree_handler \<Rightarrow> (RC \<times> tree_handler) option" where
  "insert_entry cmp user_key r st =
    (let k = make_key (attr_length (th_header st)) user_key r
     in if is_empty st then Some (create_new_tree k r st)
        else
          Option.bind (find_leaf cmp k st) (\<lambda>(rc, frame).
            if OB_FAIL rc then Some (rc, st)
            else insert_entry_into_leaf_node cmp frame k r st))"

section \<open>Deletion\<close>

definition node_key_at :: "index_node \<Rightarrow> nat \<Rightarrow> key" where
  "node_key_at n i = (if is_leaf n then fst (leaf_items n ! i) else fst (internal_items n ! i))"

definition adjust_root :: "page_num \<Rightarrow> tree_handler \<Rightarrow> RC \<times> tree_handler" where
  "adjust_root root_frame st =
    (let root_node = node_at st root_frame
     in if is_leaf root_node \<and> node_size root_node > 0 then (SUCCESS, st)
        else if is_leaf root_node then
          (SUCCESS, tree_dispose_page root_frame
             (update_root_page_num_locked BP_INVALID_PAGE_NUM st))
        else
          let child = internal_value_at root_node 0
          in case th_pages st child of
               None \<Rightarrow> (IOERR_READ, st)
             | Some _ \<Rightarrow>
                 (SUCCESS, tree_dispose_page root_frame
                    (update_root_page_num_locked child
                      (set_parent_page_num child BP_INVALID_PAGE_NUM st))))"

definition coalesce ::
  "page_num \<Rightarrow> page_num \<Rightarrow> page_num \<Rightarrow> nat \<Rightarrow> tree_handler \<Rightarrow> RC \<times> tree_handler" where
  "coalesce neighbor_frame frame parent_frame index st =
    (let (left, right, idx) = (if index = 0 then (frame, neighbor_frame, index + 1)
                               else (neighbor_frame, frame, index));
         st1 = internal_remove parent_frame idx st;
         (rc, st2) = (if is_leaf (node_at st1 right) then (SUCCESS, leaf_move_to right left st1)
                      else internal_move_to right left st1)
     in if OB_FAIL rc then (rc, st2)
        else
          let st3 = (if is_leaf (node_at st2 left)
                     then set_next_page left (next_brother (node_at st2 right)) st2 else st2)
          in (SUCCESS, tree_dispose_page right st3))"

definition redistribute ::
  "page_num \<Rightarrow> page_num \<Rightarrow> page_num \<Rightarrow> nat \<Rightarrow> tree_handler \<Rightarrow> RC \<times> tree_handler" where
  "redistribute neighbor_frame frame parent_frame index st =
    (if index = 0 then
       let st1 = (if is_leaf (node_at st frame) then leaf_move_first_to_end neighbor_frame frame st
                  else snd (internal_move_first_to_end neighbor_frame frame st))
       in (SUCCESS, set_key_at parent_frame (index + 1) (node_key_at (node_at st1 neighbor_frame) 0) st1)
     else
       let st1 = (if is_leaf (node_at st frame) then leaf_move_last_to_front neighbor_frame frame st
                  else snd (internal_move_last_to_front neighbor_frame frame st))
       in (SUCCESS, set_key_at parent_frame index (node_key_at (node_at st1 frame) 0) st1))"

partial_function (option) coalesce_or_redistribute ::
  "(key \<Rightarrow> key \<Rightarrow> int) \<Rightarrow> page_num \<Rightarrow> tree_handler \<Rightarrow> (RC \<times> tree_handler) option" where
  "coalesce_or_redistribute cmp frame st =
    (let n = node_at st frame; h = th_header st
     in if node_size n \<ge> min_size h n then Some (SUCCESS, st)
        else if node_parent n = BP_INVALID_PAGE_NUM then
          if node_size n > 1 then Some (SUCCESS, st)
          else Some (SUCCESS, snd (adjust_root frame st))
        else
          (case th_pages st (node_parent n) of
             None \<Rightarrow> Some (IOERR_READ, st)
           | Some parent_node \<Rightarrow>
               (let index = fst (internal_lookup cmp parent_node (node_key_at n (node_size n - 1)));
                    neighbor = (if index = 0 then internal_value_at parent_node 1
                                else internal_value_at parent_node (index - 1))
                in if internal_value_at parent_node index \<noteq> frame then None
                   else case th_pages st neighbor of
                     None \<Rightarrow> Some (IOERR_READ, st)
                   | Some neighbor_node \<Rightarrow>
                       if node_size n + node_size neighbor_node > max_size h n then
                         Some (redistribute neighbor frame (node_parent n) index st)
                       else
                         (case coalesce neighbor frame (node_parent n) index st of
                            (rc, st1) \<Rightarrow>
                              if OB_FAIL rc then Some (rc, st1)
                              else coalesce_or_redistribute cmp (node_parent n) st1))))"

definition delete_entry_internal ::
  "(key \<Rightarrow> key \<Rightarrow> int) \<Rightarrow> page_num \<Rightarrow> key \<Rightarrow> tree_handler \<Rightarrow> (RC \<times> tree_handler) option" where
  "delete_entry_internal cmp leaf_frame k st =
    (let (remove_count, st1) = leaf_remove_key cmp leaf_frame k st;
         n = node_at st1 leaf_frame
     in if remove_count = 0 then Some (RECORD_NOT_EXIST, st1)
        else if node_size n \<ge> min_size (th_header st1) n then Some (SUCCESS, st1)
        else coalesce_or_redistribute cmp leaf_frame st1)"

definition delete_entry ::
  "(key \<Rightarrow> key \<Rightarrow> int) \<Rightarrow> byte list \<Rightarrow> rid \<Rightarrow> tree_handler \<Rightarrow> (RC \<times> tree_handler) option" where
  "delete_entry cmp user_key r st =
    (let k = make_key (attr_length (th_header st)) user_key r
     in Option.bind (find_leaf cmp k st) (\<lambda>(rc, leaf_frame).
          if rc = EMPTY then Some (RECORD_NOT_EXIST, st)
          else if OB_FAIL rc then Some (rc, st)
          else delete_entry_internal cmp leaf_frame k st))"

end
