(* ===== verification/Bplus_Inv.thy ===== *)
theory Bplus_Inv
  imports Bplus_Tree "HOL-Library.Multiset"
begin

text \<open>
  The B+ tree stored in the pages of an index file, as a tree value, and what makes it a B+ tree.
  A \<open>gtree\<close> carries the page numbers and the leaf links; \<open>flat\<close> lists the pages it occupies with
  their contents, including the parent links.  A \<open>ctx\<close> is a path from a node up to the root with
  the siblings along it: insertion and deletion walk up such a path.
\<close>

section \<open>Trees with page numbers\<close>

datatype gtree =
  GLeaf page_num page_num "(key \<times> rid) list"
| GNode page_num "(key \<times> gtree) list"

lemma size_snd_children [termination_simp]:
  "x \<in> set cs \<Longrightarrow> size (snd x) < Suc (size_list (size_prod (\<lambda>_. 0) size) cs)"
  by (rule less_SucI, rule size_list_estimation) (auto simp: size_prod_simp)

lemma gtree_induct [case_names GLeaf GNode]:
  assumes "\<And>p nx xs. P (GLeaf p nx xs)"
    and "\<And>p cs. (\<And>x. x \<in> set cs \<Longrightarrow> P (snd x)) \<Longrightarrow> P (GNode p cs)"
  shows "P t"
proof (induction t)
  case (GNode p cs)
  then show ?case by (intro assms(2)) (auto simp: snds.simps)
qed (rule assms(1))

fun gpage :: "gtree \<Rightarrow> page_num" where
  "gpage (GLeaf p nx xs) = p"
| "gpage (GNode p cs) = p"

abbreviation gitem :: "key \<times> gtree \<Rightarrow> key \<times> page_num" where
  "gitem x \<equiv> (fst x, gpage (snd x))"

fun root_node :: "page_num \<Rightarrow> gtree \<Rightarrow> index_node" where
  "root_node par (GLeaf p nx xs) = LeafNode par nx xs"
| "root_node par (GNode p cs) = InternalNode par (map gitem cs)"

fun below :: "gtree \<Rightarrow> (page_num \<times> index_node) list" where
  "below (GLeaf p nx xs) = []"
| "below (GNode p cs) =
     concat (map (\<lambda>x. (gpage (snd x), root_node p (snd x)) # below (snd x)) cs)"

definition flat :: "page_num \<Rightarrow> gtree \<Rightarrow> (page_num \<times> index_node) list" where
  "flat par t = (gpage t, root_node par t) # below t"

definition flats :: "page_num \<Rightarrow> (key \<times> gtree) list \<Rightarrow> (page_num \<times> index_node) list" where
  "flats p cs = concat (map (\<lambda>x. flat p (snd x)) cs)"

definition gpages :: "gtree \<Rightarrow> page_num list" where
  "gpages t = gpage t # map fst (below t)"

definition gpagess :: "(key \<times> gtree) list \<Rightarrow> page_num list" where
  "gpagess cs = concat (map (\<lambda>x. gpages (snd x)) cs)"

fun gentries :: "gtree \<Rightarrow> (key \<times> rid) list" where
  "gentries (GLeaf p nx xs) = xs"
| "gentries (GNode p cs) = concat (map (\<lambda>x. gentries (snd x)) cs)"

fun gleaves :: "gtree \<Rightarrow> (page_num \<times> page_num) list" where
  "gleaves (GLeaf p nx xs) = [(p, nx)]"
| "gleaves (GNode p cs) = concat (map (\<lambda>x. gleaves (snd x)) cs)"

abbreviation gentriess :: "(key \<times> gtree) list \<Rightarrow> (key \<times> rid) list" where
  "gentriess cs \<equiv> concat (map (\<lambda>x. gentries (snd x)) cs)"

abbreviation gleavess :: "(key \<times> gtree) list \<Rightarrow> (page_num \<times> page_num) list" where
  "gleavess cs \<equiv> concat (map (\<lambda>x. gleaves (snd x)) cs)"

text \<open>The leaf links lead from each leaf to the next and from the last one to \<open>e\<close>.\<close>

definition chained :: "(page_num \<times> page_num) list \<Rightarrow> page_num \<Rightarrow> bool" where
  "chained ls e \<longleftrightarrow> map snd ls = tl (map fst ls @ [e])"

lemma below_GNode: "below (GNode p cs) = flats p cs"
  by (simp add: flats_def flat_def)

lemma flats_simps [simp]:
  "flats p [] = []" "flats p (x # cs) = flat p (snd x) @ flats p cs"
  "flats p (cs @ ds) = flats p cs @ flats p ds"
  by (simp_all add: flats_def)

lemma gpagess_simps [simp]:
  "gpagess [] = []" "gpagess (x # cs) = gpages (snd x) @ gpagess cs"
  "gpagess (cs @ ds) = gpagess cs @ gpagess ds"
  by (simp_all add: gpagess_def)

lemma fst_flat: "map fst (flat par t) = gpages t"
  by (simp add: flat_def gpages_def)

lemma fst_flats: "map fst (flats p cs) = gpagess cs"
  by (simp add: flats_def gpagess_def map_concat comp_def fst_flat)

lemma gpages_simps [simp]:
  "gpages (GLeaf p nx xs) = [p]" "gpages (GNode p cs) = p # gpagess cs"
  by (simp_all add: gpages_def below_GNode fst_flats del: below.simps(2))

lemma flat_simps [simp]:
  "flat par (GLeaf p nx xs) = [(p, LeafNode par nx xs)]"
  "flat par (GNode p cs) = (p, InternalNode par (map gitem cs)) # flats p cs"
  by (simp_all add: flat_def below_GNode del: below.simps(2))

lemma gpage_in_gpages [simp]: "gpage t \<in> set (gpages t)"
  by (simp add: gpages_def)

lemma flat_pages: "(p, n) \<in> set (flat par t) \<Longrightarrow> p \<in> set (gpages t)"
  by (metis fst_conv fst_flat image_eqI list.set_map)

lemma flats_pages: "(p, n) \<in> set (flats q cs) \<Longrightarrow> p \<in> set (gpagess cs)"
  by (metis fst_conv fst_flats image_eqI list.set_map)

lemma chained_append:
  "chained (xs @ ys) e \<longleftrightarrow> chained xs (hd (map fst ys @ [e])) \<and> chained ys e"
proof (induction xs)
  case Nil
  then show ?case by (simp add: chained_def)
next
  case (Cons x xs)
  then show ?case by (cases xs; cases ys) (auto simp: chained_def)
qed

lemma chained_single [simp]: "chained [x] e \<longleftrightarrow> snd x = e"
  by (simp add: chained_def)

lemma chained_Nil [simp]: "chained [] e"
  by (simp add: chained_def)

section \<open>Order\<close>

definition at_least :: "(key \<Rightarrow> key \<Rightarrow> int) \<Rightarrow> key option \<Rightarrow> key \<Rightarrow> bool" where
  "at_least cmp lo k = (case lo of None \<Rightarrow> True | Some l \<Rightarrow> cmp l k \<le> 0)"

definition strictly_above :: "(key \<Rightarrow> key \<Rightarrow> int) \<Rightarrow> key option \<Rightarrow> key \<Rightarrow> bool" where
  "strictly_above cmp lo k = (case lo of None \<Rightarrow> True | Some l \<Rightarrow> cmp l k < 0)"

definition strictly_below :: "(key \<Rightarrow> key \<Rightarrow> int) \<Rightarrow> key option \<Rightarrow> key \<Rightarrow> bool" where
  "strictly_below cmp hi k = (case hi of None \<Rightarrow> True | Some h \<Rightarrow> cmp k h < 0)"

text \<open>
  The children of a node with their separators: the first key is not used as a separator, every
  other key bounds its child from below and the child before it from above.
\<close>

fun ordc :: "(key \<Rightarrow> key \<Rightarrow> int) \<Rightarrow> (key option \<Rightarrow> key option \<Rightarrow> 'c \<Rightarrow> bool) \<Rightarrow>
    key option \<Rightarrow> key option \<Rightarrow> (key \<times> 'c) list \<Rightarrow> bool" where
  "ordc cmp P lo hi [] \<longleftrightarrow> False"
| "ordc cmp P lo hi [x] \<longleftrightarrow> P lo hi (snd x)"
| "ordc cmp P lo hi (x # y # cs) \<longleftrightarrow>
     P lo (Some (fst y)) (snd x) \<and> strictly_above cmp lo (fst y) \<and> strictly_below cmp hi (fst y) \<and>
     ordc cmp P (Some (fst y)) hi (y # cs)"

lemma ordc_cong [fundef_cong]:
  assumes "cmp = cmp'" "lo = lo'" "hi = hi'" "cs = cs'"
    and "\<And>l h x. x \<in> set cs' \<Longrightarrow> P l h (snd x) = Q l h (snd x)"
  shows "ordc cmp P lo hi cs = ordc cmp' Q lo' hi' cs'"
proof -
  have "ordc cmp P lo hi cs = ordc cmp Q lo hi cs" if "\<And>l h x. x \<in> set cs \<Longrightarrow> P l h (snd x) = Q l h (snd x)"
    using that by (induction cmp P lo hi cs rule: ordc.induct) auto
  with assms show ?thesis by simp
qed

text \<open>The first key of a node repeats the separator it is reached through, if there is one.\<close>

definition first_key_ok :: "key option \<Rightarrow> (key \<times> 'c) list \<Rightarrow> bool" where
  "first_key_ok lo cs = (case lo of None \<Rightarrow> True | Some l \<Rightarrow> fst (hd cs) = l)"

fun gord :: "(key \<Rightarrow> key \<Rightarrow> int) \<Rightarrow> key option \<Rightarrow> key option \<Rightarrow> gtree \<Rightarrow> bool" where
  "gord cmp lo hi (GLeaf p nx xs) \<longleftrightarrow>
     sorted_wrt (\<lambda>x y. cmp (fst x) (fst y) < 0) xs \<and>
     (\<forall>x\<in>set xs. at_least cmp lo (fst x) \<and> strictly_below cmp hi (fst x))"
| "gord cmp lo hi (GNode p cs) \<longleftrightarrow>
     first_key_ok lo cs \<and> ordc cmp (\<lambda>l h c. gord cmp l h c) lo hi cs"

section \<open>Shape\<close>

text \<open>All leaves at the same depth, node sizes between the given bounds.\<close>

fun gshape :: "nat \<Rightarrow> nat \<Rightarrow> nat \<Rightarrow> nat \<Rightarrow> nat \<Rightarrow> gtree \<Rightarrow> bool" where
  "gshape lmin lmax imin imax d (GLeaf p nx xs) \<longleftrightarrow> d = 0 \<and> lmin \<le> length xs \<and> length xs \<le> lmax"
| "gshape lmin lmax imin imax d (GNode p cs) \<longleftrightarrow>
     (\<exists>e. d = Suc e \<and> imin \<le> length cs \<and> length cs \<le> imax \<and>
       (\<forall>x\<in>set cs. gshape lmin lmax imin imax e (snd x)))"

text \<open>The root may be smaller: a leaf with one entry, or two children.\<close>

fun gshape_root :: "nat \<Rightarrow> nat \<Rightarrow> nat \<Rightarrow> nat \<Rightarrow> nat \<Rightarrow> gtree \<Rightarrow> bool" where
  "gshape_root lmin lmax imin imax d (GLeaf p nx xs) \<longleftrightarrow> d = 0 \<and> 1 \<le> length xs \<and> length xs \<le> lmax"
| "gshape_root lmin lmax imin imax d (GNode p cs) \<longleftrightarrow>
     (\<exists>e. d = Suc e \<and> 2 \<le> length cs \<and> length cs \<le> imax \<and>
       (\<forall>x\<in>set cs. gshape lmin lmax imin imax e (snd x)))"

section \<open>Paths to the root\<close>

type_synonym ctx = "(page_num \<times> (key \<times> gtree) list \<times> key \<times> (key \<times> gtree) list) list"

fun plug :: "ctx \<Rightarrow> gtree \<Rightarrow> gtree" where
  "plug [] t = t"
| "plug ((p, ls, k, rs) # ctx) t = plug ctx (GNode p (ls @ (k, t) # rs))"

fun hpar :: "ctx \<Rightarrow> page_num" where
  "hpar [] = BP_INVALID_PAGE_NUM"
| "hpar ((p, ls, k, rs) # ctx) = p"

text \<open>Bounds of the keys at the end of the path, from the separators next to it.\<close>

definition nlo :: "key option \<Rightarrow> (key \<times> 'c) list \<Rightarrow> key \<Rightarrow> key option" where
  "nlo lo ls k = (if ls = [] then lo else Some k)"

definition nhi :: "key option \<Rightarrow> (key \<times> 'c) list \<Rightarrow> key option" where
  "nhi hi rs = (case rs of [] \<Rightarrow> hi | y # _ \<Rightarrow> Some (fst y))"

fun hlo :: "ctx \<Rightarrow> key option" where
  "hlo [] = None"
| "hlo ((p, ls, k, rs) # ctx) = nlo (hlo ctx) ls k"

fun hhi :: "ctx \<Rightarrow> key option" where
  "hhi [] = None"
| "hhi ((p, ls, k, rs) # ctx) = nhi (hhi ctx) rs"

text \<open>The pages, entries and leaves beside the path.\<close>

fun cflat :: "ctx \<Rightarrow> page_num \<Rightarrow> (page_num \<times> index_node) list" where
  "cflat [] q = []"
| "cflat ((p, ls, k, rs) # ctx) q =
     (p, InternalNode (hpar ctx) (map gitem ls @ (k, q) # map gitem rs)) #
     flats p ls @ flats p rs @ cflat ctx p"

fun cpages :: "ctx \<Rightarrow> page_num list" where
  "cpages [] = []"
| "cpages ((p, ls, k, rs) # ctx) = p # gpagess ls @ gpagess rs @ cpages ctx"

fun cleft :: "(key \<times> gtree \<Rightarrow> 'b list) \<Rightarrow> ctx \<Rightarrow> 'b list" where
  "cleft f [] = []"
| "cleft f ((p, ls, k, rs) # ctx) = cleft f ctx @ concat (map f ls)"

fun cright :: "(key \<times> gtree \<Rightarrow> 'b list) \<Rightarrow> ctx \<Rightarrow> 'b list" where
  "cright f [] = []"
| "cright f ((p, ls, k, rs) # ctx) = concat (map f rs) @ cright f ctx"

abbreviation entries_left :: "ctx \<Rightarrow> (key \<times> rid) list" where
  "entries_left \<equiv> cleft (\<lambda>x. gentries (snd x))"
abbreviation entries_right :: "ctx \<Rightarrow> (key \<times> rid) list" where
  "entries_right \<equiv> cright (\<lambda>x. gentries (snd x))"
abbreviation leaves_left :: "ctx \<Rightarrow> (page_num \<times> page_num) list" where
  "leaves_left \<equiv> cleft (\<lambda>x. gleaves (snd x))"
abbreviation leaves_right :: "ctx \<Rightarrow> (page_num \<times> page_num) list" where
  "leaves_right \<equiv> cright (\<lambda>x. gleaves (snd x))"

lemma flat_plug:
  "set (flat BP_INVALID_PAGE_NUM (plug ctx t)) = set (flat (hpar ctx) t) \<union> set (cflat ctx (gpage t))"
proof (induction ctx t rule: plug.induct)
  case (2 p ls k rs ctx t)
  then show ?case by auto
qed simp

lemma gpages_plug: "mset (gpages (plug ctx t)) = mset (gpages t @ cpages ctx)"
  by (induction ctx t rule: plug.induct) auto

lemma distinct_plug: "distinct (gpages (plug ctx t)) \<longleftrightarrow> distinct (gpages t @ cpages ctx)"
  using mset_eq_imp_distinct_iff [OF gpages_plug] .

lemma set_gpages_plug: "set (gpages (plug ctx t)) = set (gpages t) \<union> set (cpages ctx)"
  using mset_eq_setD [OF gpages_plug] by simp

lemma gentries_plug: "gentries (plug ctx t) = entries_left ctx @ gentries t @ entries_right ctx"
  by (induction ctx t rule: plug.induct) auto

lemma gleaves_plug: "gleaves (plug ctx t) = leaves_left ctx @ gleaves t @ leaves_right ctx"
  by (induction ctx t rule: plug.induct) auto

lemma cflat_pages: "(p, n) \<in> set (cflat ctx q) \<Longrightarrow> p \<in> set (cpages ctx)"
  by (induction ctx q rule: cflat.induct) (auto dest: flats_pages)

section \<open>Order along a path\<close>

locale index_order = key_order cmp
  for cmp :: "key \<Rightarrow> key \<Rightarrow> int"
begin

lemma strictly_above_trans: "strictly_above cmp lo k \<Longrightarrow> cmp k k' < 0 \<Longrightarrow> strictly_above cmp lo k'"
  by (cases lo) (auto simp: strictly_above_def intro: lt_trans [unfolded lt_def])

lemma strictly_below_trans: "strictly_below cmp hi k \<Longrightarrow> cmp k' k < 0 \<Longrightarrow> strictly_below cmp hi k'"
  by (cases hi) (auto simp: strictly_below_def intro: lt_trans [unfolded lt_def])

lemma ordc_split:
  "xs \<noteq> [] \<Longrightarrow> ordc cmp P lo hi (xs @ y # ys) \<longleftrightarrow>
     ordc cmp P lo (Some (fst y)) xs \<and> strictly_above cmp lo (fst y) \<and> strictly_below cmp hi (fst y) \<and>
     ordc cmp P (Some (fst y)) hi (y # ys)"
proof (induction xs arbitrary: lo)
  case (Cons x xs)
  show ?case
  proof (cases xs)
    case Nil
    then show ?thesis by simp
  next
    case (Cons x' xs')
    then have IH: "ordc cmp P (Some (fst x')) hi (xs @ y # ys) \<longleftrightarrow>
        ordc cmp P (Some (fst x')) (Some (fst y)) xs \<and> cmp (fst x') (fst y) < 0 \<and>
        strictly_below cmp hi (fst y) \<and> ordc cmp P (Some (fst y)) hi (y # ys)"
      using Cons.IH [of "Some (fst x')"] by (simp add: strictly_above_def)
    with Cons show ?thesis
      by (auto simp: strictly_below_def [of cmp "Some _"] intro: strictly_above_trans strictly_below_trans)
  qed
qed simp

lemma ordc_hole:
  assumes "ordc cmp P lo hi (ls @ (k, c) # rs)"
  shows "P (nlo lo ls k) (nhi hi rs) c"
proof -
  have first: "P l hi c" if "rs = []" "ordc cmp P l hi ((k, c) # rs)" for l using that by simp
  have "P l (nhi hi rs) c" if "ordc cmp P l hi ((k, c) # rs)" for l
    using that by (cases rs) (simp_all add: nhi_def)
  with assms show ?thesis by (cases "ls = []") (auto simp: nlo_def ordc_split)
qed

lemma ordc_replace_first:
  "ordc cmp P lo hi ((k, c) # rs) \<Longrightarrow> P lo (nhi hi rs) c' \<Longrightarrow> ordc cmp P lo hi ((k', c') # rs)"
  by (cases rs) (simp_all add: nhi_def)

lemma ordc_replace:
  assumes "ordc cmp P lo hi (ls @ (k, c) # rs)" "P (nlo lo ls k) (nhi hi rs) c'"
  shows "ordc cmp P lo hi (ls @ (k, c') # rs)"
  using assms by (cases "ls = []") (auto simp: nlo_def ordc_split intro: ordc_replace_first)

lemma ordc_replace2_first:
  assumes "ordc cmp P lo hi ((k0, c) # rs)" "P lo (Some k) c1" "P (Some k) (nhi hi rs) c2"
    "strictly_above cmp lo k" "strictly_below cmp (nhi hi rs) k"
  shows "ordc cmp P lo hi ((k0', c1) # (k, c2) # rs)"
proof (cases rs)
  case Nil
  with assms show ?thesis by (simp add: nhi_def)
next
  case (Cons y ys)
  with assms have "cmp k (fst y) < 0" by (simp add: nhi_def strictly_below_def)
  with Cons assms show ?thesis
    by (auto simp: nhi_def strictly_above_def [of cmp "Some _"] intro: strictly_below_trans)
qed

lemma ordc_replace2:
  assumes "ordc cmp P lo hi (ls @ (k0, c) # rs)" "P (nlo lo ls k0) (Some k) c1"
    "P (Some k) (nhi hi rs) c2" "strictly_above cmp (nlo lo ls k0) k" "strictly_below cmp (nhi hi rs) k"
  shows "ordc cmp P lo hi (ls @ (k0, c1) # (k, c2) # rs)"
proof (cases "ls = []")
  case True
  with ordc_replace2_first [of P lo hi k0 c rs k c1 c2 k0] assms
  show ?thesis by (simp add: nlo_def)
next
  case False
  with ordc_replace2_first [of P "Some k0" hi k0 c rs k c1 c2 k0] assms
  show ?thesis by (simp add: nlo_def ordc_split)
qed

lemma gord_hole: "gord cmp None None (plug ctx t) \<Longrightarrow> gord cmp (hlo ctx) (hhi ctx) t"
proof (induction ctx t rule: plug.induct)
  case (2 p ls k rs ctx t)
  then show ?case using ordc_hole [of "gord cmp"] by simp
qed simp

lemma first_key_replace:
  "first_key_ok lo (ls @ (k, c) # rs) \<Longrightarrow> first_key_ok lo (ls @ (k, c') # rs')"
  by (cases ls) (auto simp: first_key_ok_def split: option.splits)

lemma gord_replace:
  "gord cmp None None (plug ctx t) \<Longrightarrow> gord cmp (hlo ctx) (hhi ctx) t' \<Longrightarrow>
   gord cmp None None (plug ctx t')"
proof (induction ctx t arbitrary: t' rule: plug.induct)
  case (2 p ls k rs ctx t)
  have node: "gord cmp (hlo ctx) (hhi ctx) (GNode p (ls @ (k, t) # rs))"
    by (rule gord_hole) (use 2(2) in simp)
  have "gord cmp (hlo ctx) (hhi ctx) (GNode p (ls @ (k, t') # rs))"
    using node 2(3) by (auto intro: ordc_replace first_key_replace)
  with 2(1,2) show ?case by simp
qed simp

lemma ordc_separators:
  "ordc cmp P lo hi cs \<Longrightarrow>
   sorted_wrt (\<lambda>x y. cmp (fst x) (fst y) < 0) (tl cs) \<and>
   (\<forall>x\<in>set (tl cs). strictly_above cmp lo (fst x) \<and> strictly_below cmp hi (fst x))"
proof (induction cs arbitrary: lo)
  case (Cons x cs)
  show ?case
  proof (cases cs)
    case (Cons y ys)
    with Cons.IH [of "Some (fst y)"] Cons.prems show ?thesis
      by (auto simp: strictly_above_def [of cmp "Some _"] intro: strictly_above_trans)
  qed simp
qed simp

lemma ordc_nonempty: "ordc cmp P lo hi cs \<Longrightarrow> cs \<noteq> []"
  by auto

lemma at_least_strict: "strictly_above cmp lo k \<Longrightarrow> at_least cmp lo k"
  by (auto simp: strictly_above_def at_least_def split: option.splits)

lemma above_trans: "strictly_above cmp lo k \<Longrightarrow> cmp k k' \<le> 0 \<Longrightarrow> strictly_above cmp lo k'"
  by (cases lo) (auto simp: strictly_above_def intro: lt_le_trans [unfolded lt_def le_def])

lemma above_less_trans: "at_least cmp lo k \<Longrightarrow> cmp k k' < 0 \<Longrightarrow> strictly_above cmp lo k'"
  by (cases lo) (auto simp: strictly_above_def at_least_def intro: le_lt_trans [unfolded lt_def le_def])

lemma below_trans: "strictly_below cmp hi k \<Longrightarrow> cmp k' k \<le> 0 \<Longrightarrow> strictly_below cmp hi k'"
  by (cases hi) (auto simp: strictly_below_def intro: le_lt_trans [unfolded lt_def le_def])

text \<open>Entries of an ordered tree are sorted and lie within the bounds.\<close>

lemma ordc_entries:
  assumes "\<And>l h x. x \<in> set cs \<Longrightarrow> gord cmp l h (snd x) \<Longrightarrow>
      sorted_wrt (\<lambda>x y. cmp (fst x) (fst y) < 0) (gentries (snd x)) \<and>
      (\<forall>e\<in>set (gentries (snd x)). at_least cmp l (fst e) \<and> strictly_below cmp h (fst e))"
    and "ordc cmp (gord cmp) lo hi cs"
  shows "sorted_wrt (\<lambda>x y. cmp (fst x) (fst y) < 0) (gentriess cs) \<and>
    (\<forall>e\<in>set (gentriess cs). at_least cmp lo (fst e) \<and> strictly_below cmp hi (fst e))"
  using assms
proof (induction cs arbitrary: lo)
  case (Cons x cs)
  show ?case
  proof (cases cs)
    case Nil
    with Cons.prems show ?thesis by simp
  next
    case (Cons y ys)
    let ?k = "fst y"
    from Cons Cons.prems(2) have ord: "gord cmp lo (Some ?k) (snd x)" "strictly_above cmp lo ?k"
      "strictly_below cmp hi ?k" "ordc cmp (gord cmp) (Some ?k) hi cs" by simp_all
    have first: "sorted_wrt (\<lambda>x y. cmp (fst x) (fst y) < 0) (gentries (snd x))"
      "\<And>e. e \<in> set (gentries (snd x)) \<Longrightarrow> at_least cmp lo (fst e) \<and> cmp (fst e) ?k < 0"
      using Cons.prems(1) [OF _ ord(1)] by (auto simp: strictly_below_def)
    have rest: "sorted_wrt (\<lambda>x y. cmp (fst x) (fst y) < 0) (gentriess cs)"
      "\<And>e. e \<in> set (gentriess cs) \<Longrightarrow> cmp ?k (fst e) \<le> 0 \<and> strictly_below cmp hi (fst e)"
      using Cons.IH [OF Cons.prems(1) ord(4)] by (auto simp: at_least_def)
    have "cmp (fst e) (fst e') < 0" if "e \<in> set (gentries (snd x))" "e' \<in> set (gentriess cs)" for e e'
      using lt_le_trans [of "fst e" ?k "fst e'"] first(2) [OF that(1)] rest(2) [OF that(2)]
      by (auto simp: lt_def le_def)
    moreover have "strictly_below cmp hi (fst e)" if "e \<in> set (gentries (snd x))" for e
      using strictly_below_trans [OF ord(3)] first(2) [OF that] by blast
    moreover have "at_least cmp lo (fst e)" if "e \<in> set (gentriess cs)" for e
      using at_least_strict [OF above_trans [OF ord(2)]] rest(2) [OF that] by blast
    ultimately show ?thesis using first rest
      unfolding list.map concat.simps sorted_wrt_append set_append ball_Un by blast
  qed
qed simp

lemma gord_entries:
  "gord cmp lo hi t \<Longrightarrow>
   sorted_wrt (\<lambda>x y. cmp (fst x) (fst y) < 0) (gentries t) \<and>
   (\<forall>e\<in>set (gentries t). at_least cmp lo (fst e) \<and> strictly_below cmp hi (fst e))"
proof (induction t arbitrary: lo hi rule: gtree_induct)
  case (GNode p cs)
  then show ?case using ordc_entries [of cs lo hi] by simp
qed simp

end

section \<open>The index file represents a sorted list of entries\<close>

definition stored :: "(page_num \<Rightarrow> index_node option) \<Rightarrow> (page_num \<times> index_node) list \<Rightarrow> bool" where
  "stored P F \<longleftrightarrow> (\<forall>x\<in>set F. P (fst x) = Some (snd x))"

definition pool_ok :: "tree_handler \<Rightarrow> page_num list \<Rightarrow> bool" where
  "pool_ok st ps \<longleftrightarrow> bp_wf (th_pool st) \<and> 1 \<in> live_pages (th_pool st) \<and>
     distinct ps \<and> (\<forall>p\<in>set ps. 1 < p \<and> nat p \<in> live_pages (th_pool st))"

definition sizes_ok :: "index_file_header \<Rightarrow> bool" where
  "sizes_ok h \<longleftrightarrow> 2 \<le> leaf_max_size h \<and> 2 \<le> internal_max_size h"

abbreviation node_shape :: "index_file_header \<Rightarrow> nat \<Rightarrow> gtree \<Rightarrow> bool" where
  "node_shape h \<equiv> gshape (leaf_max_size h div 2) (leaf_max_size h)
     (internal_max_size h div 2) (internal_max_size h)"

abbreviation root_shape :: "index_file_header \<Rightarrow> nat \<Rightarrow> gtree \<Rightarrow> bool" where
  "root_shape h \<equiv> gshape_root (leaf_max_size h div 2) (leaf_max_size h)
     (internal_max_size h div 2) (internal_max_size h)"

definition tree_inv :: "(key \<Rightarrow> key \<Rightarrow> int) \<Rightarrow> tree_handler \<Rightarrow> gtree \<Rightarrow> bool" where
  "tree_inv cmp st t \<longleftrightarrow>
     sizes_ok (th_header st) \<and> root_page (th_header st) = gpage t \<and>
     pool_ok st (gpages t) \<and> stored (th_pages st) (flat BP_INVALID_PAGE_NUM t) \<and>
     gord cmp None None t \<and> chained (gleaves t) BP_INVALID_PAGE_NUM \<and>
     (\<exists>d. root_shape (th_header st) d t)"

text \<open>\<open>es\<close> are the entries of the index in key order; an empty index has no root page.\<close>

definition index_rep :: "(key \<Rightarrow> key \<Rightarrow> int) \<Rightarrow> tree_handler \<Rightarrow> (key \<times> rid) list \<Rightarrow> bool" where
  "index_rep cmp st es \<longleftrightarrow>
     (if es = [] then sizes_ok (th_header st) \<and> root_page (th_header st) = BP_INVALID_PAGE_NUM \<and> pool_ok st []
      else \<exists>t. tree_inv cmp st t \<and> gentries t = es)"

lemma stored_simps [simp]:
  "stored P []" "stored P (x # F) \<longleftrightarrow> P (fst x) = Some (snd x) \<and> stored P F"
  "stored P (F @ G) \<longleftrightarrow> stored P F \<and> stored P G"
  by (auto simp: stored_def)

lemma stored_fun_upd: "p \<notin> set (map fst F) \<Longrightarrow> stored (P(p := v)) F = stored P F"
  by (auto simp: stored_def image_iff)

lemma stored_cong: "(\<And>p. p \<in> set (map fst F) \<Longrightarrow> P p = Q p) \<Longrightarrow> stored P F = stored Q F"
  by (simp add: stored_def)

lemma stored_flat_plug:
  "stored P (flat BP_INVALID_PAGE_NUM (plug ctx t)) \<longleftrightarrow>
   stored P (flat (hpar ctx) t) \<and> stored P (cflat ctx (gpage t))"
  unfolding stored_def flat_plug by blast

lemma stored_root: "stored P (flat par t) \<Longrightarrow> P (gpage t) = Some (root_node par t)"
  by (simp add: flat_def)

lemma fst_cflat: "map fst (cflat ctx q) = cpages ctx"
  by (induction ctx q rule: cflat.induct) (simp_all add: fst_flats)

lemma gentries_nonempty: "gshape_root lmin lmax imin imax d t \<Longrightarrow> 1 \<le> lmin \<Longrightarrow> 1 \<le> imin \<Longrightarrow> gentries t \<noteq> []"
proof -
  have inner: "gshape lmin lmax imin imax d t \<Longrightarrow> 1 \<le> lmin \<Longrightarrow> 1 \<le> imin \<Longrightarrow> gentries t \<noteq> []" for d t
  proof (induction t arbitrary: d rule: gtree_induct)
    case (GNode p cs)
    then show ?case by (cases cs) fastforce+
  qed auto
  assume "gshape_root lmin lmax imin imax d t" "1 \<le> lmin" "1 \<le> imin"
  then show "gentries t \<noteq> []"
  proof (cases t)
    case (GNode p cs)
    with \<open>gshape_root lmin lmax imin imax d t\<close> obtain x cs' e where
      "cs = x # cs'" "gshape lmin lmax imin imax e (snd x)" by (cases cs) auto
    with inner [of e "snd x"] GNode \<open>1 \<le> lmin\<close> \<open>1 \<le> imin\<close> show ?thesis by simp
  qed auto
qed

end
