(* ===== verification/Bplus_Search.thy ===== *)
theory Bplus_Search
  imports Bplus_Inv
begin

text \<open>
  Correctness of the lookups in nodes and of the walk from the root to a leaf: the walk ends, at
  the one leaf whose key range contains the key.
\<close>

context index_order
begin

section \<open>Lookup in a node\<close>

lemma leaf_lookup_rank:
  assumes "sorted_wrt (\<lambda>x y. cmp (fst x) (fst y) < 0) xs"
  shows "leaf_lookup cmp (LeafNode par nx xs) k =
    (rank (\<lambda>it. cmp (fst it)) k xs, \<exists>x\<in>set xs. cmp (fst x) k = 0)"
  using lower_bound_sorted [of fst xs k] assms by (simp add: leaf_lookup_def lt_def)

text \<open>The position of a new key in a sorted list of items splits the list.\<close>

lemma rank_split:
  assumes "sorted_wrt (\<lambda>x y. cmp (fst x) (fst y) < 0) xs" "\<forall>x\<in>set xs. cmp (fst x) k \<noteq> 0"
  shows "\<forall>x\<in>set (take (rank (\<lambda>it. cmp (fst it)) k xs) xs). cmp (fst x) k < 0"
    "\<forall>x\<in>set (drop (rank (\<lambda>it. cmp (fst it)) k xs) xs). cmp k (fst x) < 0"
proof -
  let ?r = "rank (\<lambda>it. cmp (fst it)) k xs"
  have sf: "sorted_for (\<lambda>it. cmp (fst it)) k xs"
    using sorted_imp_sorted_for [of fst xs k] assms(1) by (simp add: lt_def)
  show "\<forall>x\<in>set (take ?r xs). cmp (fst x) k < 0"
    using below_rank [of _ "\<lambda>it. cmp (fst it)" k xs] by (fastforce simp: in_set_conv_nth)
  show "\<forall>x\<in>set (drop ?r xs). cmp k (fst x) < 0"
  proof
    fix x
    assume "x \<in> set (drop ?r xs)"
    then obtain i where "i < length xs - ?r" "x = drop ?r xs ! i"
      by (auto simp: in_set_conv_nth)
    then have i: "?r + i < length xs" "x = xs ! (?r + i)" by auto
    with less_rank_iff [OF sf i(1)] assms(2) have "cmp (fst x) k > 0"
      by (metis linorder_cases not_add_less1 nth_mem)
    then show "cmp k (fst x) < 0" using cmp_flip by blast
  qed
qed

lemma internal_lookup_index:
  assumes "sorted_wrt (\<lambda>x y. cmp (fst x) (fst y) < 0) (tl xs)" "xs \<noteq> []"
  shows "case internal_lookup cmp (InternalNode par xs) k of (i, found, pos) \<Rightarrow>
    i < length xs \<and> (0 < i \<longrightarrow> cmp (fst (xs ! i)) k \<le> 0) \<and>
    (i + 1 < length xs \<longrightarrow> cmp k (fst (xs ! (i + 1))) < 0) \<and>
    ((\<forall>x\<in>set (tl xs). cmp (fst x) k \<noteq> 0) \<longrightarrow> pos = i + 1)"
proof -
  let ?r = "rank (\<lambda>it. cmp (fst it)) k (tl xs)"
  have sf: "sorted_for (\<lambda>it. cmp (fst it)) k (tl xs)"
    using sorted_imp_sorted_for [of fst "tl xs" k] assms(1) by (simp add: lt_def)
  have lb: "lower_bound (\<lambda>it. cmp (fst it)) (tl xs) k = (?r, \<exists>x\<in>set (tl xs). cmp (fst x) k = 0)"
    by (rule lower_bound_rank [OF sf])
  have le: "?r + 1 \<le> length xs"
    using rank_le [of "\<lambda>it. cmp (fst it)" k "tl xs"] assms(2) by (cases xs) auto
  have nth: "tl xs ! j = xs ! (j + 1)" if "j + 1 < length xs" for j
    using that by (simp add: nth_tl)
  have bel: "cmp (fst (xs ! ?r)) k < 0" if "0 < ?r"
    using below_rank [of "?r - 1" "\<lambda>it. cmp (fst it)" k "tl xs"] that nth [of "?r - 1"] le by simp
  have eq: "internal_lookup cmp (InternalNode par xs) k =
    (if ?r + 1 \<ge> length xs \<or> cmp k (fst (xs ! (?r + 1))) < 0 then ?r else ?r + 1,
     \<exists>x\<in>set (tl xs). cmp (fst x) k = 0, ?r + 1)"
    using assms(2) by (simp add: internal_lookup_def lb Let_def)
  show ?thesis
  proof (cases "?r + 1 \<ge> length xs \<or> cmp k (fst (xs ! (?r + 1))) < 0")
    case True
    then show ?thesis using le bel unfolding eq by auto
  next
    case False
    then have lt: "?r + 1 < length xs" and ge: "\<not> cmp k (fst (xs ! (?r + 1))) < 0" by auto
    have "\<not> cmp (fst (xs ! (?r + 1))) k < 0"
      using at_rank [of "\<lambda>it. cmp (fst it)" k "tl xs"] nth [of ?r] lt by simp
    with ge have zero: "cmp (fst (xs ! (?r + 1))) k = 0"
      using cmp_flip [of k "fst (xs ! (?r + 1))"] by linarith
    have mem: "xs ! (?r + 1) \<in> set (tl xs)"
      using nth [OF lt] lt by (metis add.commute length_tl less_diff_conv nth_mem plus_1_eq_Suc)
    have "cmp k (fst (xs ! (?r + 1 + 1))) < 0" if "?r + 1 + 1 < length xs"
    proof -
      have "cmp (fst (xs ! (?r + 1))) (fst (xs ! (?r + 1 + 1))) < 0"
        using sorted_wrt_nth_less [OF assms(1), of ?r "?r + 1"] that nth [of ?r] nth [of "?r + 1"]
        by simp
      with zero show ?thesis
        using le_lt_trans [of k "fst (xs ! (?r + 1))"] cmp_zero_sym [of k "fst (xs ! (?r + 1))"]
        by (simp add: lt_def le_def)
    qed
    with False lt zero mem show ?thesis unfolding eq by auto
  qed
qed

lemma separators_mono:
  assumes "sorted_wrt (\<lambda>x y. cmp (fst x) (fst y) < 0) (tl xs)" "0 < a" "a \<le> b" "b < length xs"
  shows "cmp (fst (xs ! a)) (fst (xs ! b)) \<le> 0"
proof (cases "a = b")
  case True
  then show ?thesis by (simp add: cmp_refl)
next
  case False
  have "cmp (fst (tl xs ! (a - 1))) (fst (tl xs ! (b - 1))) < 0"
    by (rule sorted_wrt_nth_less [OF assms(1)]) (use assms False in auto)
  with assms show ?thesis by (simp add: nth_tl)
qed

lemma sorted_tl_gitem:
  "sorted_wrt (\<lambda>x y. cmp (fst x) (fst y) < 0) (tl cs) \<Longrightarrow>
   sorted_wrt (\<lambda>x y. cmp (fst x) (fst y) < 0) (tl (map gitem cs))"
  by (simp add: map_tl [symmetric] sorted_wrt_map)

text \<open>The lookup selects the child whose key range contains the key.\<close>

lemma lookup_child:
  assumes "ordc cmp P lo hi cs" "at_least cmp lo k" "strictly_below cmp hi k"
  obtains ls k0 c rs where "cs = ls @ (k0, c) # rs"
    "fst (internal_lookup cmp (InternalNode par (map gitem cs)) k) = length ls"
    "at_least cmp (nlo lo ls k0) k" "strictly_below cmp (nhi hi rs) k"
proof -
  let ?i = "fst (internal_lookup cmp (InternalNode par (map gitem cs)) k)"
  from ordc_separators [OF assms(1)] ordc_nonempty [OF assms(1)]
  have i: "?i < length cs" "0 < ?i \<Longrightarrow> cmp (fst (cs ! ?i)) k \<le> 0"
    "?i + 1 < length cs \<Longrightarrow> cmp k (fst (cs ! (?i + 1))) < 0"
    using internal_lookup_index [where xs = "map gitem cs" and par = par and k = k]
      sorted_tl_gitem [of cs] by (auto split: prod.splits)
  show thesis
  proof (rule that [of "take ?i cs" "fst (cs ! ?i)" "snd (cs ! ?i)" "drop (?i + 1) cs"])
    show "cs = take ?i cs @ (fst (cs ! ?i), snd (cs ! ?i)) # drop (?i + 1) cs"
      using i(1) by (simp add: id_take_nth_drop)
    show "at_least cmp (nlo lo (take ?i cs) (fst (cs ! ?i))) k"
      using i(1,2) assms(2) by (auto simp: nlo_def at_least_def [of cmp "Some _"])
    show "strictly_below cmp (nhi hi (drop (?i + 1) cs)) k"
    proof (cases "?i + 1 < length cs")
      case True
      then show ?thesis using i(3)
        by (simp add: nhi_def Cons_nth_drop_Suc [symmetric] strictly_below_def)
    qed (use assms(3) in \<open>simp add: nhi_def\<close>)
  qed (use i(1) in simp)
qed

lemma lookup_unique:
  assumes "ordc cmp P lo hi cs" "cs = ls @ (k0, c) # rs"
    "at_least cmp (nlo lo ls k0) k" "strictly_below cmp (nhi hi rs) k"
  shows "fst (internal_lookup cmp (InternalNode par (map gitem cs)) k) = length ls"
proof -
  let ?i = "fst (internal_lookup cmp (InternalNode par (map gitem cs)) k)" and ?j = "length ls"
  note sep = ordc_separators [OF assms(1)]
  from sep ordc_nonempty [OF assms(1)]
  have i: "?i < length cs" "0 < ?i \<Longrightarrow> cmp (fst (cs ! ?i)) k \<le> 0"
    "?i + 1 < length cs \<Longrightarrow> cmp k (fst (cs ! (?i + 1))) < 0"
    using internal_lookup_index [where xs = "map gitem cs" and par = par and k = k]
      sorted_tl_gitem [of cs] by (auto split: prod.splits)
  note mono = separators_mono [OF conjunct1 [OF sep]]
  have "\<not> ?i < ?j"
  proof
    assume lt: "?i < ?j"
    then have "cmp k0 k \<le> 0" using assms(3) by (cases ls) (auto simp: nlo_def at_least_def)
    moreover have "cmp (fst (cs ! (?i + 1))) k0 \<le> 0"
      using mono [of "?i + 1" ?j] lt assms(2) by simp
    ultimately have "cmp (fst (cs ! (?i + 1))) k \<le> 0" by (rule cmp_trans [rotated])
    with i(3) lt assms(2) show False using cmp_flip [of k "fst (cs ! (?i + 1))"] by simp
  qed
  moreover have "\<not> ?j < ?i"
  proof
    assume lt: "?j < ?i"
    with i(1) assms(2) obtain y ys where rs: "rs = y # ys" by (cases rs) auto
    with assms(4) have "cmp k (fst y) < 0" by (simp add: nhi_def strictly_below_def)
    moreover have "cmp (fst y) (fst (cs ! ?i)) \<le> 0"
      using mono [of "?j + 1" ?i] lt i(1) assms(2) rs by (simp add: nth_append)
    ultimately have "cmp k (fst (cs ! ?i)) < 0" using lt_le_trans by (simp add: lt_def le_def)
    with i(2) lt show False using cmp_flip [of k "fst (cs ! ?i)"] by simp
  qed
  ultimately show ?thesis by simp
qed

lemma lookup_insert_position:
  assumes "ordc cmp P lo hi cs" "cs = ls @ (k0, c) # rs"
    "strictly_above cmp (nlo lo ls k0) k" "strictly_below cmp (nhi hi rs) k"
  shows "snd (snd (internal_lookup cmp (InternalNode par (map gitem cs)) k)) = length ls + 1"
proof -
  note sep = ordc_separators [OF assms(1)]
  note mono = separators_mono [OF conjunct1 [OF sep]]
  have ne: "cmp (fst x) k \<noteq> 0" if "x \<in> set (tl cs)" for x
  proof -
    from that obtain i where "i < length cs - 1" "x = tl cs ! i"
      by (auto simp: in_set_conv_nth)
    define a where "a = i + 1"
    have a: "0 < a" "a < length cs" "x = cs ! a"
      using \<open>i < length cs - 1\<close> \<open>x = tl cs ! i\<close> by (auto simp: nth_tl a_def)
    show ?thesis
    proof (cases "a \<le> length ls")
      case True
      with a(1) assms(3) have "cmp k0 k < 0" by (cases ls) (auto simp: nlo_def strictly_above_def)
      moreover have "cmp (fst x) k0 \<le> 0" using mono [of a "length ls"] a True assms(2) by simp
      ultimately show ?thesis using le_lt_trans [of "fst x" k0 k] by (auto simp: lt_def le_def)
    next
      case False
      with a(2) assms(2) obtain y ys where rs: "rs = y # ys" by (cases rs) auto
      with assms(4) have "cmp k (fst y) < 0" by (simp add: nhi_def strictly_below_def)
      moreover have "cmp (fst y) (fst x) \<le> 0"
        using mono [of "length ls + 1" a] False a assms(2) rs by (simp add: nth_append)
      ultimately have "cmp k (fst x) < 0" using lt_le_trans by (simp add: lt_def le_def)
      then show ?thesis using cmp_flip [of k "fst x"] by simp
    qed
  qed
  have "fst (internal_lookup cmp (InternalNode par (map gitem cs)) k) = length ls"
    by (rule lookup_unique [OF assms(1,2) at_least_strict [OF assms(3)] assms(4)])
  moreover have "\<forall>x\<in>set (tl (map gitem cs)). cmp (fst x) k \<noteq> 0"
    using ne by (auto simp: map_tl [symmetric])
  ultimately show ?thesis
    using internal_lookup_index [OF sorted_tl_gitem [OF conjunct1 [OF sep]],
        where par = par and k = k] assms(2)
    by (auto split: prod.splits)
qed

section \<open>The walk to a leaf\<close>

lemma stored_child:
  "stored P (flats p (ls @ x # rs)) \<Longrightarrow> stored P (flat p (snd x))"
  by simp

lemma descend_step:
  "th_pages st p = Some (InternalNode par xs) \<Longrightarrow>
   descend getter p st = descend getter (getter (InternalNode par xs)) st"
  by (subst descend.simps) simp

lemma descend_to_leaf:
  assumes "stored (th_pages st) (flat par t)" "gord cmp None None (plug ctx0 t)"
    "at_least cmp (hlo ctx0) k" "strictly_below cmp (hhi ctx0) k"
  shows "\<exists>ctx p nx xs. plug ctx0 t = plug ctx (GLeaf p nx xs) \<and>
    descend (\<lambda>n. internal_value_at n (fst (internal_lookup cmp n k))) (gpage t) st = Some (SUCCESS, p) \<and>
    at_least cmp (hlo ctx) k \<and> strictly_below cmp (hhi ctx) k"
  using assms
proof (induction t arbitrary: par ctx0 rule: gtree_induct)
  case (GLeaf p nx xs)
  then have "descend (\<lambda>n. internal_value_at n (fst (internal_lookup cmp n k))) p st = Some (SUCCESS, p)"
    by (subst descend.simps) simp
  with GLeaf show ?case by fastforce
next
  case (GNode p cs)
  let ?getter = "\<lambda>n. internal_value_at n (fst (internal_lookup cmp n k))"
  have node: "th_pages st p = Some (InternalNode par (map gitem cs))" "stored (th_pages st) (flats p cs)"
    using GNode.prems(1) by simp_all
  have "ordc cmp (gord cmp) (hlo ctx0) (hhi ctx0) cs" using gord_hole [OF GNode.prems(2)] by simp
  from lookup_child [OF this GNode.prems(3,4), of par] obtain ls k0 c rs where
    cs: "cs = ls @ (k0, c) # rs"
    and i: "fst (internal_lookup cmp (InternalNode par (map gitem cs)) k) = length ls"
    and bounds: "at_least cmp (nlo (hlo ctx0) ls k0) k" "strictly_below cmp (nhi (hhi ctx0) rs) k" .
  have child: "?getter (InternalNode par (map gitem cs)) = gpage c"
    unfolding internal_value_at_def i by (simp add: cs nth_append)
  have "stored (th_pages st) (flat p c)"
    using stored_child [of _ p ls "(k0, c)" rs] node(2) cs by simp
  then have "\<exists>ctx q nx xs. plug ((p, ls, k0, rs) # ctx0) c = plug ctx (GLeaf q nx xs) \<and>
      descend ?getter (gpage c) st = Some (SUCCESS, q) \<and>
      at_least cmp (hlo ctx) k \<and> strictly_below cmp (hhi ctx) k"
    using GNode.IH [of "(k0, c)" p "(p, ls, k0, rs) # ctx0"] GNode.prems(2) bounds cs by simp
  moreover have "descend ?getter p st = descend ?getter (gpage c) st"
    using descend_step [OF node(1), of ?getter] child by simp
  ultimately show ?case using cs by simp
qed

lemma descend_left_most:
  assumes "stored (th_pages st) (flat par t)" "gord cmp None None (plug ctx0 t)"
  shows "\<exists>ctx p nx xs. plug ctx0 t = plug ctx (GLeaf p nx xs) \<and>
    descend (\<lambda>n. internal_value_at n 0) (gpage t) st = Some (SUCCESS, p) \<and>
    entries_left ctx = entries_left ctx0 \<and> leaves_left ctx = leaves_left ctx0"
  using assms
proof (induction t arbitrary: par ctx0 rule: gtree_induct)
  case (GLeaf p nx xs)
  then have "descend (\<lambda>n. internal_value_at n 0) p st = Some (SUCCESS, p)"
    by (subst descend.simps) simp
  with GLeaf show ?case by fastforce
next
  case (GNode p cs)
  have node: "th_pages st p = Some (InternalNode par (map gitem cs))" "stored (th_pages st) (flats p cs)"
    using GNode.prems(1) by simp_all
  have "cs \<noteq> []" using gord_hole [OF GNode.prems(2)] ordc_nonempty by auto
  then obtain x rs where cs: "cs = x # rs" by (cases cs) auto
  have IH: "\<exists>ctx q nx xs. plug ((p, [], fst x, rs) # ctx0) (snd x) = plug ctx (GLeaf q nx xs) \<and>
      descend (\<lambda>n. internal_value_at n 0) (gpage (snd x)) st = Some (SUCCESS, q) \<and>
      entries_left ctx = entries_left ((p, [], fst x, rs) # ctx0) \<and>
      leaves_left ctx = leaves_left ((p, [], fst x, rs) # ctx0)"
    using GNode.IH [of x p "(p, [], fst x, rs) # ctx0"] GNode.prems(2) node(2) cs by simp
  moreover have "descend (\<lambda>n. internal_value_at n 0) p st =
      descend (\<lambda>n. internal_value_at n 0) (gpage (snd x)) st"
    using descend_step [OF node(1), of "\<lambda>n. internal_value_at n 0"] cs by (simp add: internal_value_at_def)
  ultimately show ?case using cs by simp
qed

lemma tree_inv_not_empty: "tree_inv cmp st t \<Longrightarrow> \<not> is_empty st"
proof -
  assume "tree_inv cmp st t"
  then have "1 < gpage t" "root_page (th_header st) = gpage t"
    using gpage_in_gpages [of t] unfolding tree_inv_def pool_ok_def by blast+
  then show ?thesis by (simp add: is_empty_def BP_INVALID_PAGE_NUM_def)
qed

lemma find_leaf_reaches:
  assumes "tree_inv cmp st t"
  obtains ctx p nx xs where "t = plug ctx (GLeaf p nx xs)" "find_leaf cmp k st = Some (SUCCESS, p)"
    "at_least cmp (hlo ctx) k" "strictly_below cmp (hhi ctx) k"
  using descend_to_leaf [of st BP_INVALID_PAGE_NUM t "[]" k] assms tree_inv_not_empty [OF assms]
  by (auto simp: tree_inv_def find_leaf_def find_leaf_internal_def at_least_def strictly_below_def)

lemma left_most_reaches:
  assumes "tree_inv cmp st t"
  obtains ctx p nx xs where "t = plug ctx (GLeaf p nx xs)" "left_most_page st = Some (SUCCESS, p)"
    "entries_left ctx = []" "leaves_left ctx = []"
  using descend_left_most [of st BP_INVALID_PAGE_NUM t "[]"] assms tree_inv_not_empty [OF assms]
  by (auto simp: tree_inv_def left_most_page_def find_leaf_internal_def)

text \<open>Entries beside the path lie outside the bounds of its end.\<close>

lemma ordc_entries_bounds:
  "ordc cmp (gord cmp) lo hi cs \<Longrightarrow> e \<in> set (gentriess cs) \<Longrightarrow>
   at_least cmp lo (fst e) \<and> strictly_below cmp hi (fst e)"
  using ordc_entries [OF gord_entries] by blast

lemma gord_sides:
  assumes "gord cmp None None (plug ctx t)"
  shows "(\<forall>e\<in>set (entries_left ctx). \<exists>l. hlo ctx = Some l \<and> cmp (fst e) l < 0) \<and>
    (\<forall>e\<in>set (entries_right ctx). \<exists>h. hhi ctx = Some h \<and> cmp h (fst e) \<le> 0)"
  using assms
proof (induction ctx t rule: plug.induct)
  case (2 p ls k rs ctx t)
  from 2(2) have outer: "gord cmp None None (plug ctx (GNode p (ls @ (k, t) # rs)))" by simp
  note IH = 2(1) [OF outer]
  have ord: "ordc cmp (gord cmp) (hlo ctx) (hhi ctx) (ls @ (k, t) # rs)"
    using gord_hole [OF outer] by simp
  have left: "\<exists>l. hlo ((p, ls, k, rs) # ctx) = Some l \<and> cmp (fst e) l < 0"
    if e: "e \<in> set (entries_left ((p, ls, k, rs) # ctx))" for e
  proof (cases "ls = []")
    case True
    with e IH show ?thesis by (auto simp: nlo_def)
  next
    case False
    with ord have k: "ordc cmp (gord cmp) (hlo ctx) (Some k) ls" "strictly_above cmp (hlo ctx) k"
      by (simp_all add: ordc_split)
    from e consider "e \<in> set (entries_left ctx)" | "e \<in> set (gentriess ls)" by auto
    then have "cmp (fst e) k < 0"
    proof cases
      case 1
      with IH obtain l where "hlo ctx = Some l" "cmp (fst e) l < 0" by blast
      with k(2) show ?thesis using lt_trans by (auto simp: strictly_above_def lt_def)
    next
      case 2
      with ordc_entries_bounds [OF k(1)] show ?thesis by (auto simp: strictly_below_def)
    qed
    with False show ?thesis by (simp add: nlo_def)
  qed
  have right: "\<exists>h. hhi ((p, ls, k, rs) # ctx) = Some h \<and> cmp h (fst e) \<le> 0"
    if e: "e \<in> set (entries_right ((p, ls, k, rs) # ctx))" for e
  proof (cases rs)
    case Nil
    with e IH show ?thesis by (auto simp: nhi_def)
  next
    case (Cons y ys)
    with ord have y: "ordc cmp (gord cmp) (Some (fst y)) (hhi ctx) rs" "strictly_below cmp (hhi ctx) (fst y)"
      using ordc_split [of "ls @ [(k, t)]" "gord cmp" "hlo ctx" "hhi ctx" y ys] by simp_all
    from e consider "e \<in> set (entries_right ctx)" | "e \<in> set (gentriess rs)" by auto
    then have "cmp (fst y) (fst e) \<le> 0"
    proof cases
      case 1
      with IH obtain h where "hhi ctx = Some h" "cmp h (fst e) \<le> 0" by blast
      with y(2) show ?thesis
        using lt_le_trans [of "fst y" h "fst e"] by (auto simp: strictly_below_def lt_def le_def)
    next
      case 2
      with ordc_entries_bounds [OF y(1)] show ?thesis by (auto simp: at_least_def)
    qed
    with Cons show ?thesis by (simp add: nhi_def)
  qed
  from left right show ?case by blast
qed simp

text \<open>A key of the tree can only be in the leaf the walk reaches.\<close>

lemma entry_beside_leaf:
  assumes "gord cmp None None (plug ctx t)" "at_least cmp (hlo ctx) k" "strictly_below cmp (hhi ctx) k"
  shows "e \<in> set (entries_left ctx) \<Longrightarrow> cmp (fst e) k < 0"
    "e \<in> set (entries_right ctx) \<Longrightarrow> cmp k (fst e) < 0"
proof -
  note sides = gord_sides [OF assms(1)]
  show "cmp (fst e) k < 0" if "e \<in> set (entries_left ctx)"
  proof -
    from sides that obtain l where "hlo ctx = Some l" "cmp (fst e) l < 0" by blast
    with assms(2) show ?thesis
      using lt_le_trans [of "fst e" l k] by (auto simp: at_least_def lt_def le_def)
  qed
  show "cmp k (fst e) < 0" if "e \<in> set (entries_right ctx)"
  proof -
    from sides that obtain h where "hhi ctx = Some h" "cmp h (fst e) \<le> 0" by blast
    with assms(3) show ?thesis
      using lt_le_trans [of k h "fst e"] by (auto simp: strictly_below_def lt_def le_def)
  qed
qed

end

end
