(* ===== verification/Bplus_Up.thy ===== *)
theory Bplus_Up
  imports Bplus_Search
begin

text \<open>
  What insertion does to the tree: \<open>up\<close> describes, on trees, the walk from a split node towards the
  root.  It keeps order, shape, entries and leaf links.
\<close>

section \<open>Shape along a path\<close>

fun cshape :: "nat \<Rightarrow> nat \<Rightarrow> nat \<Rightarrow> nat \<Rightarrow> nat \<Rightarrow> ctx \<Rightarrow> bool" where
  "cshape lmin lmax imin imax d [] \<longleftrightarrow> True"
| "cshape lmin lmax imin imax d ((p, ls, k, rs) # ctx) \<longleftrightarrow>
     (\<forall>x\<in>set ls \<union> set rs. gshape lmin lmax imin imax d (snd x)) \<and>
     length ls + 1 + length rs \<le> imax \<and>
     (if ctx = [] then 2 else imin) \<le> length ls + 1 + length rs \<and>
     cshape lmin lmax imin imax (Suc d) ctx"

lemma gshape_plug:
  "gshape_root lmin lmax imin imax D (plug ctx t) \<longleftrightarrow>
   (\<exists>d. D = d + length ctx \<and> cshape lmin lmax imin imax d ctx \<and>
     (if ctx = [] then gshape_root lmin lmax imin imax d t else gshape lmin lmax imin imax d t))"
proof (induction ctx t arbitrary: D rule: plug.induct)
  case (2 p ls k rs ctx t)
  have node: "(if ctx = [] then gshape_root lmin lmax imin imax e (GNode p (ls @ (k, t) # rs))
      else gshape lmin lmax imin imax e (GNode p (ls @ (k, t) # rs))) \<longleftrightarrow>
    (\<exists>d. e = Suc d \<and> (\<forall>x\<in>set ls \<union> set rs. gshape lmin lmax imin imax d (snd x)) \<and>
      gshape lmin lmax imin imax d t \<and> length ls + 1 + length rs \<le> imax \<and>
      (if ctx = [] then 2 else imin) \<le> length ls + 1 + length rs)" for e
    by (simp add: ball_Un) blast
  show ?case unfolding plug.simps 2 node by auto
qed simp

section \<open>The walk up on trees\<close>

fun up :: "nat \<Rightarrow> key \<Rightarrow> page_num list \<Rightarrow> ctx \<Rightarrow> gtree \<Rightarrow> key \<Rightarrow> gtree \<Rightarrow> gtree" where
  "up imax z fs [] t1 k t2 = GNode (hd fs) [(z, t1), (k, t2)]"
| "up imax z fs ((p, ls, k0, rs) # ctx) t1 k t2 =
    (let cs = ls @ (k0, t1) # (k, t2) # rs; n = length ls + 1 + length rs
     in if n < imax then plug ctx (GNode p cs)
        else
          let m = (if length ls < n div 2 then n div 2 + 1 else n div 2)
          in up imax z (tl fs) ctx (GNode p (take m cs)) (fst (cs ! m)) (GNode (hd fs) (drop m cs)))"

lemma concat_map_take_drop:
  "concat (map f (take m xs)) @ concat (map f (drop m xs)) = concat (map f xs)"
  by (simp flip: map_append concat_append)

lemma plug_collect:
  assumes "\<And>p cs. g (GNode p cs) = concat (map (\<lambda>x. g (snd x)) cs)"
  shows "g (plug ctx t) = cleft (\<lambda>x. g (snd x)) ctx @ g t @ cright (\<lambda>x. g (snd x)) ctx"
  by (induction ctx t rule: plug.induct) (simp_all add: assms)

lemma up_collect:
  assumes g: "\<And>p cs. g (GNode p cs) = concat (map (\<lambda>x. g (snd x)) cs)"
  shows "g (up imax z fs ctx t1 k t2) =
    cleft (\<lambda>x. g (snd x)) ctx @ g t1 @ g t2 @ cright (\<lambda>x. g (snd x)) ctx"
proof (induction imax z fs ctx t1 k t2 rule: up.induct)
  case (1 imax z fs t1 k t2)
  then show ?case by (simp add: g)
next
  case (2 imax z fs p ls k0 rs ctx t1 k t2)
  let ?n = "length ls + 1 + length rs" and ?cs = "ls @ (k0, t1) # (k, t2) # rs"
  let ?m = "if length ls < ?n div 2 then ?n div 2 + 1 else ?n div 2"
  show ?case
  proof (cases "?n < imax")
    case True
    then show ?thesis by (simp add: Let_def plug_collect [OF g] g)
  next
    case False
    let ?l = "GNode p (take ?m ?cs)" and ?r = "GNode (hd fs) (drop ?m ?cs)"
    have "g (up imax z fs ((p, ls, k0, rs) # ctx) t1 k t2) =
        g (up imax z (tl fs) ctx ?l (fst (?cs ! ?m)) ?r)"
      using False by (simp only: up.simps Let_def if_False)
    also have "\<dots> = cleft (\<lambda>x. g (snd x)) ctx @ (g ?l @ g ?r) @ cright (\<lambda>x. g (snd x)) ctx"
      using "2.IH" [OF refl refl False refl] by (simp only: append_assoc)
    also have "g ?l @ g ?r = concat (map (\<lambda>x. g (snd x)) ?cs)"
      unfolding g by (rule concat_map_take_drop)
    finally show ?thesis by simp
  qed
qed

lemma up_entries:
  "gentries (up imax z fs ctx t1 k t2) =
   entries_left ctx @ gentries t1 @ gentries t2 @ entries_right ctx"
  by (rule up_collect) simp

lemma up_leaves:
  "gleaves (up imax z fs ctx t1 k t2) =
   leaves_left ctx @ gleaves t1 @ gleaves t2 @ leaves_right ctx"
  by (rule up_collect) simp

text \<open>Where a full node is cut, after the new child was put next to the split one.\<close>

lemma split_position:
  assumes "2 \<le> n" "n = length ls + 1 + length (rs :: 'a list)"
    "m = (if length (ls :: 'a list) < n div 2 then n div 2 + 1 else n div 2)"
  shows "0 < m" "m < n + 1" "n div 2 \<le> m" "n div 2 \<le> n + 1 - m" "m \<le> n" "n + 1 - m \<le> n"
  using assms by (auto split: if_splits)

lemma gshape_take:
  "(\<And>x. x \<in> set cs \<Longrightarrow> gshape lmin lmax imin imax d (snd x)) \<Longrightarrow> imin \<le> m \<Longrightarrow> m \<le> imax \<Longrightarrow>
   m \<le> length cs \<Longrightarrow> gshape lmin lmax imin imax (Suc d) (GNode p (take m cs))"
  by (auto dest: in_set_takeD)

lemma gshape_drop:
  "(\<And>x. x \<in> set cs \<Longrightarrow> gshape lmin lmax imin imax d (snd x)) \<Longrightarrow> imin \<le> length cs - m \<Longrightarrow>
   length cs - m \<le> imax \<Longrightarrow> gshape lmin lmax imin imax (Suc d) (GNode p (drop m cs))"
  by (auto dest: in_set_dropD)

lemma up_shape:
  assumes "cshape lmin lmax (imax div 2) imax d ctx" "gshape lmin lmax (imax div 2) imax d t1"
    "gshape lmin lmax (imax div 2) imax d t2" "2 \<le> imax"
  shows "\<exists>D. gshape_root lmin lmax (imax div 2) imax D (up imax z fs ctx t1 k t2)"
  using assms
proof (induction imax z fs ctx t1 k t2 arbitrary: d rule: up.induct)
  case (2 imax z fs p ls k0 rs ctx t1 k t2)
  let ?sh = "gshape lmin lmax (imax div 2) imax"
  let ?n = "length ls + 1 + length rs" and ?cs = "ls @ (k0, t1) # (k, t2) # rs"
  let ?m = "if length ls < ?n div 2 then ?n div 2 + 1 else ?n div 2"
  have all: "?sh d (snd x)" if "x \<in> set ?cs" for x using that "2.prems" by auto
  show ?case
  proof (cases "?n < imax")
    case True
    have "gshape_root lmin lmax (imax div 2) imax (Suc d + length ctx) (plug ctx (GNode p ?cs))"
      unfolding gshape_plug using "2.prems" True by (auto simp: ball_Un)
    with True show ?thesis by (auto simp: Let_def)
  next
    case False
    with "2.prems"(1) have n: "?n = imax" by simp
    have "2 \<le> ?n" using n "2.prems"(4) by simp
    note pos = split_position [OF this refl refl]
    have len: "length ?cs = ?n + 1" by simp
    have l: "?sh (Suc d) (GNode p (take ?m ?cs))"
      using pos by (intro gshape_take all) (simp_all only: len n)
    have r: "?sh (Suc d) (GNode (hd fs) (drop ?m ?cs))"
      using pos by (intro gshape_drop all) (simp_all only: len n)
    have "cshape lmin lmax (imax div 2) imax (Suc d) ctx" using "2.prems"(1) by simp
    from "2.IH" [OF refl refl False refl this l r "2.prems"(4)] show ?thesis
      using False by (simp only: up.simps Let_def if_False)
  qed
qed auto

context index_order
begin

lemma ordc_cut:
  assumes "ordc cmp P lo hi cs" "0 < m" "m < length cs"
  shows "ordc cmp P lo (Some (fst (cs ! m))) (take m cs)"
    "ordc cmp P (Some (fst (cs ! m))) hi (drop m cs)"
    "strictly_above cmp lo (fst (cs ! m))" "strictly_below cmp hi (fst (cs ! m))"
proof -
  have cs: "cs = take m cs @ cs ! m # drop (Suc m) cs" and d: "drop m cs = cs ! m # drop (Suc m) cs"
    using assms(3) by (simp_all add: id_take_nth_drop Cons_nth_drop_Suc)
  have "take m cs \<noteq> []" using assms by auto
  from ordc_split [OF this, of P lo hi "cs ! m" "drop (Suc m) cs"] assms(1) cs
  show "ordc cmp P lo (Some (fst (cs ! m))) (take m cs)"
    "ordc cmp P (Some (fst (cs ! m))) hi (drop m cs)"
    "strictly_above cmp lo (fst (cs ! m))" "strictly_below cmp hi (fst (cs ! m))"
    unfolding d by simp_all
qed

lemma gord_cut:
  assumes "gord cmp lo hi (GNode p cs)" "0 < m" "m < length cs"
  shows "gord cmp lo (Some (fst (cs ! m))) (GNode p (take m cs))"
    "gord cmp (Some (fst (cs ! m))) hi (GNode q (drop m cs))"
    "strictly_above cmp lo (fst (cs ! m))" "strictly_below cmp hi (fst (cs ! m))"
proof -
  from assms(1) have ord: "ordc cmp (gord cmp) lo hi cs" and fk: "first_key_ok lo cs" by simp_all
  note cut = ordc_cut [OF ord assms(2,3)]
  have "first_key_ok lo (take m cs)" using fk assms(2)
    by (cases lo) (simp_all add: first_key_ok_def hd_take)
  moreover have "first_key_ok (Some (fst (cs ! m))) (drop m cs)"
    using assms(3) by (simp add: first_key_ok_def hd_drop_conv_nth)
  ultimately show "gord cmp lo (Some (fst (cs ! m))) (GNode p (take m cs))"
    "gord cmp (Some (fst (cs ! m))) hi (GNode q (drop m cs))"
    "strictly_above cmp lo (fst (cs ! m))" "strictly_below cmp hi (fst (cs ! m))"
    using cut by simp_all
qed

lemma gord_replace2:
  assumes "gord cmp lo hi (GNode p (ls @ (k0, t0) # rs))" "gord cmp (nlo lo ls k0) (Some k) t1"
    "gord cmp (Some k) (nhi hi rs) t2" "strictly_above cmp (nlo lo ls k0) k"
    "strictly_below cmp (nhi hi rs) k"
  shows "gord cmp lo hi (GNode p (ls @ (k0, t1) # (k, t2) # rs))"
  using assms by (auto intro: ordc_replace2 first_key_replace)

lemma up_gord:
  assumes "gord cmp None None (plug ctx t0)" "gord cmp (hlo ctx) (Some k) t1"
    "gord cmp (Some k) (hhi ctx) t2" "strictly_above cmp (hlo ctx) k" "strictly_below cmp (hhi ctx) k"
    "2 \<le> imax"
  shows "gord cmp None None (up imax z fs ctx t1 k t2)"
  using assms
proof (induction imax z fs ctx t1 k t2 arbitrary: t0 rule: up.induct)
  case (1 imax z fs t1 k t2)
  then show ?case by (simp add: first_key_ok_def)
next
  case (2 imax z fs p ls k0 rs ctx t1 k t2)
  let ?n = "length ls + 1 + length rs" and ?cs = "ls @ (k0, t1) # (k, t2) # rs"
  let ?m = "if length ls < ?n div 2 then ?n div 2 + 1 else ?n div 2"
  from "2.prems"(1) have outer: "gord cmp None None (plug ctx (GNode p (ls @ (k0, t0) # rs)))" by simp
  have node: "gord cmp (hlo ctx) (hhi ctx) (GNode p ?cs)"
    using gord_hole [OF outer] "2.prems" by (intro gord_replace2 [where ?t0.0 = t0]) simp_all
  note new = gord_replace [OF outer node]
  show ?case
  proof (cases "?n < imax")
    case True
    with new show ?thesis by (simp only: up.simps Let_def if_True)
  next
    case False
    then have "2 \<le> ?n" using "2.prems"(6) by linarith
    note pos = split_position [OF this refl refl]
    have len: "length ?cs = ?n + 1" by simp
    note cut = gord_cut [OF node pos(1), unfolded len, OF pos(2)]
    from "2.IH" [OF refl refl False refl new cut "2.prems"(6)] False show ?thesis
      by (simp only: up.simps Let_def if_False)
  qed
qed

end

end
