(* ===== verification/Bplus_Pages.thy ===== *)
theory Bplus_Pages
  imports Bplus_Inv
begin

text \<open>
  Effect of the node operations on the pages of the index file, stated page by page, and how
  these changes act on the pages of a tree.
\<close>

named_theorems page_ops \<open>definitions of the operations on node pages\<close>

lemmas node_ops [page_ops] =
  set_parent_page_num_def leaf_init_empty_def set_next_page_def node_insert_items_def
  node_remove_items_def leaf_insert_def leaf_remove_def leaf_append_def leaf_preappend_def
  leaf_move_half_to_def leaf_move_first_to_end_def leaf_move_last_to_front_def leaf_move_to_def
  internal_init_empty_def create_new_root_def internal_insert_def set_key_at_def internal_remove_def

lemma change_sel [simp]:
  "th_pages (change p f st) = (th_pages st)(p := map_option f (th_pages st p))"
  "th_pool (change p f st) = th_pool st" "th_header (change p f st) = th_header st"
  "th_header_page (change p f st) = th_header_page st" "th_log (change p f st) = th_log st"
  by (simp_all add: change_def)

lemma append_log_sel [simp]:
  "th_pages (append_log_entry e st) = th_pages st" "th_pool (append_log_entry e st) = th_pool st"
  "th_header (append_log_entry e st) = th_header st"
  "th_header_page (append_log_entry e st) = th_header_page st"
  "th_log (append_log_entry e st) = th_log st @ [e]"
  by (simp_all add: append_log_entry_def)

lemma recover_update_root_sel [simp]:
  "th_pages (set_root_page q st) = th_pages st"
  "th_pool (set_root_page q st) = th_pool st"
  "th_log (set_root_page q st) = th_log st"
  "th_header (set_root_page q st) = (th_header st) \<lparr> root_page := q \<rparr>"
  by (simp_all add: set_root_page_def)

lemma update_root_sel [simp]:
  "th_pages (update_root_page_num_locked q st) = th_pages st"
  "th_pool (update_root_page_num_locked q st) = th_pool st"
  "th_header (update_root_page_num_locked q st) = (th_header st) \<lparr> root_page := q \<rparr>"
  by (simp_all add: update_root_page_num_locked_def)

text \<open>No operation on a node touches the allocation state or the header.\<close>

lemma node_ops_pool [simp]:
  "th_pool (set_parent_page_num p q st) = th_pool st" "th_header (set_parent_page_num p q st) = th_header st"
  "th_pool (leaf_init_empty p st) = th_pool st" "th_header (leaf_init_empty p st) = th_header st"
  "th_pool (internal_init_empty p st) = th_pool st" "th_header (internal_init_empty p st) = th_header st"
  "th_pool (set_next_page p q st) = th_pool st" "th_header (set_next_page p q st) = th_header st"
  "th_pool (leaf_insert p i k r st) = th_pool st" "th_header (leaf_insert p i k r st) = th_header st"
  "th_pool (node_insert_items p i xs st) = th_pool st" "th_header (node_insert_items p i xs st) = th_header st"
  "th_pool (node_remove_items p i xs st) = th_pool st" "th_header (node_remove_items p i xs st) = th_header st"
  "th_pool (create_new_root p f k q st) = th_pool st" "th_header (create_new_root p f k q st) = th_header st"
  "th_pool (set_key_at p i k st) = th_pool st" "th_header (set_key_at p i k st) = th_header st"
  by (simp_all add: page_ops)

lemma internal_insert_pool [simp]:
  "th_pool (internal_insert cmp p k c st) = th_pool st" "th_header (internal_insert cmp p k c st) = th_header st"
  by (simp_all add: page_ops Let_def split: prod.splits)

lemma leaf_move_half_pool [simp]:
  "th_pool (leaf_move_half_to p q st) = th_pool st" "th_header (leaf_move_half_to p q st) = th_header st"
  by (simp_all add: page_ops Let_def)

lemma set_children_parent_eq:
  assumes "\<And>c. c \<in> set cs \<Longrightarrow> th_pages st c \<noteq> None"
  shows "\<exists>st'. set_children_parent cs q st = (SUCCESS, st') \<and> th_pool st' = th_pool st \<and>
    th_header st' = th_header st \<and>
    th_pages st' = (\<lambda>x. if x \<in> set cs then map_option (put_parent q) (th_pages st x) else th_pages st x)"
  using assms
proof (induction cs arbitrary: st)
  case (Cons c cs)
  let ?st = "set_parent_page_num c q st"
  have pages: "th_pages ?st = (th_pages st)(c := map_option (put_parent q) (th_pages st c))"
    by (simp add: set_parent_page_num_def)
  have "th_pages ?st u \<noteq> None" if "u \<in> set cs" for u using Cons.prems [of u] that by (auto simp: pages)
  from Cons.IH [OF this] obtain st' where st':
    "set_children_parent cs q ?st = (SUCCESS, st')" "th_pool st' = th_pool st"
    "th_header st' = th_header st"
    "th_pages st' = (\<lambda>x. if x \<in> set cs then map_option (put_parent q) (th_pages ?st x) else th_pages ?st x)"
    by auto
  have "put_parent q (put_parent q n) = put_parent q n" for n by (cases n) simp_all
  then have again: "map_option (put_parent q) (map_option (put_parent q) v) = map_option (put_parent q) v" for v
    by (cases v) simp_all
  obtain n where "th_pages st c = Some n" using Cons.prems [of c] by auto
  with st'(1) have "set_children_parent (c # cs) q st = (SUCCESS, st')" by simp
  moreover have "th_pages st' = (\<lambda>x. if x \<in> set (c # cs) then map_option (put_parent q) (th_pages st x)
      else th_pages st x)"
    unfolding st'(4) pages by (auto simp: fun_eq_iff again)
  ultimately show ?case using st'(2,3) by blast
qed simp

section \<open>Allocation\<close>

lemma tree_allocate_cases:
  assumes "pool_ok st ps"
  obtains (full) st1 where "tree_allocate_page st = (BUFFERPOOL_NOBUF, None, st1)"
      "live_pages (th_pool st1) = {..<MAX_PAGE_NUM}"
  | (page) q st1 where "tree_allocate_page st = (SUCCESS, Some q, st1)" "q \<notin> set ps" "q \<noteq> BP_INVALID_PAGE_NUM"
      "pool_ok st1 (q # ps)" "th_header st1 = th_header st" "th_pages st1 q \<noteq> None"
      "\<And>p. p \<noteq> q \<Longrightarrow> th_pages st1 p = th_pages st p"
proof -
  from assms have wf: "bp_wf (th_pool st)" and one: "1 \<in> live_pages (th_pool st)"
    by (simp_all add: pool_ok_def)
  obtain rc r bp where a: "allocate_page (\<lambda>_. SUCCESS) (th_pool st) = (rc, r, bp)"
    by (metis surj_pair)
  show thesis
  proof (cases r)
    case None
    with a have "rc = BUFFERPOOL_NOBUF" "bp = th_pool st" "live_pages (th_pool st) = {..<MAX_PAGE_NUM}"
      by (auto simp: allocate_page_eq [OF wf] split: if_splits)
    with None a show thesis by (intro full) (simp_all add: tree_allocate_page_def)
  next
    case (Some i)
    note alloc = bp_pages.alloc_some [OF wf a [unfolded Some]]
    have "i \<noteq> 0" using bp_pages.alloc_nonzero [OF wf a [unfolded Some]] .
    moreover have "i \<noteq> 1" using alloc one by auto
    ultimately have i: "1 < int i" by simp
    have fresh: "int i \<notin> set ps" using assms alloc by (auto simp: pool_ok_def)
    show thesis
    proof (rule page [of "int i" "st \<lparr> th_pool := bp, th_pages := (if th_pages st (int i) = None
          then (th_pages st)(int i \<mapsto> InternalNode 0 []) else th_pages st) \<rparr>"])
      show "pool_ok (st \<lparr> th_pool := bp, th_pages := (if th_pages st (int i) = None
          then (th_pages st)(int i \<mapsto> InternalNode 0 []) else th_pages st) \<rparr>) (int i # ps)"
        using assms alloc i fresh by (auto simp: pool_ok_def)
    qed (use i fresh alloc in \<open>auto simp: tree_allocate_page_def a Some BP_INVALID_PAGE_NUM_def\<close>)
  qed
qed

section \<open>Moving children to another parent\<close>

lemma gpagess_mem: "z \<in> set cs \<Longrightarrow> u \<in> set (gpages (snd z)) \<Longrightarrow> u \<in> set (gpagess cs)"
  by (auto simp: gpagess_def)

lemma below_not_child:
  "distinct (gpagess cs) \<Longrightarrow> x \<in> set cs \<Longrightarrow> y \<in> set cs \<Longrightarrow> p \<in> set (map fst (below (snd x))) \<Longrightarrow>
   p \<noteq> gpage (snd y)"
proof (induction cs)
  case (Cons c cs)
  have in_pages: "set (map fst (below t)) \<subseteq> set (gpages t)" for t by (auto simp: gpages_def)
  have in_list: "gpage (snd z) \<in> set (gpagess cs)" "set (gpages (snd z)) \<subseteq> set (gpagess cs)"
    if "z \<in> set cs" for z using gpagess_mem [OF that] gpage_in_gpages [of "snd z"] by blast+
  have dist: "gpage (snd c) \<notin> set (map fst (below (snd c)))"
    using Cons.prems(1) by (auto simp: gpages_def)
  have disj: "set (gpages (snd c)) \<inter> set (gpagess cs) = {}" using Cons.prems(1) by auto
  from Cons.prems(2,3) consider "x = c" "y = c" | "x = c" "y \<in> set cs" | "x \<in> set cs" "y = c"
    | "x \<in> set cs" "y \<in> set cs" by auto
  then show ?case
  proof cases
    case 1
    with dist Cons.prems(4) show ?thesis by blast
  next
    case 2
    with disj in_list [of y] in_pages [of "snd c"] Cons.prems(4) show ?thesis by blast
  next
    case 3
    with disj in_list [of x] in_pages [of "snd x"] Cons.prems(4) gpage_in_gpages [of "snd c"]
    show ?thesis by blast
  next
    case 4
    with Cons.IH Cons.prems show ?thesis by simp
  qed
qed simp

lemma put_parent_root_node [simp]: "put_parent q (root_node p t) = root_node q t"
  by (cases t) simp_all

lemma stored_reparent:
  assumes "stored P (flats p cs)" "distinct (gpagess cs)"
    "\<And>x. x \<in> set cs \<Longrightarrow> P' (gpage (snd x)) = map_option (put_parent q) (P (gpage (snd x)))"
    "\<And>u. u \<in> set (gpagess cs) \<Longrightarrow> u \<notin> (\<lambda>x. gpage (snd x)) ` set cs \<Longrightarrow> P' u = P u"
  shows "stored P' (flats q cs)"
proof -
  have "stored P' (flat q (snd x))" if x: "x \<in> set cs" for x
  proof -
    from assms(1) x have st: "stored P (flat p (snd x))" by (auto simp: stored_def flats_def)
    then have "P' (gpage (snd x)) = Some (root_node q (snd x))"
      using assms(3) [OF x] stored_root [OF st] by simp
    moreover have "P' (fst e) = P (fst e)" if "e \<in> set (below (snd x))" for e
    proof (rule assms(4))
      show "fst e \<in> set (gpagess cs)" using that x by (force simp: gpagess_def gpages_def)
      show "fst e \<notin> (\<lambda>x. gpage (snd x)) ` set cs"
        using below_not_child [OF assms(2) x] that by fastforce
    qed
    ultimately show ?thesis using st by (simp add: flat_def stored_def)
  qed
  then show ?thesis by (auto simp: stored_def flats_def)
qed

section \<open>Splitting a node\<close>

lemma remove_at_tail [simp]: "remove_at m (length xs - m) xs = take m xs"
  by (simp add: remove_at_def)

lemma insert_at_end [simp]: "insert_at (length xs) ys xs = xs @ ys" "insert_at 0 ys [] = ys"
  by (simp_all add: insert_at_def)

lemma split_leaf_pages:
  assumes "tree_allocate_page st = (SUCCESS, Some q, st1)" "p \<noteq> q"
    "th_pages st1 p = Some (LeafNode par nx xs)" "th_pages st1 q \<noteq> None"
  shows "\<exists>st2. split_leaf p st = (SUCCESS, Some q, st2) \<and> th_pool st2 = th_pool st1 \<and>
    th_header st2 = th_header st1 \<and>
    th_pages st2 = (th_pages st1)(p \<mapsto> LeafNode par nx (take (length xs div 2) xs),
      q \<mapsto> LeafNode par BP_INVALID_PAGE_NUM (drop (length xs div 2) xs))"
  using assms
  by (auto simp: split_leaf_def page_ops item_count_def Let_def fun_eq_iff insert_at_def)

lemma split_internal_pages:
  assumes "tree_allocate_page st = (SUCCESS, Some q, st1)" "p \<noteq> q"
    "th_pages st1 p = Some (InternalNode par xs)" "th_pages st1 q \<noteq> None" "m = length xs div 2"
    "\<And>c. c \<in> snd ` set (drop m xs) \<Longrightarrow> th_pages st1 c \<noteq> None \<and> c \<noteq> p \<and> c \<noteq> q"
  shows "\<exists>st2. split_internal p st = (SUCCESS, Some q, st2) \<and> th_pool st2 = th_pool st1 \<and>
    th_header st2 = th_header st1 \<and>
    th_pages st2 = (\<lambda>x. if x = p then Some (InternalNode par (take m xs))
      else if x = q then Some (InternalNode par (drop m xs))
      else if x \<in> snd ` set (drop m xs) then map_option (put_parent q) (th_pages st1 x)
      else th_pages st1 x)"
proof -
  let ?init = "set_parent_page_num q par (internal_init_empty q st1)"
  let ?st = "node_insert_items q 0 (InternalItems (drop m xs)) ?init"
  obtain n where n: "th_pages st1 q = Some n" using assms(4) by blast
  have init: "th_pages ?init = (th_pages st1)(q \<mapsto> InternalNode par [])"
    using n by (simp add: page_ops)
  have pages: "th_pages ?st = (th_pages st1)(q \<mapsto> InternalNode par (drop m xs))"
    by (simp add: node_insert_items_def init insert_at_def)
  have "th_pages ?st c \<noteq> None" if "c \<in> set (map snd (drop m xs))" for c
    using assms(6) [of c] that by (auto simp: pages)
  from set_children_parent_eq [where cs = "map snd (drop m xs)" and st = ?st and q = q, OF this] obtain st' where
    st': "set_children_parent (map snd (drop m xs)) q ?st = (SUCCESS, st')"
    "th_pool st' = th_pool st1" "th_header st' = th_header st1"
    "th_pages st' = (\<lambda>x. if x \<in> snd ` set (drop m xs) then map_option (put_parent q) (th_pages ?st x)
      else th_pages ?st x)" by auto
  have "th_pages st' p = Some (InternalNode par xs)"
    using assms(2,3,6) by (auto simp: st'(4) pages)
  then have move: "internal_move_half_to p q ?init =
      (SUCCESS, node_remove_items p m (InternalItems (drop m xs)) st')"
    using assms(2,3) st'(1) by (simp add: internal_move_half_to_def internal_append_def
        internal_insert_items_def init Let_def flip: assms(5))
  show ?thesis
  proof (intro exI conjI)
    show "split_internal p st = (SUCCESS, Some q, node_remove_items p m (InternalItems (drop m xs)) st')"
      using assms(1-3) move by (simp add: split_internal_def)
    show "th_pages (node_remove_items p m (InternalItems (drop m xs)) st') =
      (\<lambda>x. if x = p then Some (InternalNode par (take m xs))
        else if x = q then Some (InternalNode par (drop m xs))
        else if x \<in> snd ` set (drop m xs) then map_option (put_parent q) (th_pages st1 x)
        else th_pages st1 x)"
      using assms(2,3,6) \<open>th_pages st' p = _\<close>
      by (auto simp: node_remove_items_def item_count_def st'(4) pages fun_eq_iff)
  qed (use st' in \<open>simp_all\<close>)
qed

end
