(* ===== verification/Bplus_Insert.thy ===== *)
theory Bplus_Insert
  imports Bplus_Up Bplus_Pages
begin

text \<open>
  Correctness of insertion on the pages: \<^verbatim>\<open>insert_entry_into_parent\<close> leaves exactly the pages of the
  tree described by \<open>up\<close>, and \<^verbatim>\<open>insert_entry\<close> adds the new entry to the represented list.
\<close>

section \<open>Helper facts\<close>

lemma stored_set_parent:
  assumes "stored P (flat p t)" "distinct (gpages t)"
  shows "stored (P(gpage t := map_option (put_parent q) (P (gpage t)))) (flat q t)"
proof -
  have "gpage t \<notin> set (map fst (below t))" using assms(2) by (simp add: gpages_def)
  with assms(1) show ?thesis by (simp add: flat_def stored_fun_upd)
qed

lemma stored_agree:
  "stored P F \<Longrightarrow> (\<And>p. p \<noteq> q \<Longrightarrow> P' p = P p) \<Longrightarrow> q \<notin> set (map fst F) \<Longrightarrow> stored P' F"
  by (auto simp: stored_def image_iff) (metis fst_conv snd_conv)

lemma stored_keep: "stored P F \<Longrightarrow> (\<And>u. u \<in> set (map fst F) \<Longrightarrow> P' u = P u) \<Longrightarrow> stored P' F"
  by (simp add: stored_def)

lemma node_parent_root_node [simp]: "node_parent (root_node par t) = par"
  by (cases t) simp_all

lemma hpar_valid:
  "pool_ok st (ps @ cpages ctx) \<Longrightarrow> hpar ctx = BP_INVALID_PAGE_NUM \<longleftrightarrow> ctx = []"
  by (cases ctx) (auto simp: pool_ok_def BP_INVALID_PAGE_NUM_def)

lemma pool_ok_perm: "pool_ok st ps \<Longrightarrow> mset ps = mset qs \<Longrightarrow> pool_ok st qs"
  using mset_eq_imp_distinct_iff mset_eq_setD unfolding pool_ok_def by metis

lemma pool_ok_cong: "th_pool st' = th_pool st \<Longrightarrow> pool_ok st' ps = pool_ok st ps"
  by (simp add: pool_ok_def)

lemma pool_ok_distinct: "pool_ok st ps \<Longrightarrow> distinct ps"
  by (simp add: pool_ok_def)

lemma gpage_plug: "gpage (plug ctx t) = (if ctx = [] then gpage t else fst (last ctx))"
  by (induction ctx t rule: plug.induct) auto

lemma first_key_drop: "m < length cs \<Longrightarrow> fst (map gitem (drop m cs) ! 0) = fst (cs ! m)"
  by simp

lemma insert_next:
  "insert_at (length ls + 1) [y] (ls @ x # rs) = ls @ x # y # rs"
  by (simp add: insert_at_def)

section \<open>Splitting an internal node\<close>

lemma gpagess_take_drop: "gpagess (take m cs) @ gpagess (drop m cs) = gpagess cs"
  using gpagess_simps(3) [of "take m cs" "drop m cs"] by simp

lemma flats_take_drop: "stored P (flats p cs) \<longleftrightarrow> stored P (flats p (take m cs)) \<and> stored P (flats p (drop m cs))"
proof -
  have "stored P (flats p (take m cs @ drop m cs)) \<longleftrightarrow>
      stored P (flats p (take m cs)) \<and> stored P (flats p (drop m cs))"
    unfolding flats_def map_append concat_append by simp
  then show ?thesis by simp
qed

lemma child_page:
  "c \<in> snd ` set (map gitem cs) \<Longrightarrow> c \<in> set (gpagess cs)"
  using gpagess_mem gpage_in_gpages by fastforce

lemma split_node_stored:
  assumes pool: "pool_ok st (p # gpagess cs @ ps)" and st: "stored (th_pages st) (flats p cs)"
    and node: "th_pages st p = Some (InternalNode par (map gitem cs))" and m: "m = length cs div 2"
  obtains (full) st1 where "split_internal p st = (BUFFERPOOL_NOBUF, None, st1)"
      "live_pages (th_pool st1) = {..<MAX_PAGE_NUM}"
  | (split) q st2 where "split_internal p st = (SUCCESS, Some q, st2)"
      "pool_ok st2 (q # p # gpagess cs @ ps)" "th_header st2 = th_header st"
      "th_pages st2 p = Some (InternalNode par (map gitem (take m cs)))"
      "th_pages st2 q = Some (InternalNode par (map gitem (drop m cs)))"
      "stored (th_pages st2) (flats p (take m cs))" "stored (th_pages st2) (flats q (drop m cs))"
      "\<And>u. u \<in> set ps \<Longrightarrow> th_pages st2 u = th_pages st u"
  using pool
proof (cases rule: tree_allocate_cases)
  case (full st1)
  then show thesis by (intro that(1)) (simp_all add: split_internal_def)
next
  case (page q st1)
  let ?kids = "snd ` set (drop m (map gitem cs))"
  note d = pool_ok_distinct [OF page(4)]
  then have dis: "distinct (gpagess (take m cs) @ gpagess (drop m cs))"
    by (simp only: gpagess_take_drop) simp
  have kids: "?kids \<subseteq> set (gpagess (drop m cs))" "?kids = (\<lambda>x. gpage (snd x)) ` set (drop m cs)"
    using child_page [of _ "drop m cs"] by (auto simp only: drop_map) (force simp: image_iff)+
  then have kid: "c \<in> set (gpagess cs)" if "c \<in> ?kids" for c
    using that by (auto simp flip: gpagess_take_drop [of m cs])
  have some: "th_pages st c \<noteq> None" if "c \<in> set (gpagess cs)" for c
    using st that by (force simp: stored_def simp flip: fst_flats [of p])
  have kid_ok: "th_pages st1 c \<noteq> None \<and> c \<noteq> p \<and> c \<noteq> q" if "c \<in> ?kids" for c
  proof -
    have "c \<noteq> p" "c \<noteq> q" using kid [OF that] d by auto
    with some [OF kid [OF that]] page(7) [of c] show ?thesis by simp
  qed
  have pq: "p \<noteq> q" using d by auto
  have "th_pages st1 p = Some (InternalNode par (map gitem cs))" using page(7) [OF pq] node by simp
  from split_internal_pages [OF page(1) pq this page(6) _ kid_ok, of m] m obtain st2 where
    st2: "split_internal p st = (SUCCESS, Some q, st2)" "th_pool st2 = th_pool st1"
    "th_header st2 = th_header st1"
    and P: "th_pages st2 = (\<lambda>x. if x = p then Some (InternalNode par (take m (map gitem cs)))
      else if x = q then Some (InternalNode par (drop m (map gitem cs)))
      else if x \<in> ?kids then map_option (put_parent q) (th_pages st1 x) else th_pages st1 x)" by auto
  have same: "th_pages st2 u = th_pages st u"
    if "u \<in> set (gpagess cs @ ps)" "u \<notin> ?kids" for u
    using that d page(7) [of u] by (auto simp: P)
  have "u \<notin> ?kids" if "u \<in> set (gpagess (take m cs))" for u using that dis kids(1) by auto
  then have left: "stored (th_pages st2) (flats p (take m cs))"
    using st same by (subst stored_cong [where Q = "th_pages st"])
      (auto simp: flats_take_drop [of _ _ cs m] fst_flats simp flip: gpagess_take_drop [of m cs])
  have right: "stored (th_pages st2) (flats q (drop m cs))"
  proof (rule stored_reparent [where P = "th_pages st" and p = p])
    show "stored (th_pages st) (flats p (drop m cs))" using st by (simp add: flats_take_drop [of _ _ cs m])
    show "distinct (gpagess (drop m cs))" using dis by simp
    show "th_pages st2 (gpage (snd x)) = map_option (put_parent q) (th_pages st (gpage (snd x)))"
      if "x \<in> set (drop m cs)" for x
    proof -
      have "gpage (snd x) \<in> ?kids" using that by (simp only: kids(2)) blast
      with kid_ok [OF this] page(7) [of "gpage (snd x)"] show ?thesis by (simp add: P)
    qed
    show "th_pages st2 u = th_pages st u" if "u \<in> set (gpagess (drop m cs))"
      "u \<notin> (\<lambda>x. gpage (snd x)) ` set (drop m cs)" for u
      using that by (intro same) (auto simp: kids(2) simp flip: gpagess_take_drop [of m cs])
  qed
  have rest: "th_pages st2 u = th_pages st u" if "u \<in> set ps" for u
    using that d kid by (intro same) auto
  show thesis
    by (rule that(2) [OF st2(1) _ _ _ _ left right rest])
      (use page(4,5) st2(2,3) pool_ok_cong [OF st2(2)] pq in \<open>simp_all add: P take_map drop_map\<close>)
qed

context index_order
begin

section \<open>One level of the walk up\<close>

definition up_ready :: "tree_handler \<Rightarrow> ctx \<Rightarrow> gtree \<Rightarrow> key \<Rightarrow> gtree \<Rightarrow> bool" where
  "up_ready st ctx t1 k t2 \<longleftrightarrow>
     sizes_ok (th_header st) \<and>
     stored (th_pages st) (flat (hpar ctx) t1 @ flat (hpar ctx) t2 @ cflat ctx (gpage t1)) \<and>
     pool_ok st (gpages t1 @ gpages t2 @ cpages ctx) \<and>
     (\<exists>t0. gord cmp None None (plug ctx t0)) \<and>
     gord cmp (hlo ctx) (Some k) t1 \<and> gord cmp (Some k) (hhi ctx) t2 \<and>
     strictly_above cmp (hlo ctx) k \<and> strictly_below cmp (hhi ctx) k \<and>
     (\<forall>(p, ls, k, rs)\<in>set ctx. length ls + 1 + length rs \<le> internal_max_size (th_header st))"

lemma up_root:
  assumes "up_ready st [] t1 k t2"
  obtains (full) st1 where
      "insert_entry_into_parent cmp (gpage t1) (gpage t2) k st = Some (BUFFERPOOL_NOBUF, st1)"
      "live_pages (th_pool st1) = {..<MAX_PAGE_NUM}"
  | (root) r st1 where
      "insert_entry_into_parent cmp (gpage t1) (gpage t2) k st = Some (SUCCESS, st1)"
      "stored (th_pages st1) (flat BP_INVALID_PAGE_NUM
         (GNode r [(zero_key (attr_length (th_header st)), t1), (k, t2)]))"
      "pool_ok st1 (r # gpages t1 @ gpages t2)" "th_header st1 = (th_header st) \<lparr> root_page := r \<rparr>"
proof -
  from assms have st: "stored (th_pages st) (flat BP_INVALID_PAGE_NUM t1)"
    "stored (th_pages st) (flat BP_INVALID_PAGE_NUM t2)"
    and pool: "pool_ok st (gpages t1 @ gpages t2)" by (simp_all add: up_ready_def)
  from stored_root [OF st(1)] have parent: "node_parent (node_at st (gpage t1)) = BP_INVALID_PAGE_NUM"
    by simp
  from pool show thesis
  proof (cases rule: tree_allocate_cases)
    case (full st1)
    with that(1) parent show thesis by (subst (asm) insert_entry_into_parent.simps) simp
  next
    case (page r st1)
    let ?st2 = "create_new_root r (gpage t1) k (gpage t2) (internal_init_empty r st1)"
    let ?st3 = "set_parent_page_num (gpage t2) r (set_parent_page_num (gpage t1) r ?st2)"
    have run: "insert_entry_into_parent cmp (gpage t1) (gpage t2) k st =
        Some (SUCCESS, update_root_page_num_locked r ?st3)"
      using parent page(1) by (subst insert_entry_into_parent.simps) (simp add: Let_def)
    have d: "distinct (gpages t1)" "distinct (gpages t2)" "r \<notin> set (gpages t1)" "r \<notin> set (gpages t2)"
      "set (gpages t1) \<inter> set (gpages t2) = {}"
      using pool_ok_distinct [OF page(4)] by auto
    obtain n where n: "th_pages st1 r = Some n" using page(6) by blast
    have same: "stored (th_pages st1) (flat BP_INVALID_PAGE_NUM t1)"
      "stored (th_pages st1) (flat BP_INVALID_PAGE_NUM t2)"
      using stored_agree [OF st(1) page(7)] stored_agree [OF st(2) page(7)] d(3,4)
      by (simp_all only: fst_flat)
    define P2 where "P2 = (th_pages st1)(r \<mapsto> InternalNode BP_INVALID_PAGE_NUM
      [(zero_key (attr_length (th_header st)), gpage t1), (k, gpage t2)])"
    define P3 where "P3 = P2(gpage t1 := map_option (put_parent r) (P2 (gpage t1)))"
    define P4 where "P4 = P3(gpage t2 := map_option (put_parent r) (P3 (gpage t2)))"
    have P4: "th_pages ?st3 = P4"
      using n page(5)
      by (simp add: P2_def P3_def P4_def set_parent_page_num_def create_new_root_def internal_init_empty_def)
    have g: "gpage t1 \<notin> set (gpages t2)" "gpage t2 \<notin> set (gpages t1)" using d(5) gpage_in_gpages by blast+
    have "stored P2 (flat BP_INVALID_PAGE_NUM t1)" "stored P2 (flat BP_INVALID_PAGE_NUM t2)"
      unfolding P2_def using same d(3,4) by (simp_all add: stored_fun_upd fst_flat)
    then have "stored P3 (flat r t1)" "stored P3 (flat BP_INVALID_PAGE_NUM t2)"
      unfolding P3_def using g(1) by (simp_all add: stored_set_parent d(1) stored_fun_upd fst_flat)
    then have "stored P4 (flat r t1)" "stored P4 (flat r t2)"
      unfolding P4_def using g(2) by (simp_all add: stored_set_parent d(2) stored_fun_upd fst_flat)
    moreover have "P4 r = P2 r" unfolding P4_def P3_def using d(3,4) gpage_in_gpages by auto
    moreover have "P2 r = Some (InternalNode BP_INVALID_PAGE_NUM
      [(zero_key (attr_length (th_header st)), gpage t1), (k, gpage t2)])" by (simp add: P2_def)
    ultimately have "stored (th_pages (update_root_page_num_locked r ?st3)) (flat BP_INVALID_PAGE_NUM
        (GNode r [(zero_key (attr_length (th_header st)), t1), (k, t2)]))"
      by (simp add: P4)
    moreover have "pool_ok (update_root_page_num_locked r ?st3) (r # gpages t1 @ gpages t2)"
      using page(4) pool_ok_cong [of "update_root_page_num_locked r ?st3" st1] by simp
    ultimately show thesis using that(2) [OF run] page(5) by simp
  qed
qed

lemma ordc_weaken:
  "ordc cmp P lo hi cs \<Longrightarrow> (\<And>l h x. x \<in> set cs \<Longrightarrow> P l h (snd x) \<Longrightarrow> Q l h (snd x)) \<Longrightarrow> ordc cmp Q lo hi cs"
  by (induction cmp P lo hi cs rule: ordc.induct) auto

lemma up_ready_parent:
  assumes "up_ready st ((p, ls, k0, rs) # ctx) t1 k t2"
  shows "th_pages st (gpage t1) = Some (root_node p t1)" "th_pages st (gpage t2) = Some (root_node p t2)"
    "th_pages st p = Some (InternalNode (hpar ctx) (map gitem (ls @ (k0, t1) # rs)))"
    "p \<noteq> BP_INVALID_PAGE_NUM"
    "ordc cmp (\<lambda>_ _ _. True) (hlo ctx) (hhi ctx) (ls @ (k0, t1) # rs)"
    "strictly_above cmp (nlo (hlo ctx) ls k0) k" "strictly_below cmp (nhi (hhi ctx) rs) k"
    "distinct (p # gpages t1 @ gpages t2 @ gpagess ls @ gpagess rs @ cpages ctx)"
proof -
  let ?c = "(p, ls, k0, rs) # ctx"
  from assms have st: "stored (th_pages st) (flat p t1)" "stored (th_pages st) (flat p t2)"
    "th_pages st p = Some (InternalNode (hpar ctx) (map gitem ls @ (k0, gpage t1) # map gitem rs))"
    by (auto simp: up_ready_def)
  show "th_pages st (gpage t1) = Some (root_node p t1)" "th_pages st (gpage t2) = Some (root_node p t2)"
    using st(1,2) by (simp_all add: stored_root)
  show "th_pages st p = Some (InternalNode (hpar ctx) (map gitem (ls @ (k0, t1) # rs)))"
    using st(3) by simp
  show "p \<noteq> BP_INVALID_PAGE_NUM" using assms by (simp add: up_ready_def pool_ok_def BP_INVALID_PAGE_NUM_def)
  from assms obtain t0 where "gord cmp None None (plug ctx (GNode p (ls @ (k0, t0) # rs)))"
    by (auto simp: up_ready_def)
  from gord_hole [OF this] have "ordc cmp (gord cmp) (hlo ctx) (hhi ctx) (ls @ (k0, t0) # rs)" by simp
  then have "ordc cmp (\<lambda>_ _ _. True) (hlo ctx) (hhi ctx) (ls @ (k0, t0) # rs)"
    by (rule ordc_weaken) simp
  then show "ordc cmp (\<lambda>_ _ _. True) (hlo ctx) (hhi ctx) (ls @ (k0, t1) # rs)"
    by (rule ordc_replace) simp
  show "strictly_above cmp (nlo (hlo ctx) ls k0) k" "strictly_below cmp (nhi (hhi ctx) rs) k"
    using assms by (simp_all add: up_ready_def)
  show "distinct (p # gpages t1 @ gpages t2 @ gpagess ls @ gpagess rs @ cpages ctx)"
    using assms by (auto simp: up_ready_def pool_ok_def)
qed

lemma child_inserted:
  assumes "th_pages st a = Some (InternalNode par (map gitem (ls @ (k0, t1) # rs)))"
    "ordc cmp (\<lambda>_ _ _. True) lo hi (ls @ (k0, t1) # rs)"
    "strictly_above cmp (nlo lo ls k0) k" "strictly_below cmp (nhi hi rs) k"
    "th_pages st (gpage t2) = Some (root_node b t2)" "a \<noteq> gpage t2"
  shows "th_pages (set_parent_page_num (gpage t2) a (internal_insert cmp a k (gpage t2) st)) =
    (th_pages st)(a \<mapsto> InternalNode par (map gitem (ls @ (k0, t1) # (k, t2) # rs)),
      gpage t2 \<mapsto> root_node a t2)"
proof -
  let ?items = "map gitem (ls @ (k0, t1) # rs)" and ?new = "map gitem (ls @ (k0, t1) # (k, t2) # rs)"
  obtain c f where pos: "internal_lookup cmp (InternalNode par ?items) k = (c, f, length ls + 1)"
    using lookup_insert_position [OF assms(2) refl assms(3,4), of par]
    by (cases "internal_lookup cmp (InternalNode par ?items) k") (simp del: map_append)
  have ins: "insert_at (length ls + 1) [(k, gpage t2)] ?items = ?new"
    using insert_next [of "map gitem ls" "(k, gpage t2)" "(k0, gpage t1)" "map gitem rs"] by simp
  show ?thesis
    using assms(1,5,6) pos ins
    by (simp add: set_parent_page_num_def internal_insert_def node_insert_items_def fun_eq_iff)
qed

lemma child_added:
  assumes "th_pages st a = Some (InternalNode par (map gitem (ls @ (k0, t1) # rs)))"
    "ordc cmp (\<lambda>_ _ _. True) lo hi (ls @ (k0, t1) # rs)"
    "strictly_above cmp (nlo lo ls k0) k" "strictly_below cmp (nhi hi rs) k"
    "stored (th_pages st) (flats a (ls @ (k0, t1) # rs))" "stored (th_pages st) (flat b t2)"
    "distinct (a # gpagess (ls @ (k0, t1) # rs) @ gpages t2)"
    "st' = set_parent_page_num (gpage t2) a (internal_insert cmp a k (gpage t2) st)"
  shows "th_pages st' a = Some (InternalNode par (map gitem (ls @ (k0, t1) # (k, t2) # rs)))"
    "stored (th_pages st') (flats a (ls @ (k0, t1) # (k, t2) # rs))"
    "\<And>u. u \<noteq> a \<Longrightarrow> u \<notin> set (gpages t2) \<Longrightarrow> th_pages st' u = th_pages st u"
    "th_pool st' = th_pool st" "th_header st' = th_header st"
proof -
  let ?node = "InternalNode par (map gitem (ls @ (k0, t1) # (k, t2) # rs))"
  have ne: "a \<noteq> gpage t2" using assms(7) gpage_in_gpages [of t2] by auto
  note child_inserted [OF assms(1-4) stored_root [OF assms(6)] ne]
  with stored_root [OF assms(6)] ne
  have P: "th_pages st' = ((th_pages st)(a \<mapsto> ?node))
      (gpage t2 := map_option (put_parent a) (((th_pages st)(a \<mapsto> ?node)) (gpage t2)))"
    by (simp add: assms(8) fun_eq_iff)
  show "th_pages st' a = Some ?node" using ne by (simp add: P)
  have "stored ((th_pages st)(a \<mapsto> ?node)) (flat b t2)"
    using assms(6,7) by (subst stored_fun_upd) (auto simp: fst_flat simp flip: set_map)
  from stored_set_parent [OF this, of a] have t2: "stored (th_pages st') (flat a t2)"
    using assms(7) by (simp only: P) simp
  have same: "th_pages st' u = th_pages st u" if "u \<noteq> a" "u \<notin> set (gpages t2)" for u
    using that gpage_in_gpages [of t2] by (auto simp: P)
  then show "\<And>u. u \<noteq> a \<Longrightarrow> u \<notin> set (gpages t2) \<Longrightarrow> th_pages st' u = th_pages st u" .
  have "u \<noteq> a \<and> u \<notin> set (gpages t2)" if "u \<in> set (gpagess (ls @ (k0, t1) # rs))" for u
    using that assms(7) by auto
  then have "stored (th_pages st') (flats a (ls @ (k0, t1) # rs))"
    by (intro stored_keep [OF assms(5)] same; unfold fst_flats; blast)
  with t2 show "stored (th_pages st') (flats a (ls @ (k0, t1) # (k, t2) # rs))" by simp
qed (simp_all add: assms(8))

lemma up_room:
  assumes "up_ready st ((p, ls, k0, rs) # ctx) t1 k t2"
    "length ls + 1 + length rs < internal_max_size (th_header st)"
  obtains st1 where "insert_entry_into_parent cmp (gpage t1) (gpage t2) k st = Some (SUCCESS, st1)"
    "stored (th_pages st1) (flat BP_INVALID_PAGE_NUM (plug ctx (GNode p (ls @ (k0, t1) # (k, t2) # rs))))"
    "th_pool st1 = th_pool st" "th_header st1 = th_header st"
proof -
  note parent = up_ready_parent [OF assms(1)]
  define st1 where "st1 = set_parent_page_num (gpage t2) p (internal_insert cmp p k (gpage t2) st)"
  have run: "insert_entry_into_parent cmp (gpage t1) (gpage t2) k st = Some (SUCCESS, st1)"
    using parent(1,3,4) assms(2)
    by (subst insert_entry_into_parent.simps) (simp add: Let_def max_size_def st1_def)
  have st: "stored (th_pages st) (flats p (ls @ (k0, t1) # rs))" "stored (th_pages st) (flat p t2)"
    "stored (th_pages st) (cflat ctx p)" using assms(1) by (auto simp: up_ready_def)
  have "distinct (p # gpagess (ls @ (k0, t1) # rs) @ gpages t2)" using parent(8) by auto
  note added = child_added [OF parent(3,5,6,7) st(1,2) this st1_def]
  have "u \<noteq> p \<and> u \<notin> set (gpages t2)" if "u \<in> set (cpages ctx)" for u using that parent(8) by auto
  then have "stored (th_pages st1) (cflat ctx p)"
    by (intro stored_keep [OF st(3)] added(3); unfold fst_cflat; blast)
  with added(1,2) have "stored (th_pages st1)
      (flat BP_INVALID_PAGE_NUM (plug ctx (GNode p (ls @ (k0, t1) # (k, t2) # rs))))"
    by (simp add: stored_flat_plug)
  with that [OF run] added(4,5) show thesis by simp
qed

lemma split_side:
  assumes "ordc cmp P lo hi (ls @ (k0, c) # rs)" "strictly_above cmp (nlo lo ls k0) k"
    "strictly_below cmp (nhi hi rs) k" "0 < m" "m < length (ls @ (k0, c) # rs)"
  shows "0 < cmp k (fst ((ls @ (k0, c) # rs) ! m)) \<longleftrightarrow> m \<le> length ls"
proof -
  let ?cs = "ls @ (k0, c) # rs"
  note mono = separators_mono [OF conjunct1 [OF ordc_separators [OF assms(1)]]]
  show ?thesis
  proof (cases "m \<le> length ls")
    case True
    then have "ls \<noteq> []" using assms(4) by auto
    then have k: "cmp k0 k < 0" using assms(2) by (simp add: nlo_def strictly_above_def)
    have "cmp (fst (?cs ! m)) k0 \<le> 0" using mono [OF assms(4) True] by simp
    with k have "cmp (fst (?cs ! m)) k < 0" using le_lt_trans [of _ k0 k] by (simp add: le_def lt_def)
    with True show ?thesis using cmp_flip by blast
  next
    case False
    then obtain y ys where rs: "rs = y # ys" using assms(5) by (cases rs) auto
    then have k: "cmp k (fst y) < 0" using assms(3) by (simp add: nhi_def strictly_below_def)
    have "cmp (fst y) (fst (?cs ! m)) \<le> 0"
      using mono [of "length ls + 1" m] False assms(5) by (simp add: rs nth_append)
    with k have "cmp k (fst (?cs ! m)) < 0" using lt_le_trans [of k "fst y"] by (simp add: le_def lt_def)
    with False show ?thesis by simp
  qed
qed

lemma child_into_half:
  assumes cs: "cs0 = ls @ (k0, t1) # rs" "cs = ls @ (k0, t1) # (k, t2) # rs"
    and P: "th_pages st p = Some (InternalNode par (map gitem (take m0 cs0)))"
    "th_pages st q = Some (InternalNode par (map gitem (drop m0 cs0)))"
    "stored (th_pages st) (flats p (take m0 cs0))" "stored (th_pages st) (flats q (drop m0 cs0))"
    "stored (th_pages st) (flat p t2)"
    and ord: "ordc cmp (\<lambda>_ _ _. True) lo hi cs0" "strictly_above cmp (nlo lo ls k0) k"
      "strictly_below cmp (nhi hi rs) k"
    and m0: "0 < m0" "m0 < length cs0"
    and dist: "distinct (q # p # gpagess cs0 @ gpages t2)"
    and a: "a = (if m0 \<le> length ls then q else p)"
    and st': "st' = set_parent_page_num (gpage t2) a (internal_insert cmp a k (gpage t2) st)"
    and m: "m = (if length ls < m0 then m0 + 1 else m0)"
  shows "th_pages st' p = Some (InternalNode par (map gitem (take m cs)))"
    "th_pages st' q = Some (InternalNode par (map gitem (drop m cs)))"
    "stored (th_pages st') (flats p (take m cs) @ flats q (drop m cs))"
    "\<And>u. u \<notin> set (q # p # gpages t2) \<Longrightarrow> th_pages st' u = th_pages st u"
    "th_pool st' = th_pool st" "th_header st' = th_header st"
proof -
  note cut = ordc_cut [OF ord(1) m0]
  have d: "distinct (q # p # gpages t2)" "distinct (gpagess (take m0 cs0) @ gpagess (drop m0 cs0))"
    "set (gpagess (take m0 cs0) @ gpagess (drop m0 cs0)) \<inter> set (q # p # gpages t2) = {}"
    using dist by (auto simp only: gpagess_take_drop) auto
  have "th_pages st' p = Some (InternalNode par (map gitem (take m cs))) \<and>
    th_pages st' q = Some (InternalNode par (map gitem (drop m cs))) \<and>
    stored (th_pages st') (flats p (take m cs) @ flats q (drop m cs)) \<and>
    (\<forall>u. u \<notin> set (q # p # gpages t2) \<longrightarrow> th_pages st' u = th_pages st u)"
  proof (cases "m0 \<le> length ls")
    case True
    then have aq: "a = q" and t: "take m0 cs0 = take m0 ls" "drop m0 cs0 = drop m0 ls @ (k0, t1) # rs"
      "take m cs = take m0 cs0" "drop m cs = drop m0 ls @ (k0, t1) # (k, t2) # rs"
      by (simp_all add: a m cs)
    have "ls \<noteq> []" using True m0(1) by auto
    with ord(2) True have above: "strictly_above cmp (nlo (Some (fst (cs0 ! m0))) (drop m0 ls) k0) k"
      by (auto simp: nlo_def cs nth_append)
    have "distinct (q # gpagess (drop m0 cs0) @ gpages t2)" using d by auto
    note added = child_added [OF P(2) [unfolded t(2)] cut(2) [unfolded t(2)] above ord(3)
        P(4) [unfolded t(2)] P(5) this [unfolded t(2)] st' [unfolded aq]]
    have "stored (th_pages st') (flats p (take m0 cs0))"
      by (intro stored_keep [OF P(3)] added(3); unfold fst_flats; use d in auto)
    with added P(1) d show ?thesis by (simp only: t(3,4)) (auto simp: added(3))
  next
    case False
    then obtain j where j: "m0 = length ls + 1 + j" by (metis add.assoc add.commute less_imp_Suc_add not_le plus_1_eq_Suc)
    then have ap: "a = p" and t: "take m0 cs0 = ls @ (k0, t1) # take j rs" "drop m0 cs0 = drop j rs"
      "take m cs = ls @ (k0, t1) # (k, t2) # take j rs" "drop m cs = drop m0 cs0"
      by (simp_all add: a m cs)
    have "j < length rs" using m0(2) by (simp add: cs j)
    with ord(3) have below: "strictly_below cmp (nhi (Some (fst (cs0 ! m0))) (take j rs)) k"
      by (cases rs; cases j) (auto simp: nhi_def cs nth_append j)
    have "distinct (p # gpagess (take m0 cs0) @ gpages t2)" using d by auto
    note added = child_added [OF P(1) [unfolded t(1)] cut(1) [unfolded t(1)] ord(2) below
        P(3) [unfolded t(1)] P(5) this [unfolded t(1)] st' [unfolded ap]]
    have "stored (th_pages st') (flats q (drop m0 cs0))"
      by (intro stored_keep [OF P(4)] added(3); unfold fst_flats; use d in auto)
    with added P(2) d show ?thesis by (simp only: t(3,4)) (auto simp: added(3))
  qed
  then show "th_pages st' p = Some (InternalNode par (map gitem (take m cs)))"
    "th_pages st' q = Some (InternalNode par (map gitem (drop m cs)))"
    "stored (th_pages st') (flats p (take m cs) @ flats q (drop m cs))"
    "\<And>u. u \<notin> set (q # p # gpages t2) \<Longrightarrow> th_pages st' u = th_pages st u" by blast+
qed (simp_all add: st')

lemma up_ready_cut:
  assumes ready: "up_ready st ((p, ls, k0, rs) # ctx) t1 k t2"
    and cs: "cs = ls @ (k0, t1) # (k, t2) # rs" and m: "0 < m" "m < length cs"
  shows "\<exists>t0. gord cmp None None (plug ctx t0)"
    "gord cmp (hlo ctx) (Some (fst (cs ! m))) (GNode p (take m cs))"
    "gord cmp (Some (fst (cs ! m))) (hhi ctx) (GNode q (drop m cs))"
    "strictly_above cmp (hlo ctx) (fst (cs ! m))" "strictly_below cmp (hhi ctx) (fst (cs ! m))"
proof -
  from ready obtain t0 where outer: "gord cmp None None (plug ctx (GNode p (ls @ (k0, t0) # rs)))"
    by (auto simp: up_ready_def)
  then show "\<exists>t0. gord cmp None None (plug ctx t0)" by blast
  have "gord cmp (hlo ctx) (hhi ctx) (GNode p cs)"
    unfolding cs using gord_hole [OF outer] ready
    by (intro gord_replace2 [where ?t0.0 = t0]) (simp_all add: up_ready_def)
  from gord_cut [OF this m] show "gord cmp (hlo ctx) (Some (fst (cs ! m))) (GNode p (take m cs))"
    "gord cmp (Some (fst (cs ! m))) (hhi ctx) (GNode q (drop m cs))"
    "strictly_above cmp (hlo ctx) (fst (cs ! m))" "strictly_below cmp (hhi ctx) (fst (cs ! m))" .
qed

lemma up_split:
  assumes ready: "up_ready st ((p, ls, k0, rs) # ctx) t1 k t2"
    and full_node: "\<not> length ls + 1 + length rs < internal_max_size (th_header st)"
    and cs: "cs = ls @ (k0, t1) # (k, t2) # rs"
    and n: "n = length ls + 1 + length rs" and m: "m = (if length ls < n div 2 then n div 2 + 1 else n div 2)"
  obtains (full) st1 where
      "insert_entry_into_parent cmp (gpage t1) (gpage t2) k st = Some (BUFFERPOOL_NOBUF, st1)"
      "live_pages (th_pool st1) = {..<MAX_PAGE_NUM}"
  | (split) q st2 where
      "insert_entry_into_parent cmp (gpage t1) (gpage t2) k st =
         insert_entry_into_parent cmp p q (fst (cs ! m)) st2"
      "up_ready st2 ctx (GNode p (take m cs)) (fst (cs ! m)) (GNode q (drop m cs))"
      "th_header st2 = th_header st"
proof -
  note parent = up_ready_parent [OF ready]
  let ?cs0 = "ls @ (k0, t1) # rs"
  have imax: "n = internal_max_size (th_header st)" "2 \<le> n"
    using ready full_node n by (auto simp: up_ready_def sizes_ok_def)
  note pos = split_position [OF imax(2) n m]
  have st: "stored (th_pages st) (flats p ?cs0)" "stored (th_pages st) (flat p t2)"
    "stored (th_pages st) (cflat ctx p)" using ready by (auto simp: up_ready_def)
  have "pool_ok st (gpages t1 @ gpages t2 @ p # gpagess ls @ gpagess rs @ cpages ctx)"
    using ready by (simp add: up_ready_def)
  then have "pool_ok st (p # gpagess ?cs0 @ gpages t2 @ cpages ctx)" by (rule pool_ok_perm) simp
  from this st(1) parent(3) refl show thesis
  proof (cases rule: split_node_stored)
    case (full st1)
    show thesis by (rule that(1) [OF _ full(2)])
      (use parent(1,3,4) full full_node in \<open>subst insert_entry_into_parent.simps, simp add: Let_def max_size_def\<close>)
  next
    case (split q st2)
    let ?m0 = "length ?cs0 div 2"
    let ?a = "if ?m0 \<le> length ls then q else p"
    define st3 where "st3 = set_parent_page_num (gpage t2) ?a (internal_insert cmp ?a k (gpage t2) st2)"
    have m0: "0 < ?m0" "?m0 < length ?cs0" "?m0 = n div 2" using imax(2) n by simp_all
    have d: "distinct (q # p # gpagess ?cs0 @ gpages t2)" "set (cpages ctx) \<inter> set (q # p # gpages t2) = {}"
      using pool_ok_distinct [OF split(2)] by auto
    have "stored (th_pages st2) (flat p t2)"
      by (intro stored_keep [OF st(2)] split(8); unfold fst_flat; simp)
    note half = child_into_half [OF refl cs split(4-7) this parent(5,6,7) m0(1,2) d(1) refl st3_def,
        unfolded m0(3), OF m]
    have "stored (th_pages st2) (cflat ctx p)"
      by (intro stored_keep [OF st(3)] split(8); unfold fst_cflat; simp)
    from stored_keep [OF this half(4)] d(2) have outer: "stored (th_pages st3) (cflat ctx p)"
      unfolding fst_cflat by blast
    have "fst (internal_items (node_at st2 q) ! 0) = fst (?cs0 ! ?m0)"
      by (simp only: split(5) option.sel index_node.sel first_key_drop [OF m0(2)])
    then have side: "0 < cmp k (fst (internal_items (node_at st2 q) ! 0)) \<longleftrightarrow> ?m0 \<le> length ls"
      using split_side [OF parent(5,6,7) m0(1,2)] by (simp only:)
    have mcs: "m < length cs" "0 < m" using pos cs n by simp_all
    have km: "fst (internal_items (node_at st3 q) ! 0) = fst (cs ! m)"
      by (simp only: half(2) option.sel index_node.sel first_key_drop [OF mcs(1)])
    have st3: "(if 0 < cmp k (fst (internal_items (node_at st2 q) ! 0))
        then set_parent_page_num (gpage t2) q (internal_insert cmp q k (gpage t2) st2)
        else set_parent_page_num (gpage t2) p (internal_insert cmp p k (gpage t2) st2)) = st3"
      unfolding side st3_def by (cases "?m0 \<le> length ls") simp_all
    have run: "insert_entry_into_parent cmp (gpage t1) (gpage t2) k st =
        insert_entry_into_parent cmp p q (fst (cs ! m)) st3"
      using parent(1,3,4) split(1) full_node km
      by (subst insert_entry_into_parent.simps) (simp add: Let_def max_size_def st3)
    have pages: "stored (th_pages st3) (flat (hpar ctx) (GNode p (take m cs)) @
        flat (hpar ctx) (GNode q (drop m cs)) @ cflat ctx p)"
      using half(1-3) outer by (simp only: flat_simps stored_simps fst_conv snd_conv)
    have "mset (gpagess (take m cs)) + mset (gpagess (drop m cs)) = mset (gpagess cs)"
      by (simp only: gpagess_take_drop flip: mset_append)
    moreover have "mset (gpages (GNode p (take m cs)) @ gpages (GNode q (drop m cs)) @ cpages ctx) =
        add_mset q (add_mset p ((mset (gpagess (take m cs)) + mset (gpagess (drop m cs))) + mset (cpages ctx)))"
      by simp
    moreover have "mset (gpagess cs) = mset (gpagess ?cs0 @ gpages t2)" by (simp add: cs)
    ultimately have "pool_ok st2 (gpages (GNode p (take m cs)) @ gpages (GNode q (drop m cs)) @ cpages ctx)"
      by (intro pool_ok_perm [OF split(2)]) simp
    then have "pool_ok st3 (gpages (GNode p (take m cs)) @ gpages (GNode q (drop m cs)) @ cpages ctx)"
      unfolding pool_ok_cong [OF half(5)] .
    with pages up_ready_cut(1,2,4,5) [OF ready cs mcs(2,1)] up_ready_cut(3) [OF ready cs mcs(2,1), of q] ready
    have "up_ready st3 ctx (GNode p (take m cs)) (fst (cs ! m)) (GNode q (drop m cs))"
      unfolding up_ready_def half(6) split(3) gpage.simps by (simp del: gord.simps flat_simps gpages_simps)
    from that(2) [OF run this] half(6) split(3) show thesis by simp
  qed
qed

section \<open>The whole walk up\<close>

lemma insert_into_parent_runs:
  assumes "up_ready st ctx t1 k t2" "root_page (th_header st) = gpage (plug ctx t1)"
  shows "(\<exists>st1. insert_entry_into_parent cmp (gpage t1) (gpage t2) k st = Some (BUFFERPOOL_NOBUF, st1) \<and>
      live_pages (th_pool st1) = {..<MAX_PAGE_NUM}) \<or>
    (\<exists>st1 fs t. insert_entry_into_parent cmp (gpage t1) (gpage t2) k st = Some (SUCCESS, st1) \<and>
      t = up (internal_max_size (th_header st)) (zero_key (attr_length (th_header st))) fs ctx t1 k t2 \<and>
      stored (th_pages st1) (flat BP_INVALID_PAGE_NUM t) \<and> pool_ok st1 (gpages t) \<and>
      th_header st1 = (th_header st) \<lparr> root_page := gpage t \<rparr>)"
    (is "?full (gpage t1) (gpage t2) k st \<or> ?done ctx t1 k t2 st")
  using assms
proof (induction ctx arbitrary: st t1 k t2)
  case Nil
  from Nil.prems(1) show ?case
  proof (cases rule: up_root)
    case (root r st1)
    moreover have "up n z [r] [] t1 k t2 = GNode r [(z, t1), (k, t2)]" for n z by simp
    ultimately show ?thesis by (intro disjI2 exI [of _ st1] exI [of _ "[r]"]) simp
  qed blast
next
  case (Cons c ctx)
  obtain p ls k0 rs where c: "c = (p, ls, k0, rs)" by (metis surj_pair)
  let ?cs = "ls @ (k0, t1) # (k, t2) # rs" and ?n = "length ls + 1 + length rs"
  let ?m = "if length ls < ?n div 2 then ?n div 2 + 1 else ?n div 2"
  note ready = Cons.prems(1) [unfolded c]
  show ?case
  proof (cases "?n < internal_max_size (th_header st)")
    case True
    from up_room [OF ready True] obtain st1 where
      room: "insert_entry_into_parent cmp (gpage t1) (gpage t2) k st = Some (SUCCESS, st1)"
      "stored (th_pages st1) (flat BP_INVALID_PAGE_NUM (plug ctx (GNode p ?cs)))"
      "th_pool st1 = th_pool st" "th_header st1 = th_header st" .
    have u: "up (internal_max_size (th_header st)) z fs ((p, ls, k0, rs) # ctx) t1 k t2 =
        plug ctx (GNode p ?cs)" for z fs using True by (simp only: up.simps Let_def if_True)
    have "pool_ok st (gpages t1 @ gpages t2 @ p # gpagess ls @ gpagess rs @ cpages ctx)"
      using ready by (simp add: up_ready_def)
    then have "pool_ok st (gpages (plug ctx (GNode p ?cs)))" by (rule pool_ok_perm) (simp add: gpages_plug)
    then have "pool_ok st1 (gpages (plug ctx (GNode p ?cs)))" unfolding pool_ok_cong [OF room(3)] .
    moreover have "root_page (th_header st) = gpage (plug ctx (GNode p ?cs))"
      using Cons.prems(2) by (simp add: c gpage_plug)
    ultimately show ?thesis unfolding c u using room
      by (intro disjI2 exI [of _ st1] exI [of _ "[]"]) simp
  next
    case False
    from ready False refl refl refl show ?thesis
    proof (cases rule: up_split)
      case (full st1)
      then show ?thesis by blast
    next
      case (split q st2)
      have u: "up (internal_max_size (th_header st)) z (q # fs) ((p, ls, k0, rs) # ctx) t1 k t2 =
          up (internal_max_size (th_header st)) z fs ctx (GNode p (take ?m ?cs)) (fst (?cs ! ?m))
            (GNode q (drop ?m ?cs))" for z fs
        using False by (simp only: up.simps Let_def if_False list.sel)
      have "root_page (th_header st2) = gpage (plug ctx (GNode p (take ?m ?cs)))"
        using Cons.prems(2) by (simp add: c gpage_plug split(3))
      from Cons.IH [OF split(2) this] show ?thesis
        unfolding c split(1,3) gpage.simps u [symmetric] by blast
    qed
  qed
qed

end

end
