(* ===== verification/Bplus_Index.thy ===== *)
theory Bplus_Index
  imports Bplus_Insert
begin

text \<open>
  The index as a sorted list of entries: \<^verbatim>\<open>insert_entry\<close> on the pages of the file refines
  \<open>index_add\<close> on the list the file represents.
\<close>

section \<open>The abstract operation\<close>

fun index_add :: "(key \<Rightarrow> key \<Rightarrow> int) \<Rightarrow> key \<times> rid \<Rightarrow> (key \<times> rid) list \<Rightarrow> (key \<times> rid) list" where
  "index_add cmp e [] = [e]"
| "index_add cmp e (x # xs) = (if cmp (fst x) (fst e) < 0 then x # index_add cmp e xs else e # x # xs)"

definition index_has :: "(key \<Rightarrow> key \<Rightarrow> int) \<Rightarrow> key \<Rightarrow> (key \<times> rid) list \<Rightarrow> bool" where
  "index_has cmp k es \<longleftrightarrow> (\<exists>x\<in>set es. cmp (fst x) k = 0)"

lemma index_add_append:
  "(\<And>x. x \<in> set xs \<Longrightarrow> cmp (fst x) (fst e) < 0) \<Longrightarrow> index_add cmp e (xs @ ys) = xs @ index_add cmp e ys"
  by (induction xs) auto

context index_order
begin

abbreviation sorted_entries :: "(key \<times> 'v) list \<Rightarrow> bool" where
  "sorted_entries \<equiv> sorted_wrt (\<lambda>x y. cmp (fst x) (fst y) < 0)"

abbreviation position :: "key \<Rightarrow> (key \<times> 'v) list \<Rightarrow> nat" where
  "position k \<equiv> rank (\<lambda>it. cmp (fst it)) k"

lemma index_add_front: "(\<And>x. x \<in> set ys \<Longrightarrow> cmp (fst e) (fst x) < 0) \<Longrightarrow> index_add cmp e ys = e # ys"
proof (cases ys)
  case (Cons y ys')
  assume "\<And>x. x \<in> set ys \<Longrightarrow> cmp (fst e) (fst x) < 0"
  then have "cmp (fst e) (fst y) < 0" by (simp add: Cons)
  then have "\<not> cmp (fst y) (fst e) < 0" using cmp_flip [of "fst e" "fst y"] by linarith
  then show ?thesis by (simp add: Cons)
qed simp

lemma index_add_around:
  assumes "sorted_entries xs" "\<not> index_has cmp k xs"
    "\<And>x. x \<in> set L \<Longrightarrow> cmp (fst x) k < 0" "\<And>x. x \<in> set R \<Longrightarrow> cmp k (fst x) < 0"
  shows "index_add cmp (k, r) (L @ xs @ R) = L @ insert_at (position k xs) [(k, r)] xs @ R"
proof -
  let ?i = "position k xs"
  from assms(2) have "\<forall>x\<in>set xs. cmp (fst x) k \<noteq> 0" by (auto simp: index_has_def)
  note split = rank_split [OF assms(1) this]
  have "index_add cmp (k, r) ((L @ take ?i xs) @ drop ?i xs @ R) =
      (L @ take ?i xs) @ index_add cmp (k, r) (drop ?i xs @ R)"
    using assms(3) split(1) by (intro index_add_append) auto
  also have "index_add cmp (k, r) (drop ?i xs @ R) = (k, r) # drop ?i xs @ R"
    using assms(4) split(2) by (intro index_add_front) auto
  finally have "index_add cmp (k, r) (L @ take ?i xs @ drop ?i xs @ R) =
      L @ insert_at ?i [(k, r)] xs @ R" by (simp add: insert_at_def)
  moreover have "take ?i xs @ drop ?i xs @ R = xs @ R" by (simp flip: append_assoc)
  ultimately show ?thesis by simp
qed

lemma leaf_insert_sorted:
  assumes "sorted_entries xs" "\<not> index_has cmp k xs"
  shows "sorted_entries (insert_at (position k xs) [(k, r)] xs)"
proof -
  let ?i = "position k xs"
  from assms(2) have "\<forall>x\<in>set xs. cmp (fst x) k \<noteq> 0" by (auto simp: index_has_def)
  note split = rank_split [OF assms(1) this]
  have "sorted_entries (take ?i xs @ drop ?i xs)" using assms(1) by simp
  then have "sorted_entries (take ?i xs)" "sorted_entries (drop ?i xs)"
    "\<forall>x\<in>set (take ?i xs). \<forall>y\<in>set (drop ?i xs). cmp (fst x) (fst y) < 0"
    unfolding sorted_wrt_append by blast+
  with split show ?thesis by (simp add: insert_at_def sorted_wrt_append)
qed

lemma set_insert_at: "set (insert_at i ys xs) = set ys \<union> set xs"
  using set_append [of "take i xs" "drop i xs"] by (auto simp: insert_at_def)

lemma leaf_insert_gord:
  assumes "gord cmp lo hi (GLeaf p nx xs)" "\<not> index_has cmp k xs" "at_least cmp lo k" "strictly_below cmp hi k"
  shows "gord cmp lo hi (GLeaf p nx' (insert_at (position k xs) [(k, r)] xs))"
  using assms leaf_insert_sorted [of xs k r] by (auto simp: set_insert_at)

lemma leaf_cut_gord:
  assumes "gord cmp lo hi (GLeaf p nx xs)" "0 < m" "m < length xs"
  shows "gord cmp lo (Some (fst (xs ! m))) (GLeaf p nx1 (take m xs))"
    "gord cmp (Some (fst (xs ! m))) hi (GLeaf q nx2 (drop m xs))"
    "strictly_above cmp lo (fst (xs ! m))" "strictly_below cmp hi (fst (xs ! m))"
proof -
  have parts: "xs = take m xs @ xs ! m # drop (Suc m) xs" and d: "drop m xs = xs ! m # drop (Suc m) xs"
    using assms(3) by (simp_all add: id_take_nth_drop Cons_nth_drop_Suc)
  have "sorted_entries (take m xs @ xs ! m # drop (Suc m) xs)"
    using assms(1) parts by simp
  then have s: "sorted_entries (take m xs)" "sorted_entries (xs ! m # drop (Suc m) xs)"
    "\<forall>x\<in>set (take m xs). cmp (fst x) (fst (xs ! m)) < 0"
    unfolding sorted_wrt_append by auto
  have b: "\<And>x. x \<in> set xs \<Longrightarrow> at_least cmp lo (fst x) \<and> strictly_below cmp hi (fst x)"
    using assms(1) by simp
  have mem: "xs ! m \<in> set xs" "hd xs \<in> set xs" "hd xs \<in> set (take m xs)"
    using assms(2,3) by (cases xs; cases m; simp)+
  show "gord cmp lo (Some (fst (xs ! m))) (GLeaf p nx1 (take m xs))"
    using s b by (auto simp: strictly_below_def dest: in_set_takeD)
  show "gord cmp (Some (fst (xs ! m))) hi (GLeaf q nx2 (drop m xs))"
    using s(2) b b [OF mem(1)] by (auto simp: d at_least_def cmp_refl dest: in_set_dropD intro: less_imp_le)
  show "strictly_below cmp hi (fst (xs ! m))" using b mem by blast
  show "strictly_above cmp lo (fst (xs ! m))"
  proof (cases lo)
    case (Some l)
    then have "cmp l (fst (hd xs)) \<le> 0" using b [OF mem(2)] by (simp add: at_least_def)
    with s(3) mem(3) have "cmp l (fst (xs ! m)) < 0"
      using le_lt_trans [of l "fst (hd xs)"] by (auto simp: le_def lt_def)
    then show ?thesis by (simp add: Some strictly_above_def)
  qed (simp add: strictly_above_def)
qed

end

section \<open>A full leaf\<close>

lemma insert_at_halves:
  assumes "i \<le> length xs" "m0 \<le> length xs"
  shows "i < m0 \<Longrightarrow> insert_at i [e] (take m0 xs) = take (m0 + 1) (insert_at i [e] xs) \<and>
      drop m0 xs = drop (m0 + 1) (insert_at i [e] xs)"
    "m0 \<le> i \<Longrightarrow> take m0 xs = take m0 (insert_at i [e] xs) \<and>
      insert_at (i - m0) [e] (drop m0 xs) = drop m0 (insert_at i [e] xs)"
proof -
  assume "i < m0"
  then obtain j where j: "m0 = i + 1 + j" by (metis add.assoc add.commute less_imp_Suc_add plus_1_eq_Suc)
  have "take (Suc j) (drop i xs) = drop i (take m0 xs)" by (simp add: j drop_take)
  then show "insert_at i [e] (take m0 xs) = take (m0 + 1) (insert_at i [e] xs) \<and>
      drop m0 xs = drop (m0 + 1) (insert_at i [e] xs)"
    using assms by (simp add: insert_at_def j add.commute)
next
  assume "m0 \<le> i"
  with assms show "take m0 xs = take m0 (insert_at i [e] xs) \<and>
      insert_at (i - m0) [e] (drop m0 xs) = drop m0 (insert_at i [e] xs)"
    by (simp add: insert_at_def min_def drop_take)
qed

lemma leaf_split_run:
  assumes leaf: "th_pages st p = Some (LeafNode par nx xs)" and pool: "pool_ok st ps" "p \<in> set ps"
    and lookup: "leaf_lookup cmp (LeafNode par nx xs) k = (i, False)" "i \<le> length xs"
    and n: "n = length xs" "\<not> n < leaf_max_size (th_header st)" "2 \<le> n"
    and xs': "xs' = insert_at i [(k, r)] xs"
    and m: "m = (if i < n div 2 then n div 2 + 1 else n div 2)"
  obtains (full) st1 where "insert_entry_into_leaf_node cmp p k r st = Some (BUFFERPOOL_NOBUF, st1)"
      "live_pages (th_pool st1) = {..<MAX_PAGE_NUM}"
  | (split) q st5 where "insert_entry_into_leaf_node cmp p k r st =
        insert_entry_into_parent cmp p q (fst (xs' ! m)) st5"
      "pool_ok st5 (q # ps)" "th_header st5 = th_header st"
      "th_pages st5 p = Some (LeafNode par q (take m xs'))"
      "th_pages st5 q = Some (LeafNode par nx (drop m xs'))"
      "\<And>u. u \<noteq> p \<Longrightarrow> u \<noteq> q \<Longrightarrow> th_pages st5 u = th_pages st u"
  using pool(1)
proof (cases rule: tree_allocate_cases)
  case (full st1)
  with leaf lookup n show thesis
    by (intro that(1)) (simp_all add: insert_entry_into_leaf_node_def max_size_def split_leaf_def)
next
  case (page q st1)
  let ?m0 = "length xs div 2"
  have pq: "p \<noteq> q" using page(2) pool(2) by auto
  have leaf1: "th_pages st1 p = Some (LeafNode par nx xs)" using page(7) [OF pq] leaf by simp
  from split_leaf_pages [OF page(1) pq leaf1 page(6)] obtain st2 where
    st2: "split_leaf p st = (SUCCESS, Some q, st2)" "th_pool st2 = th_pool st1" "th_header st2 = th_header st1"
    and P2: "th_pages st2 = (th_pages st1)(p \<mapsto> LeafNode par nx (take ?m0 xs),
      q \<mapsto> LeafNode par BP_INVALID_PAGE_NUM (drop ?m0 xs))" by blast
  define st4 where "st4 = set_next_page p q (set_parent_page_num q par (set_next_page q nx st2))"
  have P4: "th_pages st4 = (th_pages st1)(p \<mapsto> LeafNode par q (take ?m0 xs), q \<mapsto> LeafNode par nx (drop ?m0 xs))"
    using pq by (simp add: st4_def P2 page_ops fun_eq_iff)
  define st5 where "st5 = (if i < ?m0 then leaf_insert p i k r st4 else leaf_insert q (i - ?m0) k r st4)"
  have m0: "?m0 \<le> length xs" "n div 2 = ?m0" using n by auto
  note halves = insert_at_halves [OF lookup(2) m0(1), of "(k, r)", folded xs']
  have P5: "th_pages st5 p = Some (LeafNode par q (take m xs'))"
    "th_pages st5 q = Some (LeafNode par nx (drop m xs'))"
    "\<And>u. u \<noteq> p \<Longrightarrow> u \<noteq> q \<Longrightarrow> th_pages st5 u = th_pages st1 u"
    using pq halves by (cases "i < ?m0"; simp add: st5_def P4 page_ops m m0(2))+
  have "m < length xs'" using n lookup(2) by (auto simp: m xs' insert_at_def)
  then have key: "fst (leaf_items (node_at st5 q) ! 0) = fst (xs' ! m)" by (simp add: P5)
  have sizes: "node_size (node_at st4 p) = ?m0" using pq by (simp add: P4)
  have fields: "next_brother (node_at st2 p) = nx" "node_parent (node_at (set_next_page q nx st2) p) = par"
    using pq by (simp_all add: P2 set_next_page_def)
  have run: "insert_entry_into_leaf_node cmp p k r st = insert_entry_into_parent cmp p q (fst (xs' ! m)) st5"
    using leaf lookup(1) n st2(1) key sizes fields
    by (cases "i < ?m0")
      (simp_all add: insert_entry_into_leaf_node_def max_size_def Let_def st5_def flip: st4_def)
  have "th_pool st5 = th_pool st1" "th_header st5 = th_header st"
    using st2(2,3) page(5) by (simp_all add: st5_def st4_def)
  then show thesis
    using that(2) [OF run _ _ P5(1,2)] P5(3) page(4,7) pool_ok_cong [of st5 st1] by simp
qed

context index_order
begin

section \<open>Inserting at the leaf that was found\<close>

lemma leaf_found:
  assumes "tree_inv cmp st (plug ctx (GLeaf p nx xs))"
  shows "th_pages st p = Some (LeafNode (hpar ctx) nx xs)" "gord cmp (hlo ctx) (hhi ctx) (GLeaf p nx xs)"
    "stored (th_pages st) (cflat ctx p)" "pool_ok st (p # cpages ctx)"
    "leaf_lookup cmp (LeafNode (hpar ctx) nx xs) k = (position k xs, index_has cmp k xs)"
proof -
  show leaf: "th_pages st p = Some (LeafNode (hpar ctx) nx xs)" "stored (th_pages st) (cflat ctx p)"
    using assms by (simp_all add: tree_inv_def stored_flat_plug)
  show ord: "gord cmp (hlo ctx) (hhi ctx) (GLeaf p nx xs)"
    using assms by (intro gord_hole) (simp add: tree_inv_def)
  have "pool_ok st (gpages (plug ctx (GLeaf p nx xs)))" using assms by (simp add: tree_inv_def)
  then show "pool_ok st (p # cpages ctx)" by (rule pool_ok_perm) (simp add: gpages_plug)
  show "leaf_lookup cmp (LeafNode (hpar ctx) nx xs) k = (position k xs, index_has cmp k xs)"
    using leaf_lookup_rank [of xs "hpar ctx" nx k] ord by (simp add: index_has_def)
qed

lemma length_insert_at [simp]: "length (insert_at i ys xs) = length ys + length xs"
  by (simp add: insert_at_def)

lemma insert_leaf_room:
  assumes inv: "tree_inv cmp st (plug ctx (GLeaf p nx xs))"
    and k: "at_least cmp (hlo ctx) k" "strictly_below cmp (hhi ctx) k" "\<not> index_has cmp k xs"
    and room: "length xs < leaf_max_size (th_header st)"
    and xs': "xs' = insert_at (position k xs) [(k, r)] xs"
  obtains st1 where "insert_entry_into_leaf_node cmp p k r st = Some (SUCCESS, st1)"
    "tree_inv cmp st1 (plug ctx (GLeaf p nx xs'))" "th_header st1 = th_header st"
proof -
  note leaf = leaf_found [OF inv]
  define st1 where "st1 = leaf_insert p (position k xs) k r st"
  have run: "insert_entry_into_leaf_node cmp p k r st = Some (SUCCESS, st1)"
    using leaf(1) leaf(5) [of k] k(3) room
    by (simp add: insert_entry_into_leaf_node_def Let_def max_size_def st1_def)
  have P: "th_pages st1 = (th_pages st)(p \<mapsto> LeafNode (hpar ctx) nx xs')"
    using leaf(1) by (simp add: st1_def xs' page_ops)
  have same: "th_pool st1 = th_pool st" "th_header st1 = th_header st" by (simp_all add: st1_def)
  have "p \<notin> set (cpages ctx)" using pool_ok_distinct [OF leaf(4)] by simp
  then have "stored (th_pages st1) (flat BP_INVALID_PAGE_NUM (plug ctx (GLeaf p nx xs')))"
    using leaf(3) by (simp add: stored_flat_plug P stored_fun_upd fst_cflat flip: set_map)
  moreover have "gord cmp None None (plug ctx (GLeaf p nx xs'))"
  proof (rule gord_replace)
    show "gord cmp None None (plug ctx (GLeaf p nx xs))" using inv by (simp add: tree_inv_def)
    show "gord cmp (hlo ctx) (hhi ctx) (GLeaf p nx xs')"
      unfolding xs' by (rule leaf_insert_gord [OF leaf(2) k(3,1,2)])
  qed
  moreover have "pool_ok st1 (gpages (plug ctx (GLeaf p nx xs')))"
    unfolding pool_ok_cong [OF same(1)] by (rule pool_ok_perm [OF leaf(4)]) (simp add: gpages_plug)
  moreover have "\<exists>d. root_shape (th_header st1) d (plug ctx (GLeaf p nx xs'))"
    using inv room by (auto simp: tree_inv_def gshape_plug same xs' split: if_splits)
  ultimately have "tree_inv cmp st1 (plug ctx (GLeaf p nx xs'))"
    using inv by (auto simp: tree_inv_def same gleaves_plug gpage_plug)
  with that run same show thesis by blast
qed

lemma cshape_sizes:
  "cshape lmin lmax imin imax d ctx \<Longrightarrow> \<forall>(p, ls, k, rs)\<in>set ctx. length ls + 1 + length rs \<le> imax"
  by (induction lmin lmax imin imax d ctx rule: cshape.induct) auto

lemma leaf_split_ready:
  assumes inv: "tree_inv cmp st (plug ctx (GLeaf p nx xs))"
    and k: "at_least cmp (hlo ctx) k" "strictly_below cmp (hhi ctx) k" "\<not> index_has cmp k xs"
    and xs': "xs' = insert_at (position k xs) [(k, r)] xs" and m: "0 < m" "m < length xs'"
    and st: "pool_ok st5 (q # p # cpages ctx)" "th_header st5 = th_header st"
      "th_pages st5 p = Some (LeafNode (hpar ctx) q (take m xs'))"
      "th_pages st5 q = Some (LeafNode (hpar ctx) nx (drop m xs'))"
      "\<And>u. u \<noteq> p \<Longrightarrow> u \<noteq> q \<Longrightarrow> th_pages st5 u = th_pages st u"
  shows "up_ready st5 ctx (GLeaf p q (take m xs')) (fst (xs' ! m)) (GLeaf q nx (drop m xs'))"
proof -
  note leaf = leaf_found [OF inv]
  have "gord cmp (hlo ctx) (hhi ctx) (GLeaf p nx xs')"
    unfolding xs' by (rule leaf_insert_gord [OF leaf(2) k(3,1,2)])
  note cut = leaf_cut_gord [OF this m]
  have "p \<notin> set (cpages ctx)" "q \<notin> set (cpages ctx)" using pool_ok_distinct [OF st(1)] by auto
  then have "u \<noteq> p \<and> u \<noteq> q" if "u \<in> set (cpages ctx)" for u using that by auto
  then have outer: "stored (th_pages st5) (cflat ctx p)"
    by (intro stored_keep [OF leaf(3)] st(5); unfold fst_cflat; blast)
  have pool: "pool_ok st5 ([p] @ [q] @ cpages ctx)" by (rule pool_ok_perm [OF st(1)]) simp
  have "\<exists>d. cshape (leaf_max_size (th_header st) div 2) (leaf_max_size (th_header st))
      (internal_max_size (th_header st) div 2) (internal_max_size (th_header st)) d ctx"
    using inv by (auto simp: tree_inv_def gshape_plug)
  then have "\<forall>(p, ls, k, rs)\<in>set ctx. length ls + 1 + length rs \<le> internal_max_size (th_header st)"
    using cshape_sizes by blast
  moreover have "sizes_ok (th_header st)" "gord cmp None None (plug ctx (GLeaf p nx xs))"
    using inv by (simp_all add: tree_inv_def)
  ultimately show ?thesis
    using pool outer st(2-4) cut(3,4) cut(1) [of q] cut(2) [of q nx] by (auto simp: up_ready_def)
qed

lemma chained_split:
  assumes "chained (L @ (p, nx) # R) e"
  shows "chained (L @ (p, q) # (q, nx) # R) e"
proof -
  have step: "chained (x # xs) e \<longleftrightarrow> snd x = hd (map fst xs @ [e]) \<and> chained xs e" for x xs
    using chained_append [of "[x]" xs e] by simp
  show ?thesis using assms by (simp add: chained_append step)
qed

lemma split_tree_inv:
  assumes inv: "tree_inv cmp st (plug ctx (GLeaf p nx xs))"
    and ready: "up_ready st5 ctx (GLeaf p q xs1) k (GLeaf q nx xs2)"
    and shape: "node_shape (th_header st) 0 (GLeaf p q xs1)" "node_shape (th_header st) 0 (GLeaf q nx xs2)"
    and t: "t = up (internal_max_size (th_header st)) z fs ctx (GLeaf p q xs1) k (GLeaf q nx xs2)"
    and st1: "stored (th_pages st1) (flat BP_INVALID_PAGE_NUM t)" "pool_ok st1 (gpages t)"
      "th_header st1 = (th_header st)\<lparr>root_page := gpage t\<rparr>"
  shows "tree_inv cmp st1 t"
proof -
  have imax: "2 \<le> internal_max_size (th_header st)" using inv by (simp add: tree_inv_def sizes_ok_def)
  from inv obtain D where "root_shape (th_header st) D (plug ctx (GLeaf p nx xs))"
    by (auto simp: tree_inv_def)
  then obtain d where "cshape (leaf_max_size (th_header st) div 2) (leaf_max_size (th_header st))
      (internal_max_size (th_header st) div 2) (internal_max_size (th_header st)) d ctx" "d = 0"
    by (auto simp: gshape_plug split: if_splits)
  with up_shape [OF _ shape imax] have "\<exists>D. root_shape (th_header st) D t" by (simp add: t)
  moreover have "gord cmp None None t" unfolding t
    using inv ready imax by (intro up_gord [where ?t0.0 = "GLeaf p nx xs"]) (simp_all add: tree_inv_def up_ready_def)
  moreover have "chained (gleaves t) BP_INVALID_PAGE_NUM"
    using inv chained_split [of "leaves_left ctx" p nx "leaves_right ctx"]
    by (simp add: t up_leaves tree_inv_def gleaves_plug)
  ultimately show ?thesis using inv st1 by (simp add: tree_inv_def sizes_ok_def)
qed

lemma insert_leaf_full:
  assumes inv: "tree_inv cmp st (plug ctx (GLeaf p nx xs))"
    and k: "at_least cmp (hlo ctx) k" "strictly_below cmp (hhi ctx) k" "\<not> index_has cmp k xs"
    and no_room: "\<not> length xs < leaf_max_size (th_header st)"
    and xs': "xs' = insert_at (position k xs) [(k, r)] xs"
  obtains (full) st1 where "insert_entry_into_leaf_node cmp p k r st = Some (BUFFERPOOL_NOBUF, st1)"
      "live_pages (th_pool st1) = {..<MAX_PAGE_NUM}"
  | (split) st1 t where "insert_entry_into_leaf_node cmp p k r st = Some (SUCCESS, st1)"
      "tree_inv cmp st1 t" "gentries t = entries_left ctx @ xs' @ entries_right ctx"
      "th_header st1 = (th_header st) \<lparr> root_page := gpage t \<rparr>"
proof -
  note leaf = leaf_found [OF inv]
  let ?n = "length xs"
  define i where "i = position k xs"
  define m where "m = (if i < ?n div 2 then ?n div 2 + 1 else ?n div 2)"
  have n: "?n = leaf_max_size (th_header st)" "2 \<le> ?n"
    using inv no_room by (auto simp: tree_inv_def sizes_ok_def gshape_plug split: if_splits)
  have i: "leaf_lookup cmp (LeafNode (hpar ctx) nx xs) k = (i, False)" "i \<le> length xs"
    using leaf(5) [of k] k(3) by (simp_all add: i_def)
  have m: "0 < m" "m < length xs'" "?n div 2 \<le> m" "m \<le> ?n" "?n div 2 \<le> ?n + 1 - m" "?n + 1 - m \<le> ?n"
    using n(2) by (auto simp: m_def xs')
  have "p \<in> set (p # cpages ctx)" by simp
  from leaf(1,4) this i refl no_room n(2) xs' [folded i_def] m_def show thesis
  proof (cases rule: leaf_split_run)
    case (split q st5)
    let ?t1 = "GLeaf p q (take m xs')" and ?t2 = "GLeaf q nx (drop m xs')"
    have ready: "up_ready st5 ctx ?t1 (fst (xs' ! m)) ?t2"
      by (rule leaf_split_ready [OF inv k xs' m(1,2) split(2-6)])
    have root: "root_page (th_header st5) = gpage (plug ctx ?t1)"
      using inv by (simp add: tree_inv_def split(3) gpage_plug)
    have shapes: "node_shape (th_header st) 0 ?t1" "node_shape (th_header st) 0 ?t2"
      using m n by (simp_all add: xs')
    from insert_into_parent_runs [OF ready root] show thesis
    proof (elim disjE exE conjE)
      fix st1 fs t
      assume run: "insert_entry_into_parent cmp (gpage ?t1) (gpage ?t2) (fst (xs' ! m)) st5 = Some (SUCCESS, st1)"
        and t: "t = up (internal_max_size (th_header st5)) (zero_key (attr_length (th_header st5))) fs ctx
          ?t1 (fst (xs' ! m)) ?t2"
        and st1: "stored (th_pages st1) (flat BP_INVALID_PAGE_NUM t)" "pool_ok st1 (gpages t)"
          "th_header st1 = (th_header st5)\<lparr>root_page := gpage t\<rparr>"
      have "tree_inv cmp st1 t"
        by (rule split_tree_inv [OF inv ready shapes]) (use t st1 split(3) in simp_all)
      moreover have "gentries t = entries_left ctx @ xs' @ entries_right ctx"
        by (simp add: t up_entries flip: append_assoc)
      ultimately show thesis using that(2) [of st1 t] run split(1) st1(3) split(3) by simp
    qed (use that(1) split(1) in auto)
  qed (use that(1) in auto)
qed

section \<open>Inserting into the index\<close>

lemma index_has_around:
  assumes "\<And>x. x \<in> set L \<Longrightarrow> cmp (fst x) k < 0" "\<And>x. x \<in> set R \<Longrightarrow> cmp k (fst x) < 0"
  shows "index_has cmp k (L @ xs @ R) \<longleftrightarrow> index_has cmp k xs"
proof -
  have "cmp (fst x) k \<noteq> 0" if "x \<in> set L" for x using assms(1) [OF that] by simp
  moreover have "cmp (fst x) k \<noteq> 0" if "x \<in> set R" for x
    using assms(2) [OF that] cmp_flip [of k "fst x"] by simp
  ultimately show ?thesis by (auto simp: index_has_def)
qed

lemma index_rep_tree: "index_rep cmp st es \<Longrightarrow> es \<noteq> [] \<Longrightarrow> \<exists>t. tree_inv cmp st t \<and> gentries t = es"
  by (simp add: index_rep_def)

lemma tree_inv_rep: "tree_inv cmp st t \<Longrightarrow> gentries t = es \<Longrightarrow> index_rep cmp st es"
  using gentries_nonempty by (fastforce simp: index_rep_def tree_inv_def sizes_ok_def)

lemma create_new_tree_rep:
  assumes "index_rep cmp st []"
  obtains (full) st1 where "create_new_tree k r st = (BUFFERPOOL_NOBUF, st1)"
      "live_pages (th_pool st1) = {..<MAX_PAGE_NUM}"
  | (tree) st1 where "create_new_tree k r st = (SUCCESS, st1)" "index_rep cmp st1 [(k, r)]"
      "\<exists>p. th_header st1 = (th_header st) \<lparr> root_page := p \<rparr>"
proof -
  from assms have empty: "root_page (th_header st) = BP_INVALID_PAGE_NUM" "sizes_ok (th_header st)"
    and pool: "pool_ok st []" by (simp_all add: index_rep_def)
  from pool show thesis
  proof (cases rule: tree_allocate_cases)
    case (full st1)
    with empty that(1) show thesis by (simp add: create_new_tree_def)
  next
    case (page p st1)
    define st2 where "st2 = update_root_page_num_locked p (leaf_insert p 0 k r (leaf_init_empty p st1))"
    have run: "create_new_tree k r st = (SUCCESS, st2)"
      using empty(1) page(1) by (simp add: create_new_tree_def st2_def)
    obtain n where "th_pages st1 p = Some n" using page(6) by blast
    then have "th_pages st2 p = Some (LeafNode BP_INVALID_PAGE_NUM BP_INVALID_PAGE_NUM [(k, r)])"
      by (simp add: st2_def page_ops)
    moreover have "pool_ok st2 [p]" using page(4) pool_ok_cong [of st2 st1] by (simp add: st2_def)
    moreover have header: "th_header st2 = (th_header st) \<lparr> root_page := p \<rparr>" using page(5) by (simp add: st2_def)
    ultimately have "tree_inv cmp st2 (GLeaf p BP_INVALID_PAGE_NUM [(k, r)])"
      using empty(2) by (auto simp: tree_inv_def sizes_ok_def at_least_def strictly_below_def)
    then have "index_rep cmp st2 [(k, r)]" by (rule tree_inv_rep) simp
    with that(2) [OF run] header show thesis by blast
  qed
qed

lemma insert_entry_duplicate:
  assumes "index_rep cmp st es" "index_has cmp (make_key (attr_length (th_header st)) user_key r) es"
  shows "insert_entry cmp user_key r st = Some (RECORD_DUPLICATE_KEY, st)"
proof -
  let ?k = "make_key (attr_length (th_header st)) user_key r"
  have "es \<noteq> []" using assms(2) by (auto simp: index_has_def)
  from index_rep_tree [OF assms(1) this] obtain t where t: "tree_inv cmp st t" "gentries t = es" by blast
  from find_leaf_reaches [OF t(1), of ?k] obtain ctx p nx xs where
    f: "t = plug ctx (GLeaf p nx xs)" "find_leaf cmp ?k st = Some (SUCCESS, p)"
    "at_least cmp (hlo ctx) ?k" "strictly_below cmp (hhi ctx) ?k" .
  note leaf = leaf_found [OF t(1) [unfolded f(1)]]
  have "gord cmp None None (plug ctx (GLeaf p nx xs))" using t(1) f(1) by (simp add: tree_inv_def)
  note beside = entry_beside_leaf [OF this f(3,4)]
  have "index_has cmp ?k xs"
    using assms(2) index_has_around [OF beside] by (simp add: f(1) gentries_plug flip: t(2))
  with leaf(1) leaf(5) [of ?k] f(2) tree_inv_not_empty [OF t(1)] show ?thesis
    by (simp add: insert_entry_def Let_def insert_entry_into_leaf_node_def rc_simps)
qed

lemma insert_entry_new:
  assumes "index_rep cmp st es" "\<not> index_has cmp (make_key (attr_length (th_header st)) user_key r) es"
  obtains (full) st1 where "insert_entry cmp user_key r st = Some (BUFFERPOOL_NOBUF, st1)"
      "live_pages (th_pool st1) = {..<MAX_PAGE_NUM}"
  | (added) st1 where "insert_entry cmp user_key r st = Some (SUCCESS, st1)"
      "index_rep cmp st1 (index_add cmp (make_key (attr_length (th_header st)) user_key r, r) es)"
      "\<exists>p. th_header st1 = (th_header st) \<lparr> root_page := p \<rparr>"
proof (cases "es = []")
  case True
  let ?k = "make_key (attr_length (th_header st)) user_key r"
  from assms(1) True have empty: "index_rep cmp st []" "is_empty st"
    by (simp_all add: index_rep_def is_empty_def)
  from empty(1) show thesis
    by (cases rule: create_new_tree_rep [where k = ?k and r = r])
      (use that empty(2) True in \<open>auto simp: insert_entry_def Let_def\<close>)
next
  case False
  let ?k = "make_key (attr_length (th_header st)) user_key r"
  from index_rep_tree [OF assms(1) False] obtain t where t: "tree_inv cmp st t" "gentries t = es" by blast
  from find_leaf_reaches [OF t(1), of ?k] obtain ctx p nx xs where
    f: "t = plug ctx (GLeaf p nx xs)" "find_leaf cmp ?k st = Some (SUCCESS, p)"
    "at_least cmp (hlo ctx) ?k" "strictly_below cmp (hhi ctx) ?k" .
  note inv = t(1) [unfolded f(1)]
  have "gord cmp None None (plug ctx (GLeaf p nx xs))" using inv by (simp add: tree_inv_def)
  note beside = entry_beside_leaf [OF this f(3,4)]
  have es: "es = entries_left ctx @ xs @ entries_right ctx" by (simp add: f(1) gentries_plug flip: t(2))
  have none: "\<not> index_has cmp ?k xs" using assms(2) index_has_around [OF beside] by (simp add: es)
  define xs' where "xs' = insert_at (position ?k xs) [(?k, r)] xs"
  have "sorted_entries xs" using leaf_found(2) [OF inv] by simp
  from index_add_around [OF this none beside] have add:
    "entries_left ctx @ xs' @ entries_right ctx = index_add cmp (?k, r) es" by (simp add: es xs'_def)
  have run: "insert_entry cmp user_key r st = insert_entry_into_leaf_node cmp p ?k r st"
    using f(2) tree_inv_not_empty [OF t(1)] by (simp add: insert_entry_def Let_def rc_simps)
  show thesis
  proof (cases "length xs < leaf_max_size (th_header st)")
    case True
    from insert_leaf_room [OF inv f(3,4) none True xs'_def] obtain st1 where
      st1: "insert_entry_into_leaf_node cmp p ?k r st = Some (SUCCESS, st1)"
      "tree_inv cmp st1 (plug ctx (GLeaf p nx xs'))" "th_header st1 = th_header st" .
    have "index_rep cmp st1 (index_add cmp (?k, r) es)"
      by (rule tree_inv_rep [OF st1(2)]) (simp add: gentries_plug add)
    moreover have "th_header st1 = (th_header st) \<lparr> root_page := root_page (th_header st) \<rparr>"
      by (simp add: st1(3))
    ultimately show thesis using that(2) [of st1] st1(1) run by metis
  next
    case no_room: False
    from inv f(3,4) none no_room xs'_def show thesis
    proof (cases rule: insert_leaf_full)
      case (split st1 t')
      with tree_inv_rep [OF split(2)] add show thesis using that(2) [of st1] run by auto
    qed (use that(1) run in simp)
  qed
qed

end

text \<open>Every order on attribute values gives an index over keys made of a value and a RID.\<close>

sublocale attr_key_order \<subseteq> index: index_order "key_comparator acmp" ..

text \<open>The comparator a handler is opened with.\<close>

definition tree_comparator ::
  "(AttrType \<Rightarrow> byte list \<Rightarrow> byte list \<Rightarrow> int) \<Rightarrow> index_file_header \<Rightarrow> key \<Rightarrow> key \<Rightarrow> int" where
  "tree_comparator fcmp h = key_comparator (attr_comparator fcmp (attr_type h) (attr_length h))"

lemma tree_comparator_order:
  "attr_type h \<in> {INTS, CHARS} \<Longrightarrow> index_order (tree_comparator fcmp h)"
  using int_keys.index.index_order_axioms char_keys.index.index_order_axioms
  by (auto simp: tree_comparator_def)

lemma tree_comparator_root [simp]: "tree_comparator fcmp (h \<lparr> root_page := p \<rparr>) = tree_comparator fcmp h"
  by (simp add: tree_comparator_def)

section \<open>Creating an index\<close>

lemma next_allocation:
  assumes "bp_wf bp" "live_pages bp = {..<n}" "n < MAX_PAGE_NUM"
  obtains bp' where "allocate_page (\<lambda>_. SUCCESS) bp = (SUCCESS, Some n, bp')" "bp_wf bp'"
    "live_pages bp' = {..<Suc n}"
proof -
  have full: "live_pages bp \<noteq> {..<MAX_PAGE_NUM}" using assms(2,3) by auto
  have "next_free bp = n" unfolding next_free_def assms(2) by (rule Least_equality) auto
  with full have a: "allocate_page (\<lambda>_. SUCCESS) bp =
      (SUCCESS, Some n, snd (snd (allocate_page (\<lambda>_. SUCCESS) bp)))"
    by (simp add: allocate_page_eq [OF assms(1)])
  from that [OF a] bp_pages.alloc_some [OF assms(1) a] assms(2) show thesis
    by (auto simp: lessThan_Suc)
qed

lemma page_num_limit [simp]: "1 < MAX_PAGE_NUM" "2 < MAX_PAGE_NUM"
  by (simp_all add: MAX_PAGE_NUM_def BP_PAGE_DATA_SIZE_def BP_PAGE_SIZE_def)

lemma tree_create_empty:
  assumes "bp_wf bp" "live_pages bp = {0}"
    "2 \<le> (if internal_max < 0 then calc_internal_page_capacity alen else nat internal_max)"
    "2 \<le> (if leaf_max < 0 then calc_leaf_page_capacity alen else nat leaf_max)"
  obtains st where "tree_create bp atype alen internal_max leaf_max = (SUCCESS, Some st)"
    "index_rep cmp st []" "attr_type (th_header st) = atype" "attr_length (th_header st) = alen"
proof -
  have "live_pages bp = {..<1}" using assms(2) by auto
  from next_allocation [OF assms(1) this page_num_limit(1)] obtain bp' where
    "allocate_page (\<lambda>_. SUCCESS) bp = (SUCCESS, Some 1, bp')" "bp_wf bp'" "live_pages bp' = {..<Suc 1}" .
  with assms(3,4) that show thesis
    by (simp add: tree_create_def Let_def FIRST_INDEX_PAGE_def index_rep_def sizes_ok_def pool_ok_def)
qed

text \<open>An index with one entry, on pages 0 to 2 of a file.\<close>

definition sample_header :: index_file_header where
  "sample_header = \<lparr> root_page = 2, internal_max_size = 4, leaf_max_size = 4, attr_length = 4,
     key_length = 12, attr_type = INTS \<rparr>"

lemma sample_index_of:
  assumes "root_page h = 2" "2 \<le> leaf_max_size h" "2 \<le> internal_max_size h" "attr_type h \<in> {INTS, CHARS}"
  obtains st where "th_header st = h" "index_rep (tree_comparator fcmp h) st [(Key v r, r)]"
proof -
  have "live_pages (open_new_pool 7) = {..<1}" using open_new_pool_live by auto
  from next_allocation [OF open_new_pool_wf this page_num_limit(1)] obtain bp1 where
    "bp_wf bp1" "live_pages bp1 = {..<Suc 1}" .
  then have bp1: "bp_wf bp1" "live_pages bp1 = {..<2}" by (simp_all add: numeral_2_eq_2)
  from next_allocation [OF bp1 page_num_limit(2)] obtain bp2 where
    bp2: "bp_wf bp2" "live_pages bp2 = {..<Suc 2}" .
  define st where "st = \<lparr> th_pool = bp2,
    th_pages = [2 \<mapsto> LeafNode BP_INVALID_PAGE_NUM BP_INVALID_PAGE_NUM [(Key v r, r)]],
    th_header = h, th_header_page = h, th_log = [] \<rparr>"
  have "index_order (tree_comparator fcmp h)" by (rule tree_comparator_order [OF assms(4)])
  moreover have "tree_inv (tree_comparator fcmp h) st (GLeaf 2 BP_INVALID_PAGE_NUM [(Key v r, r)])"
    using bp2 assms(1-3) by (auto simp: tree_inv_def st_def sizes_ok_def pool_ok_def at_least_def strictly_below_def)
  ultimately have "index_rep (tree_comparator fcmp h) st [(Key v r, r)]"
    using index_order.tree_inv_rep by fastforce
  with that [of st] show thesis by (simp add: st_def)
qed

lemma sample_index:
  obtains st where "th_header st = sample_header"
    "index_rep (tree_comparator fcmp sample_header) st [(Key v r, r)]"
  by (rule sample_index_of [of sample_header]) (simp_all add: sample_header_def)

section \<open>Properties\<close>

text \<open>
  C1: insert_entry implements insertion into a sorted list.  On an index file that represents the
  entries \<open>es\<close>, it always returns; a key already present (same value and same RID) is refused
  with RECORD_DUPLICATE_KEY and nothing changes; otherwise the file afterwards represents \<open>es\<close>
  with the new entry at its place in key order (all B+ tree invariants included: sorted nodes,
  separators, parent pointers, leaf chain, equal depth, node sizes), through any number of leaf
  and internal splits and root growth, and only a completely allocated file makes it fail.
\<close>

theorem insert_entry_refines:
  assumes "attr_type (th_header st) \<in> {INTS, CHARS}"
    "index_rep (tree_comparator fcmp (th_header st)) st es"
  shows "case insert_entry (tree_comparator fcmp (th_header st)) user_key r st of
      None \<Rightarrow> False
    | Some (rc, st') \<Rightarrow>
        let cmp = tree_comparator fcmp (th_header st);
            k = make_key (attr_length (th_header st)) user_key r
        in if index_has cmp k es then rc = RECORD_DUPLICATE_KEY \<and> st' = st
           else if rc = SUCCESS then
             index_rep (tree_comparator fcmp (th_header st')) st' (index_add cmp (k, r) es) \<and>
             tree_comparator fcmp (th_header st') = cmp
           else rc = BUFFERPOOL_NOBUF \<and> live_pages (th_pool st') = {..<MAX_PAGE_NUM}"
proof -
  let ?cmp = "tree_comparator fcmp (th_header st)"
  let ?k = "make_key (attr_length (th_header st)) user_key r"
  note io = tree_comparator_order [OF assms(1), of fcmp]
  show ?thesis
  proof (cases "index_has ?cmp ?k es")
    case True
    with index_order.insert_entry_duplicate [OF io assms(2) True] show ?thesis by (simp add: Let_def)
  next
    case False
    show ?thesis
    proof (cases rule: index_order.insert_entry_new [OF io assms(2) False, case_names full added])
      case (full st1)
      with False show ?thesis by (simp add: Let_def)
    next
      case (added st1)
      then obtain p where "th_header st1 = (th_header st) \<lparr> root_page := p \<rparr>" by blast
      with added False show ?thesis by (simp add: Let_def)
    qed
  qed
qed

theorem insert_entry_refines_witness:
  "\<exists>st. tree_create (open_new_pool 7) INTS 4 (-1) (-1) = (SUCCESS, Some st) \<and>
    (case insert_entry (tree_comparator (\<lambda>_ _ _. 0) (th_header st)) [5, 0, 0, 0] \<lparr> rid_page_num = 1, rid_slot_num = 2 \<rparr> st of
       None \<Rightarrow> False
     | Some (rc, st') \<Rightarrow>
         if rc = SUCCESS then index_rep (tree_comparator (\<lambda>_ _ _. 0) (th_header st')) st'
           [(Key [5, 0, 0, 0] \<lparr> rid_page_num = 1, rid_slot_num = 2 \<rparr>, \<lparr> rid_page_num = 1, rid_slot_num = 2 \<rparr>)]
         else rc = BUFFERPOOL_NOBUF \<and> live_pages (th_pool st') = {..<MAX_PAGE_NUM})"
proof -
  have cap: "2 \<le> calc_internal_page_capacity 4" "2 \<le> calc_leaf_page_capacity 4"
    by (simp_all add: calc_internal_page_capacity_def calc_leaf_page_capacity_def BP_PAGE_DATA_SIZE_def
        BP_PAGE_SIZE_def RID_SIZE_def PAGE_NUM_SIZE_def INTERNAL_HEADER_SIZE_def LEAF_HEADER_SIZE_def)
  have cmp: "index_rep (key_comparator (attr_comparator (\<lambda>_ _ _. 0) INTS 4)) st [] \<Longrightarrow>
      attr_type (th_header st) = INTS \<Longrightarrow> attr_length (th_header st) = 4 \<Longrightarrow>
      index_rep (tree_comparator (\<lambda>_ _ _. 0) (th_header st)) st []" for st
    by (simp add: tree_comparator_def)
  from tree_create_empty [OF open_new_pool_wf open_new_pool_live, of "-1" 4 "-1" 7 INTS
      "key_comparator (attr_comparator (\<lambda>_ _ _. 0) INTS 4)"] cap obtain st where
    st: "tree_create (open_new_pool 7) INTS 4 (-1) (-1) = (SUCCESS, Some st)"
    "index_rep (tree_comparator (\<lambda>_ _ _. 0) (th_header st)) st []"
    "attr_type (th_header st) = INTS" "attr_length (th_header st) = 4" using cmp by auto
  from st insert_entry_refines [OF _ st(2), of "[5, 0, 0, 0]" "\<lparr> rid_page_num = 1, rid_slot_num = 2 \<rparr>"] show ?thesis
    by (intro exI [of _ st])
      (auto simp: index_has_def make_key_def Let_def split: option.splits prod.splits if_splits)
qed

end
