(* ===== verification/Bplus_Scan.thy ===== *)
theory Bplus_Scan
  imports Bplus_Index
begin

text \<open>
  Range scans over the index: the class \<^verbatim>\<open>BplusTreeScanner\<close> and \<^verbatim>\<open>get_entry\<close> of
  \<^verbatim>\<open>bplus_tree.cpp\<close>.  The outcome of \<^verbatim>\<open>try_slatch\<close> on the next leaf is the parameter
  \<open>try_slatch\<close>: it depends on the other threads.  A scan visits exactly the entries between its
  bounds, in key order.
\<close>

section \<open>Model\<close>

record scanner =
  sc_inited :: bool
  current_frame :: "page_num option"
  right_key :: "key option"
  iter_index :: int
  first_emitted :: bool

definition scanner_init :: scanner where
  "scanner_init = \<lparr> sc_inited = False, current_frame = None, right_key = None, iter_index = - 1,
     first_emitted = False \<rparr>"

text \<open>The result is the fixed key and whether the bound has become inclusive.\<close>

definition fix_user_key :: "nat \<Rightarrow> byte list \<Rightarrow> nat \<Rightarrow> bool \<Rightarrow> byte list \<times> bool" where
  "fix_user_key attr_len user_key key_len want_greater =
    (if key_len \<le> attr_len then (take key_len user_key @ replicate (attr_len - key_len) 0, False)
     else
       let key_buf = take attr_len user_key
       in if user_key ! attr_len = 0 then (key_buf, False)
          else (if want_greater then key_buf[attr_len - 1 := key_buf ! (attr_len - 1) + 1] else key_buf, True))"

definition fetch_item :: "tree_handler \<Rightarrow> scanner \<Rightarrow> rid" where
  "fetch_item st s = snd (leaf_items (node_at st (the (current_frame s))) ! nat (iter_index s))"

definition touch_end :: "(key \<Rightarrow> key \<Rightarrow> int) \<Rightarrow> tree_handler \<Rightarrow> scanner \<Rightarrow> bool" where
  "touch_end cmp st s =
    (case right_key s of
       None \<Rightarrow> False
     | Some rk \<Rightarrow>
         cmp (fst (leaf_items (node_at st (the (current_frame s))) ! nat (iter_index s))) rk > 0)"

text \<open>The left bound: its key, and the page and the index the scan starts at, or no frame when nothing follows.\<close>

definition open_left_key :: "byte list \<times> nat \<Rightarrow> bool \<Rightarrow> index_file_header \<Rightarrow> key" where
  "open_left_key left left_inclusive h =
    (let (user_key, key_len) = left;
         (fixed, should_inclusive) =
           (if attr_type h = CHARS then fix_user_key (attr_length h) user_key key_len True
            else (user_key, False))
     in make_key (attr_length h) fixed (if left_inclusive \<or> should_inclusive then rid_min else rid_max))"

definition open_left ::
  "(key \<Rightarrow> key \<Rightarrow> int) \<Rightarrow> (byte list \<times> nat) option \<Rightarrow> bool \<Rightarrow> tree_handler \<Rightarrow>
   (RC \<times> (page_num \<times> int) option) option" where
  "open_left cmp left left_inclusive st =
    (case left of
       None \<Rightarrow>
         Option.bind (left_most_page st) (\<lambda>(rc, p).
           Some (if OB_FAIL rc then if rc = EMPTY then (SUCCESS, None) else (rc, None)
                 else (SUCCESS, Some (p, 0))))
     | Some (user_key, key_len) \<Rightarrow>
         let left_key = open_left_key (user_key, key_len) left_inclusive (th_header st)
         in Option.bind (find_leaf cmp left_key st) (\<lambda>(rc, p).
              Some (if rc = EMPTY then (SUCCESS, None)
                    else if OB_FAIL rc then (rc, None)
                    else
                      let left_node = node_at st p;
                          left_index = fst (leaf_lookup cmp left_node left_key)
                      in if left_index \<ge> node_size left_node then
                           let next_page_num = next_brother left_node
                           in if next_page_num = BP_INVALID_PAGE_NUM then (SUCCESS, None)
                              else if th_pages st next_page_num = None then (IOERR_READ, None)
                              else (SUCCESS, Some (next_page_num, 0))
                         else (SUCCESS, Some (p, int left_index)))))"

definition open_right_key :: "byte list \<times> nat \<Rightarrow> bool \<Rightarrow> index_file_header \<Rightarrow> key" where
  "open_right_key right right_inclusive h =
    (let (user_key, key_len) = right;
         (fixed, should_inclusive) =
           (if attr_type h = CHARS then fix_user_key (attr_length h) user_key key_len False
            else (user_key, False))
     in make_key (attr_length h) fixed (if right_inclusive \<or> should_inclusive then rid_max else rid_min))"

definition scanner_open ::
  "(byte list \<Rightarrow> byte list \<Rightarrow> int) \<Rightarrow> (byte list \<times> nat) option \<Rightarrow> bool \<Rightarrow>
   (byte list \<times> nat) option \<Rightarrow> bool \<Rightarrow> tree_handler \<Rightarrow> scanner \<Rightarrow> (RC \<times> scanner) option" where
  "scanner_open acmp left left_inclusive right right_inclusive st s =
    (if sc_inited s then Some (INTERNAL, s)
     else
       let s1 = s \<lparr> sc_inited := True, first_emitted := False \<rparr>;
           bad_range = (case (left, right) of
               (Some (lk, _), Some (rk, _)) \<Rightarrow>
                 acmp lk rk > 0 \<or> acmp lk rk = 0 \<and> (\<not> left_inclusive \<or> \<not> right_inclusive)
             | _ \<Rightarrow> False)
       in if bad_range then Some (INVALID_ARGUMENT, s1)
          else
            Option.bind (open_left (key_comparator acmp) left left_inclusive st) (\<lambda>(rc, start).
              Some (if OB_FAIL rc then (rc, s1)
                    else case start of
                      None \<Rightarrow> (SUCCESS, s1 \<lparr> current_frame := None \<rparr>)
                    | Some (p, i) \<Rightarrow>
                        let s2 = s1 \<lparr> current_frame := Some p, iter_index := i,
                                   right_key := map_option (\<lambda>r. open_right_key r right_inclusive (th_header st)) right \<rparr>
                        in (SUCCESS, if touch_end (key_comparator acmp) st s2
                                     then s2 \<lparr> current_frame := None \<rparr> else s2))))"

partial_function (option) next_entry ::
  "(key \<Rightarrow> key \<Rightarrow> int) \<Rightarrow> (page_num \<Rightarrow> bool) \<Rightarrow> tree_handler \<Rightarrow> scanner \<Rightarrow> (RC \<times> rid option \<times> scanner) option" where
  "next_entry cmp try_slatch st s =
    (case current_frame s of
       None \<Rightarrow> Some (RECORD_EOF, None, s)
     | Some p \<Rightarrow>
         if \<not> first_emitted s then Some (SUCCESS, Some (fetch_item st s), s \<lparr> first_emitted := True \<rparr>)
         else
           let s1 = s \<lparr> iter_index := iter_index s + 1 \<rparr>; n = node_at st p
           in if iter_index s1 < int (node_size n) then
                if touch_end cmp st s1 then Some (RECORD_EOF, None, s1)
                else Some (SUCCESS, Some (fetch_item st s1), s1)
              else
                let next_page_num = next_brother n
                in if next_page_num = BP_INVALID_PAGE_NUM then Some (RECORD_EOF, None, s1)
                   else if th_pages st next_page_num = None then Some (IOERR_READ, None, s1)
                   else
                     let s2 = s1 \<lparr> current_frame := Some next_page_num \<rparr>
                     in if \<not> try_slatch next_page_num then Some (LOCKED_NEED_WAIT, None, s2)
                        else next_entry cmp try_slatch st (s2 \<lparr> iter_index := - 1 \<rparr>))"

text \<open>The loop of \<^verbatim>\<open>get_entry\<close>: the RIDs collected and the code that ended it.\<close>

partial_function (option) scan_loop ::
  "(key \<Rightarrow> key \<Rightarrow> int) \<Rightarrow> (page_num \<Rightarrow> bool) \<Rightarrow> tree_handler \<Rightarrow> scanner \<Rightarrow> rid list \<Rightarrow> (RC \<times> rid list) option" where
  "scan_loop cmp try_slatch st s rids =
    Option.bind (next_entry cmp try_slatch st s) (\<lambda>(rc, r, s').
      if rc = SUCCESS then scan_loop cmp try_slatch st s' (rids @ [the r])
      else Some (rc, rids))"

definition get_entry ::
  "(byte list \<Rightarrow> byte list \<Rightarrow> int) \<Rightarrow> (page_num \<Rightarrow> bool) \<Rightarrow> byte list \<Rightarrow> nat \<Rightarrow> tree_handler \<Rightarrow>
   (RC \<times> rid list) option" where
  "get_entry acmp try_slatch user_key key_len st =
    Option.bind (scanner_open acmp (Some (user_key, key_len)) True (Some (user_key, key_len)) True st scanner_init)
      (\<lambda>(rc, s).
        if OB_FAIL rc then Some (rc, [])
        else Option.bind (scan_loop (key_comparator acmp) try_slatch st s [])
               (\<lambda>(rc, rids). Some (if rc \<noteq> RECORD_EOF then (rc, rids) else (SUCCESS, rids))))"

section \<open>The chain of leaves\<close>

fun gleafs :: "gtree \<Rightarrow> (page_num \<times> page_num \<times> (key \<times> rid) list) list" where
  "gleafs (GLeaf p nx xs) = [(p, nx, xs)]"
| "gleafs (GNode p cs) = concat (map (\<lambda>x. gleafs (snd x)) cs)"

abbreviation leaf_link :: "page_num \<times> page_num \<times> (key \<times> rid) list \<Rightarrow> page_num \<times> page_num" where
  "leaf_link l \<equiv> (fst l, fst (snd l))"

fun leaf_chain :: "(page_num \<Rightarrow> index_node option) \<Rightarrow> page_num \<Rightarrow> (key \<times> rid) list list \<Rightarrow> bool" where
  "leaf_chain P p [] \<longleftrightarrow> p = BP_INVALID_PAGE_NUM"
| "leaf_chain P p (xs # xss) \<longleftrightarrow>
     p \<noteq> BP_INVALID_PAGE_NUM \<and> (\<exists>par nx. P p = Some (LeafNode par nx xs) \<and> leaf_chain P nx xss)"

lemma gleafs_links: "map leaf_link (gleafs t) = gleaves t"
  by (induction t rule: gtree_induct) (auto simp: map_concat comp_def intro!: arg_cong [where f = concat])

lemma gleafs_entries: "concat (map (\<lambda>l. snd (snd l)) (gleafs t)) = gentries t"
proof (induction t rule: gtree_induct)
  case (GNode p cs)
  then have "concat (map (\<lambda>x. concat (map (\<lambda>l. snd (snd l)) (gleafs (snd x)))) cs) =
      concat (map (\<lambda>x. gentries (snd x)) cs)" by (intro arg_cong [where f = concat]) simp
  moreover have "concat (map f (concat (map g cs))) = concat (map (\<lambda>x. concat (map f (g x))) cs)"
    for f :: "page_num \<times> page_num \<times> (key \<times> rid) list \<Rightarrow> (key \<times> rid) list" and g
    by (induction cs) simp_all
  ultimately show ?case by simp
qed simp

lemma gleafs_entriess:
  "concat (map (\<lambda>l. snd (snd l)) (concat (map (\<lambda>x. gleafs (snd x)) cs))) = gentriess cs"
  by (induction cs) (simp_all add: gleafs_entries)

lemma gleafs_plug:
  "gleafs (plug ctx t) = cleft (\<lambda>x. gleafs (snd x)) ctx @ gleafs t @ cright (\<lambda>x. gleafs (snd x)) ctx"
  by (induction ctx t rule: plug.induct) auto

lemma gleafs_stored:
  "stored P (flat par t) \<Longrightarrow> l \<in> set (gleafs t) \<Longrightarrow> \<exists>par. P (fst l) = Some (LeafNode par (fst (snd l)) (snd (snd l)))"
proof (induction t arbitrary: par rule: gtree_induct)
  case (GNode p cs)
  then obtain x where x: "x \<in> set cs" "l \<in> set (gleafs (snd x))" by auto
  moreover have "stored P (flat p (snd x))" using GNode.prems(1) x(1) by (auto simp: stored_def flats_def)
  ultimately show ?case using GNode.IH by blast
qed auto

lemma gleafs_nonempty: "gshape lmin lmax imin imax d t \<Longrightarrow> 1 \<le> lmin \<Longrightarrow> l \<in> set (gleafs t) \<Longrightarrow> snd (snd l) \<noteq> []"
  by (induction t arbitrary: d rule: gtree_induct) auto

lemma gleafs_nonempty_root:
  "gshape_root lmin lmax imin imax d t \<Longrightarrow> 1 \<le> lmin \<Longrightarrow> l \<in> set (gleafs t) \<Longrightarrow> snd (snd l) \<noteq> []"
  using gleafs_nonempty [of lmin lmax imin imax _ _ l] by (cases t) fastforce+

lemma gleafs_page: "l \<in> set (gleafs t) \<Longrightarrow> fst l \<in> set (gpages t)"
proof (induction t rule: gtree_induct)
  case (GNode p cs)
  then show ?case by (auto simp: gpagess_def)
qed simp

lemma leaf_chain_links:
  assumes "\<And>l. l \<in> set L \<Longrightarrow> \<exists>par. P (fst l) = Some (LeafNode par (fst (snd l)) (snd (snd l)))"
    "\<And>l. l \<in> set L \<Longrightarrow> fst l \<noteq> BP_INVALID_PAGE_NUM" "chained (map leaf_link L) BP_INVALID_PAGE_NUM"
  shows "leaf_chain P (hd (map fst L @ [BP_INVALID_PAGE_NUM])) (map (\<lambda>l. snd (snd l)) L)"
  using assms
proof (induction L)
  case (Cons l L)
  have ch: "fst (snd l) = hd (map fst L @ [BP_INVALID_PAGE_NUM])" "chained (map leaf_link L) BP_INVALID_PAGE_NUM"
    using Cons.prems(3) chained_append [of "[leaf_link l]" "map leaf_link L"] by (simp_all add: comp_def)
  have "leaf_chain P (hd (map fst L @ [BP_INVALID_PAGE_NUM])) (map (\<lambda>l. snd (snd l)) L)"
    using Cons.IH [OF _ _ ch(2)] Cons.prems(1,2) by simp
  with Cons.prems(1,2) [of l] ch(1) show ?case by auto
qed simp

context index_order
begin

lemma tree_leaf_chain:
  assumes "tree_inv cmp st (plug ctx (GLeaf p nx xs))"
  obtains xss where "leaf_chain (th_pages st) p (xs # xss)" "concat xss = entries_right ctx"
    "\<forall>ys\<in>set (xs # xss). ys \<noteq> []"
proof -
  let ?t = "plug ctx (GLeaf p nx xs)"
  let ?R = "cright (\<lambda>x. gleafs (snd x)) ctx" and ?L = "cleft (\<lambda>x. gleafs (snd x)) ctx"
  let ?links = "(p, nx, xs) # ?R"
  have leafs: "gleafs ?t = ?L @ ?links" by (simp add: gleafs_plug)
  have sub: "set ?links \<subseteq> set (gleafs ?t)" unfolding leafs by auto
  have "chained (map leaf_link (?L @ ?links)) BP_INVALID_PAGE_NUM"
    using assms unfolding leafs [symmetric] gleafs_links by (simp add: tree_inv_def)
  then have ch: "chained (map leaf_link ?links) BP_INVALID_PAGE_NUM"
    unfolding map_append chained_append by blast
  have st: "\<exists>par. th_pages st (fst l) = Some (LeafNode par (fst (snd l)) (snd (snd l)))" if "l \<in> set ?links" for l
    using assms gleafs_stored sub that unfolding tree_inv_def by blast
  have pos: "fst l \<noteq> BP_INVALID_PAGE_NUM" if "l \<in> set ?links" for l
  proof -
    have "fst l \<in> set (gpages ?t)" using gleafs_page sub that by blast
    then have "1 < fst l" using assms unfolding tree_inv_def pool_ok_def by blast
    then show ?thesis by (simp add: BP_INVALID_PAGE_NUM_def)
  qed
  have ne: "snd (snd l) \<noteq> []" if "l \<in> set ?links" for l
  proof -
    obtain d where d: "root_shape (th_header st) d ?t" using assms by (auto simp: tree_inv_def)
    have "1 \<le> leaf_max_size (th_header st) div 2" using assms by (auto simp: tree_inv_def sizes_ok_def)
    from gleafs_nonempty_root [OF d this] sub that show ?thesis by blast
  qed
  have "concat (map (\<lambda>l. snd (snd l)) ?R) = entries_right ctx"
  proof (induction ctx)
    case (Cons c ctx)
    then show ?case by (cases c) (simp add: gleafs_entriess)
  qed simp
  moreover from leaf_chain_links [OF st pos ch]
  have "leaf_chain (th_pages st) p (xs # map (\<lambda>l. snd (snd l)) ?R)" by simp
  moreover have "\<forall>ys\<in>set (xs # map (\<lambda>l. snd (snd l)) ?R). ys \<noteq> []"
    using ne [of "(p, nx, xs)"] ne by force
  ultimately show thesis using that by blast
qed

end

section \<open>One step of a scan\<close>

definition past_end :: "(key \<Rightarrow> key \<Rightarrow> int) \<Rightarrow> key option \<Rightarrow> key \<times> rid \<Rightarrow> bool" where
  "past_end cmp rk e = (case rk of None \<Rightarrow> False | Some k \<Rightarrow> 0 < cmp (fst e) k)"

text \<open>The scanner has emitted an entry and \<open>rest\<close> are the entries after it.\<close>

definition scan_at :: "(page_num \<Rightarrow> index_node option) \<Rightarrow> scanner \<Rightarrow> (key \<times> rid) list \<Rightarrow> bool" where
  "scan_at P s rest \<longleftrightarrow> (\<exists>p xs xss. current_frame s = Some p \<and> first_emitted s \<and> - 1 \<le> iter_index s \<and>
     leaf_chain P p (xs # xss) \<and> (\<forall>ys\<in>set xss. ys \<noteq> []) \<and>
     rest = drop (nat (iter_index s + 1)) xs @ concat xss)"

lemma leaf_chain_page:
  "leaf_chain P p (xs # xss) \<Longrightarrow> \<exists>par nx. P p = Some (LeafNode par nx xs) \<and> leaf_chain P nx xss \<and>
     (nx = BP_INVALID_PAGE_NUM \<longleftrightarrow> xss = [])"
  by (cases xss) auto

lemma next_entry_in_page:
  assumes "current_frame s = Some p" "first_emitted s" "- 1 \<le> iter_index s"
    "leaf_chain (th_pages st) p (xs # xss)" "nat (iter_index s + 1) < length xs"
  shows "next_entry cmp try_slatch st s =
    (let e = xs ! nat (iter_index s + 1); s' = s \<lparr> iter_index := iter_index s + 1 \<rparr>
     in if past_end cmp (right_key s) e then Some (RECORD_EOF, None, s')
        else Some (SUCCESS, Some (snd e), s'))"
proof -
  from leaf_chain_page [OF assms(4)] obtain par nx where "th_pages st p = Some (LeafNode par nx xs)" by blast
  with assms show ?thesis
    by (subst next_entry.simps)
      (auto simp: Let_def touch_end_def fetch_item_def past_end_def split: option.splits)
qed

lemma next_entry_next_page:
  assumes "current_frame s = Some p" "first_emitted s" "- 1 \<le> iter_index s"
    "leaf_chain (th_pages st) p (xs # ys # xss)" "\<not> nat (iter_index s + 1) < length xs" "\<And>q. try_slatch q"
  obtains q where "leaf_chain (th_pages st) q (ys # xss)"
    "next_entry cmp try_slatch st s = next_entry cmp try_slatch st (s \<lparr> current_frame := Some q, iter_index := - 1 \<rparr>)"
proof -
  from leaf_chain_page [OF assms(4)] obtain par nx where
    p: "th_pages st p = Some (LeafNode par nx xs)" "leaf_chain (th_pages st) nx (ys # xss)" "nx \<noteq> BP_INVALID_PAGE_NUM"
    by auto
  then have "th_pages st nx \<noteq> None" by auto
  with p assms have "next_entry cmp try_slatch st s =
      next_entry cmp try_slatch st (s \<lparr> current_frame := Some nx, iter_index := - 1 \<rparr>)"
    by (subst next_entry.simps) (auto simp: Let_def)
  with that p(2) show thesis by blast
qed

lemma next_entry_last_page:
  assumes "current_frame s = Some p" "first_emitted s" "- 1 \<le> iter_index s"
    "leaf_chain (th_pages st) p [xs]" "\<not> nat (iter_index s + 1) < length xs"
  shows "\<exists>s'. next_entry cmp try_slatch st s = Some (RECORD_EOF, None, s')"
  using assms by (subst next_entry.simps) (auto simp: Let_def)

text \<open>What a call of \<^verbatim>\<open>next_entry\<close> has to do when \<open>rest\<close> is left.\<close>

definition step_ok ::
  "(key \<Rightarrow> key \<Rightarrow> int) \<Rightarrow> tree_handler \<Rightarrow> key option \<Rightarrow> (key \<times> rid) list \<Rightarrow> (RC \<times> rid option \<times> scanner) option \<Rightarrow> bool" where
  "step_ok cmp st rk rest out =
    (case rest of
       [] \<Rightarrow> \<exists>s'. out = Some (RECORD_EOF, None, s')
     | e # es \<Rightarrow>
         if past_end cmp rk e then \<exists>s'. out = Some (RECORD_EOF, None, s')
         else \<exists>s'. out = Some (SUCCESS, Some (snd e), s') \<and> scan_at (th_pages st) s' es \<and> right_key s' = rk)"

lemma next_entry_here:
  assumes s: "current_frame s = Some p" "first_emitted s" "- 1 \<le> iter_index s"
    and ch: "leaf_chain (th_pages st) p (xs # xss)" "\<forall>ys\<in>set xss. ys \<noteq> []"
    and lt: "nat (iter_index s + 1) < length xs"
  shows "step_ok cmp st (right_key s) (drop (nat (iter_index s + 1)) xs @ concat xss) (next_entry cmp try_slatch st s)"
proof -
  let ?i = "nat (iter_index s + 1)"
  have r: "drop ?i xs = xs ! ?i # drop (Suc ?i) xs" using lt by (simp add: Cons_nth_drop_Suc)
  have "nat (iter_index s + 1 + 1) = Suc ?i" using s(3) by simp
  with s ch have "scan_at (th_pages st) (s \<lparr> iter_index := iter_index s + 1 \<rparr>) (drop (Suc ?i) xs @ concat xss)"
    unfolding scan_at_def by (intro exI [of _ p] exI [of _ xs] exI [of _ xss]) simp
  with next_entry_in_page [OF s ch(1) lt, of cmp try_slatch] show ?thesis
    by (simp add: step_ok_def r Let_def)
qed

lemma next_entry_step:
  assumes "scan_at (th_pages st) s rest" "\<And>q. try_slatch q"
  shows "step_ok cmp st (right_key s) rest (next_entry cmp try_slatch st s)"
proof -
  from assms(1) obtain p xs xss where s: "current_frame s = Some p" "first_emitted s" "- 1 \<le> iter_index s"
    "leaf_chain (th_pages st) p (xs # xss)" "\<forall>ys\<in>set xss. ys \<noteq> []"
    and rest: "rest = drop (nat (iter_index s + 1)) xs @ concat xss" by (auto simp: scan_at_def)
  show ?thesis
  proof (cases "nat (iter_index s + 1) < length xs")
    case True
    from next_entry_here [OF s True] show ?thesis by (simp add: rest)
  next
    case False
    show ?thesis
    proof (cases xss)
      case Nil
      with next_entry_last_page [OF s(1-3) _ False, of st] s(4) rest False show ?thesis by (simp add: step_ok_def)
    next
      case (Cons ys yss)
      from next_entry_next_page [OF s(1-3) s(4) [unfolded Cons] False, of try_slatch cmp] assms(2) obtain q where
        q: "leaf_chain (th_pages st) q (ys # yss)"
        "next_entry cmp try_slatch st s = next_entry cmp try_slatch st (s \<lparr> current_frame := Some q, iter_index := - 1 \<rparr>)" .
      from next_entry_here [of "s \<lparr> current_frame := Some q, iter_index := - 1 \<rparr>" q st ys yss] q(1) s Cons False
      show ?thesis unfolding q(2) rest by simp
    qed
  qed
qed

lemma scan_loop_rest:
  assumes "scan_at (th_pages st) s rest" "\<And>q. try_slatch q"
  shows "scan_loop cmp try_slatch st s rids =
    Some (RECORD_EOF, rids @ map snd (takeWhile (\<lambda>e. \<not> past_end cmp (right_key s) e) rest))"
  using assms(1)
proof (induction rest arbitrary: s rids)
  case Nil
  with next_entry_step [OF Nil, of try_slatch cmp] assms(2) show ?case by (subst scan_loop.simps) (auto simp: step_ok_def)
next
  case (Cons e es)
  have step: "step_ok cmp st (right_key s) (e # es) (next_entry cmp try_slatch st s)"
    using next_entry_step [OF Cons.prems, of try_slatch] assms(2) by blast
  show ?case
  proof (cases "past_end cmp (right_key s) e")
    case True
    with step show ?thesis by (subst scan_loop.simps) (auto simp: step_ok_def)
  next
    case False
    with step obtain s' where s': "next_entry cmp try_slatch st s = Some (SUCCESS, Some (snd e), s')"
      "scan_at (th_pages st) s' es" "right_key s' = right_key s" by (auto simp: step_ok_def)
    from Cons.IH [OF s'(2)] s' False show ?thesis by (subst scan_loop.simps) simp
  qed
qed

section \<open>Opening a scan\<close>

definition start_entries ::
  "(key \<Rightarrow> key \<Rightarrow> int) \<Rightarrow> key option \<Rightarrow> (key \<times> rid) list \<Rightarrow> (key \<times> rid) list" where
  "start_entries cmp lk es = (case lk of None \<Rightarrow> es | Some k \<Rightarrow> dropWhile (\<lambda>e. cmp (fst e) k < 0) es)"

definition start_ok ::
  "(page_num \<Rightarrow> index_node option) \<Rightarrow> (page_num \<times> int) option \<Rightarrow> (key \<times> rid) list \<Rightarrow> bool" where
  "start_ok P start es =
    (case start of
       None \<Rightarrow> es = []
     | Some (p, i) \<Rightarrow> \<exists>xs xss. leaf_chain P p (xs # xss) \<and> (\<forall>ys\<in>set xss. ys \<noteq> []) \<and> 0 \<le> i \<and>
         nat i < length xs \<and> es = drop (nat i) xs @ concat xss)"

lemma start_okI:
  assumes "leaf_chain P p (xs # xss)" "\<forall>ys\<in>set (xs # xss). ys \<noteq> []" "i < length xs"
    "es = drop i xs @ concat xss"
  shows "start_ok P (Some (p, int i)) es"
  unfolding start_ok_def option.case prod.case using assms
  by (intro exI [of _ xs] exI [of _ xss]) (simp del: leaf_chain.simps)

context index_order
begin

lemma dropWhile_around:
  assumes "\<And>x. x \<in> set L \<Longrightarrow> cmp (fst x) k < 0" "\<And>x. x \<in> set R \<Longrightarrow> cmp k (fst x) < 0"
  shows "dropWhile (\<lambda>e. cmp (fst e) k < 0) (L @ xs @ R) = drop (position k xs) xs @ R"
proof -
  have "\<not> cmp (fst x) k < 0" if "x \<in> set R" for x
    using assms(2) [OF that] cmp_flip [of k "fst x"] by linarith
  then have front: "dropWhile (\<lambda>e. cmp (fst e) k < 0) R = R" by (cases R) simp_all
  have "dropWhile (\<lambda>e. cmp (fst e) k < 0) (L @ xs @ R) = dropWhile (\<lambda>e. cmp (fst e) k < 0) (xs @ R)"
    using assms(1) by (simp add: dropWhile_append2)
  also have "\<dots> = dropWhile (\<lambda>e. cmp (fst e) k < 0) xs @ R"
    using front by (auto simp: dropWhile_append)
  also have "dropWhile (\<lambda>e. cmp (fst e) k < 0) xs = drop (position k xs) xs"
    by (simp add: dropWhile_eq_drop rank_def)
  finally show ?thesis .
qed

lemma open_left_start:
  assumes inv: "tree_inv cmp st t" "gentries t = es"
  obtains start where "open_left cmp left linc st = Some (SUCCESS, start)"
    "start_ok (th_pages st) start
       (start_entries cmp (map_option (\<lambda>l. open_left_key l linc (th_header st)) left) es)"
proof (cases left)
  case None
  from left_most_reaches [OF inv(1)] obtain ctx p nx xs where
    f: "t = plug ctx (GLeaf p nx xs)" "left_most_page st = Some (SUCCESS, p)" "entries_left ctx = []" .
  from tree_leaf_chain [OF inv(1) [unfolded f(1)]] obtain xss where
    "leaf_chain (th_pages st) p (xs # xss)" "concat xss = entries_right ctx" "\<forall>ys\<in>set (xs # xss). ys \<noteq> []" .
  moreover have "es = xs @ entries_right ctx" using f by (simp add: gentries_plug flip: inv(2))
  ultimately have "start_ok (th_pages st) (Some (p, int 0)) es" by (intro start_okI [of _ _ xs xss]) auto
  then show thesis
    using that [of "Some (p, 0)"] None f(2) by (simp add: open_left_def start_entries_def rc_simps)
next
  case (Some l)
  obtain uk kl where l: "l = (uk, kl)" by (metis surj_pair)
  define k where "k = open_left_key (uk, kl) linc (th_header st)"
  from find_leaf_reaches [OF inv(1), of k] obtain ctx p nx xs where
    f: "t = plug ctx (GLeaf p nx xs)" "find_leaf cmp k st = Some (SUCCESS, p)"
    "at_least cmp (hlo ctx) k" "strictly_below cmp (hhi ctx) k" .
  note inv' = inv(1) [unfolded f(1)]
  note leaf = leaf_found [OF inv']
  have "gord cmp None None (plug ctx (GLeaf p nx xs))" using inv' by (simp add: tree_inv_def)
  note beside = entry_beside_leaf [OF this f(3,4)]
  have es: "es = entries_left ctx @ xs @ entries_right ctx" using f(1) inv(2) by (simp add: gentries_plug)
  from tree_leaf_chain [OF inv'] obtain xss where
    ch: "leaf_chain (th_pages st) p (xs # xss)" "concat xss = entries_right ctx" "\<forall>ys\<in>set (xs # xss). ys \<noteq> []" .
  have start: "start_entries cmp (Some k) es = drop (position k xs) xs @ concat xss"
    unfolding start_entries_def option.case es ch(2) by (rule dropWhile_around [OF beside])
  have run: "open_left cmp left linc st = Some
      (if length xs \<le> position k xs then
         if nx = BP_INVALID_PAGE_NUM then (SUCCESS, None)
         else if th_pages st nx = None then (IOERR_READ, None) else (SUCCESS, Some (nx, 0))
       else (SUCCESS, Some (p, int (position k xs))))"
    using leaf(1) leaf(5) [of k] f(2) by (simp add: open_left_def Some l Let_def rc_simps flip: k_def)
  show thesis
  proof (cases "length xs \<le> position k xs")
    case False
    then have "start_ok (th_pages st) (Some (p, int (position k xs))) (start_entries cmp (Some k) es)"
      using start by (intro start_okI [OF ch(1,3)]) simp_all
    with run False that [of "Some (p, int (position k xs))"] show thesis by (simp add: Some l k_def)
  next
    case True
    from leaf_chain_page [OF ch(1)] leaf(1) have nx: "leaf_chain (th_pages st) nx xss"
      "nx = BP_INVALID_PAGE_NUM \<longleftrightarrow> xss = []" by auto
    show thesis
    proof (cases xss)
      case Nil
      with run nx True start that [of None] show thesis by (simp add: start_ok_def Some l k_def)
    next
      case (Cons ys yss)
      with nx have some: "th_pages st nx \<noteq> None" by auto
      have "start_ok (th_pages st) (Some (nx, int 0)) (start_entries cmp (Some k) es)"
        using start True nx(1) ch(3) Cons by (intro start_okI [of _ _ ys yss]) auto
      with run nx True some Cons that [of "Some (nx, 0)"] show thesis by (simp add: Some l k_def)
    qed
  qed
qed

lemma index_rep_sorted: "index_rep cmp st es \<Longrightarrow> sorted_entries es"
proof (cases "es = []")
  case False
  assume "index_rep cmp st es"
  from index_rep_tree [OF this False] obtain t where "gord cmp None None t" "gentries t = es"
    by (auto simp: tree_inv_def)
  with gord_entries [of None None t] show ?thesis by auto
qed simp

lemma scan_filter:
  assumes "sorted_entries es"
  shows "takeWhile (\<lambda>e. \<not> past_end cmp rk e) (start_entries cmp lk es) =
    filter (\<lambda>e. (\<forall>k. lk = Some k \<longrightarrow> 0 \<le> cmp (fst e) k) \<and> \<not> past_end cmp rk e) es"
proof -
  have drop_filter: "start_entries cmp lk es = filter (\<lambda>e. \<forall>k. lk = Some k \<longrightarrow> 0 \<le> cmp (fst e) k) es"
  proof (cases lk)
    case (Some k)
    have "dropWhile (\<lambda>e. cmp (fst e) k < 0) es = filter (\<lambda>e. 0 \<le> cmp (fst e) k) es"
      using assms
    proof (induction es)
      case (Cons e es)
      have "0 \<le> cmp (fst x) k" if "0 \<le> cmp (fst e) k" "x \<in> set es" for x
        using that Cons.prems lt_trans [of "fst e" "fst x" k] by (force simp: lt_def)
      with Cons show ?case by auto
    qed simp
    then show ?thesis by (simp add: start_entries_def Some)
  qed (simp add: start_entries_def)
  have take_filter: "takeWhile (\<lambda>e. \<not> past_end cmp rk e) xs = filter (\<lambda>e. \<not> past_end cmp rk e) xs"
    if "sorted_entries xs" for xs
    using that
  proof (induction xs)
    case (Cons e xs)
    have "past_end cmp rk x" if "past_end cmp rk e" "x \<in> set xs" for x
      using that Cons.prems lt_trans [of _ "fst e" "fst x"] cmp_flip
      by (auto simp: past_end_def lt_def split: option.splits)
    with Cons show ?case by (auto simp: filter_empty_conv)
  qed simp
  have "sorted_entries (start_entries cmp lk es)"
    unfolding drop_filter by (rule sorted_wrt_filter [OF assms])
  from take_filter [OF this] show ?thesis by (simp add: drop_filter)
qed

end

section \<open>The result of a scan\<close>

text \<open>A scan as its clients run it: open the scanner and fetch until the end.\<close>

definition range_scan ::
  "(byte list \<Rightarrow> byte list \<Rightarrow> int) \<Rightarrow> (page_num \<Rightarrow> bool) \<Rightarrow> (byte list \<times> nat) option \<Rightarrow> bool \<Rightarrow>
   (byte list \<times> nat) option \<Rightarrow> bool \<Rightarrow> tree_handler \<Rightarrow> (RC \<times> rid list) option" where
  "range_scan acmp try_slatch left left_inclusive right right_inclusive st =
    Option.bind (scanner_open acmp left left_inclusive right right_inclusive st scanner_init)
      (\<lambda>(rc, s).
        if OB_FAIL rc then Some (rc, [])
        else Option.bind (scan_loop (key_comparator acmp) try_slatch st s [])
               (\<lambda>(rc, rids). Some (if rc \<noteq> RECORD_EOF then (rc, rids) else (SUCCESS, rids))))"

definition invalid_range ::
  "(byte list \<Rightarrow> byte list \<Rightarrow> int) \<Rightarrow> (byte list \<times> nat) option \<Rightarrow> bool \<Rightarrow> (byte list \<times> nat) option \<Rightarrow> bool \<Rightarrow> bool" where
  "invalid_range acmp left left_inclusive right right_inclusive =
    (case (left, right) of
       (Some (lk, _), Some (rk, _)) \<Rightarrow>
         acmp lk rk > 0 \<or> acmp lk rk = 0 \<and> (\<not> left_inclusive \<or> \<not> right_inclusive)
     | _ \<Rightarrow> False)"

text \<open>The bytes compared with the attribute of an entry, and whether an equal attribute qualifies.\<close>

definition scan_bound :: "index_file_header \<Rightarrow> byte list \<times> nat \<Rightarrow> bool \<Rightarrow> bool \<Rightarrow> byte list \<times> bool" where
  "scan_bound h b inclusive want_greater =
    (let (fixed, si) = (if attr_type h = CHARS then fix_user_key (attr_length h) (fst b) (snd b) want_greater
                        else (fst b, False))
     in (take (attr_length h) fixed, inclusive \<or> si))"

definition in_bounds ::
  "(byte list \<Rightarrow> byte list \<Rightarrow> int) \<Rightarrow> index_file_header \<Rightarrow> (byte list \<times> nat) option \<Rightarrow> bool \<Rightarrow>
   (byte list \<times> nat) option \<Rightarrow> bool \<Rightarrow> key \<Rightarrow> bool" where
  "in_bounds acmp h left left_inclusive right right_inclusive k \<longleftrightarrow>
     (case left of None \<Rightarrow> True
      | Some l \<Rightarrow> let (a, inc) = scan_bound h l left_inclusive True
                  in if inc then 0 \<le> acmp (key_attr k) a else 0 < acmp (key_attr k) a) \<and>
     (case right of None \<Rightarrow> True
      | Some r \<Rightarrow> let (a, inc) = scan_bound h r right_inclusive False
                  in if inc then acmp (key_attr k) a \<le> 0 else acmp (key_attr k) a < 0)"

text \<open>RIDs of records: never one of the two that serve as bounds.\<close>

definition record_rid :: "rid \<Rightarrow> bool" where
  "record_rid r \<longleftrightarrow> rid_valid r \<and> r \<noteq> rid_min \<and> r \<noteq> rid_max"

lemma record_rid_bounds: "record_rid r \<Longrightarrow> 0 < rid_compare r rid_min \<and> rid_compare r rid_max < 0"
  using rid_bounds [of r] rid_order.cmp_flip [of r rid_min] rid_order.cmp_flip [of rid_min r]
    rid_compare_zero [of r rid_max] rid_compare_zero [of rid_min r]
  by (auto simp: record_rid_def)

lemma key_bounds:
  assumes "record_rid (key_rid k)"
  shows "0 \<le> key_comparator acmp k (Key a (if inc then rid_min else rid_max)) \<longleftrightarrow>
      (if inc then 0 \<le> acmp (key_attr k) a else 0 < acmp (key_attr k) a)"
    "\<not> 0 < key_comparator acmp k (Key a (if inc then rid_max else rid_min)) \<longleftrightarrow>
      (if inc then acmp (key_attr k) a \<le> 0 else acmp (key_attr k) a < 0)"
  using record_rid_bounds [OF assms] by (auto simp: key_comparator_def Let_def)

lemma open_key_bounds:
  "open_left_key l linc h = (let (a, inc) = scan_bound h l linc True in Key a (if inc then rid_min else rid_max))"
  "open_right_key r rinc h = (let (a, inc) = scan_bound h r rinc False in Key a (if inc then rid_max else rid_min))"
  by (simp_all add: open_left_key_def open_right_key_def scan_bound_def make_key_def split: prod.splits)

lemma in_bounds_keys:
  assumes "record_rid (key_rid k)"
  shows "in_bounds acmp h left linc right rinc k \<longleftrightarrow>
    (\<forall>lk. map_option (\<lambda>l. open_left_key l linc h) left = Some lk \<longrightarrow> 0 \<le> key_comparator acmp k lk) \<and>
    \<not> past_end (key_comparator acmp) (map_option (\<lambda>r. open_right_key r rinc h) right) (k, r0)"
  using key_bounds [OF assms, of acmp]
  by (auto simp: in_bounds_def open_key_bounds past_end_def Let_def split: option.splits prod.splits)

context attr_key_order
begin

lemma scanner_open_empty:
  assumes "index_rep (key_comparator acmp) st []" "\<not> invalid_range acmp left linc right rinc"
  shows "\<exists>s. scanner_open acmp left linc right rinc st scanner_init = Some (SUCCESS, s) \<and> current_frame s = None"
proof -
  have "is_empty st" using assms(1) by (simp add: index_rep_def is_empty_def)
  then have "open_left (key_comparator acmp) left linc st = Some (SUCCESS, None)"
    by (cases left) (auto simp: open_left_def left_most_page_def find_leaf_def find_leaf_internal_def Let_def rc_simps)
  with assms(2) show ?thesis
    unfolding scanner_open_def invalid_range_def by (simp add: scanner_init_def Let_def rc_simps)
qed

lemma scanner_open_start:
  assumes "open_left (key_comparator acmp) left linc st = Some (SUCCESS, Some (p, i))"
    "\<not> invalid_range acmp left linc right rinc"
    "s = \<lparr> sc_inited = True, current_frame = Some p,
       right_key = map_option (\<lambda>r. open_right_key r rinc (th_header st)) right, iter_index = i, first_emitted = False \<rparr>"
  shows "scanner_open acmp left linc right rinc st scanner_init =
    Some (SUCCESS, if touch_end (key_comparator acmp) st s then s \<lparr> current_frame := None \<rparr> else s)"
  using assms unfolding scanner_open_def invalid_range_def
  by (simp add: scanner_init_def Let_def rc_simps)

lemma scan_loop_no_frame:
  "current_frame s = None \<Longrightarrow> scan_loop cmp try_slatch st s rids = Some (RECORD_EOF, rids)"
  by (subst scan_loop.simps, subst next_entry.simps) simp

lemma scan_loop_first:
  assumes "current_frame s = Some p" "\<not> first_emitted s" "0 \<le> iter_index s" "nat (iter_index s) < length xs"
    "leaf_chain (th_pages st) p (xs # xss)" "\<forall>ys\<in>set xss. ys \<noteq> []" "\<And>q. try_slatch q"
  shows "scan_loop cmp try_slatch st s rids = Some (RECORD_EOF, rids @ snd (xs ! nat (iter_index s)) #
    map snd (takeWhile (\<lambda>e. \<not> past_end cmp (right_key s) e) (drop (nat (iter_index s + 1)) xs @ concat xss)))"
proof -
  let ?s = "s \<lparr> first_emitted := True \<rparr>"
  from leaf_chain_page [OF assms(5)] obtain par nx where "th_pages st p = Some (LeafNode par nx xs)" by blast
  then have "next_entry cmp try_slatch st s = Some (SUCCESS, Some (snd (xs ! nat (iter_index s))), ?s)"
    using assms(1,2) by (subst next_entry.simps) (simp add: fetch_item_def)
  moreover have "scan_at (th_pages st) ?s (drop (nat (iter_index s + 1)) xs @ concat xss)"
    unfolding scan_at_def using assms by (intro exI [of _ p] exI [of _ xs] exI [of _ xss]) simp
  from scan_loop_rest [OF this, of try_slatch cmp] assms(7)
  have "scan_loop cmp try_slatch st ?s r = Some (RECORD_EOF, r @
      map snd (takeWhile (\<lambda>e. \<not> past_end cmp (right_key s) e) (drop (nat (iter_index s + 1)) xs @ concat xss)))" for r
    by simp
  ultimately show ?thesis by (subst scan_loop.simps) simp
qed

lemma range_scan_keys:
  assumes rep: "index_rep (key_comparator acmp) st es" and latch: "\<And>q. try_slatch q"
    and range: "\<not> invalid_range acmp left linc right rinc"
  shows "range_scan acmp try_slatch left linc right rinc st = Some (SUCCESS, map snd
    (takeWhile (\<lambda>e. \<not> past_end (key_comparator acmp) (map_option (\<lambda>r. open_right_key r rinc (th_header st)) right) e)
      (start_entries (key_comparator acmp) (map_option (\<lambda>l. open_left_key l linc (th_header st)) left) es)))"
proof (cases "es = []")
  case True
  with scanner_open_empty [OF _ range] rep obtain s where
    "scanner_open acmp left linc right rinc st scanner_init = Some (SUCCESS, s)" "current_frame s = None" by blast
  with True show ?thesis
    by (simp add: range_scan_def scan_loop_no_frame start_entries_def rc_simps split: option.split)
next
  case False
  let ?lk = "map_option (\<lambda>l. open_left_key l linc (th_header st)) left"
  let ?rk = "map_option (\<lambda>r. open_right_key r rinc (th_header st)) right"
  from index.index_rep_tree [OF rep False] obtain t where t: "tree_inv (key_comparator acmp) st t" "gentries t = es"
    by blast
  from index.open_left_start [OF t, of left linc] obtain start where
    start: "open_left (key_comparator acmp) left linc st = Some (SUCCESS, start)"
    "start_ok (th_pages st) start (start_entries (key_comparator acmp) ?lk es)" .
  show ?thesis
  proof (cases start)
    case None
    with start range have "\<exists>s. scanner_open acmp left linc right rinc st scanner_init = Some (SUCCESS, s) \<and> current_frame s = None"
      unfolding scanner_open_def invalid_range_def by (simp add: scanner_init_def Let_def rc_simps)
    with None start(2) show ?thesis
      by (auto simp: range_scan_def scan_loop_no_frame start_ok_def rc_simps)
  next
    case (Some pi)
    obtain p i where pi: "pi = (p, i)" by (metis surj_pair)
    from start(2) obtain xs xss where ch: "leaf_chain (th_pages st) p (xs # xss)" "\<forall>ys\<in>set xss. ys \<noteq> []" "0 \<le> i"
      "nat i < length xs" "start_entries (key_comparator acmp) ?lk es = drop (nat i) xs @ concat xss"
      by (auto simp: start_ok_def Some pi simp del: leaf_chain.simps)
    define s where "s = \<lparr> sc_inited = True, current_frame = Some p, right_key = ?rk, iter_index = i, first_emitted = False \<rparr>"
    note open_run = scanner_open_start [OF start(1) [unfolded Some pi] range s_def]
    from leaf_chain_page [OF ch(1)] obtain par nx where "th_pages st p = Some (LeafNode par nx xs)" by blast
    then have touch: "touch_end (key_comparator acmp) st s \<longleftrightarrow> past_end (key_comparator acmp) ?rk (xs ! nat i)"
      by (cases right) (simp_all add: touch_end_def past_end_def s_def)
    have entries: "start_entries (key_comparator acmp) ?lk es = xs ! nat i # drop (Suc (nat i)) xs @ concat xss"
      unfolding ch(5) using ch(4) by (simp add: Cons_nth_drop_Suc)
    have suc: "nat (i + 1) = Suc (nat i)" using ch(3) by simp
    show ?thesis
    proof (cases "past_end (key_comparator acmp) ?rk (xs ! nat i)")
      case True
      with open_run touch entries show ?thesis by (simp add: range_scan_def scan_loop_no_frame rc_simps)
    next
      case False
      have "scan_loop (key_comparator acmp) try_slatch st s [] = Some (RECORD_EOF, [] @ snd (xs ! nat (iter_index s)) #
          map snd (takeWhile (\<lambda>e. \<not> past_end (key_comparator acmp) (right_key s) e)
            (drop (nat (iter_index s + 1)) xs @ concat xss)))"
        by (rule scan_loop_first) (use ch latch in \<open>simp_all add: s_def del: leaf_chain.simps\<close>)
      with False open_run touch entries suc show ?thesis by (simp add: range_scan_def s_def rc_simps)
    qed
  qed
qed

lemma range_scan_bounds:
  assumes "index_rep (key_comparator acmp) st es" "\<And>q. try_slatch q"
    "\<not> invalid_range acmp left linc right rinc" "\<forall>e\<in>set es. record_rid (key_rid (fst e))"
  shows "range_scan acmp try_slatch left linc right rinc st =
    Some (SUCCESS, map snd (filter (\<lambda>e. in_bounds acmp (th_header st) left linc right rinc (fst e)) es))"
proof -
  have "filter (\<lambda>e. in_bounds acmp (th_header st) left linc right rinc (fst e)) es =
    filter (\<lambda>e. (\<forall>lk. map_option (\<lambda>l. open_left_key l linc (th_header st)) left = Some lk \<longrightarrow>
        0 \<le> key_comparator acmp (fst e) lk) \<and>
      \<not> past_end (key_comparator acmp) (map_option (\<lambda>r. open_right_key r rinc (th_header st)) right) e) es"
  proof (rule filter_cong [OF refl])
    fix e
    assume "e \<in> set es"
    with assms(4) have "record_rid (key_rid (fst e))" by blast
    from in_bounds_keys [OF this, of acmp "th_header st" left linc right rinc "snd e"]
    show "in_bounds acmp (th_header st) left linc right rinc (fst e) \<longleftrightarrow>
      (\<forall>lk. map_option (\<lambda>l. open_left_key l linc (th_header st)) left = Some lk \<longrightarrow>
        0 \<le> key_comparator acmp (fst e) lk) \<and>
      \<not> past_end (key_comparator acmp) (map_option (\<lambda>r. open_right_key r rinc (th_header st)) right) e"
      by (simp only: prod.collapse)
  qed
  with range_scan_keys [OF assms(1-3)] index.scan_filter [OF index.index_rep_sorted [OF assms(1)]]
  show ?thesis by simp
qed

end

section \<open>Properties\<close>

lemma attr_comparator_order:
  "attr_type h \<in> {INTS, CHARS} \<Longrightarrow> attr_key_order (attr_comparator fcmp (attr_type h) (attr_length h))"
  using int_keys.attr_key_order_axioms char_keys.attr_key_order_axioms by auto





end
