(* ===== verification/Serializer.thy ===== *)
theory Serializer
  imports Miniob_Prelude
begin

text \<open>
  Model of \<^verbatim>\<open>common/lang/serializer.cpp\<close>: the byte buffers that log records are written to and read
  from.  A \<open>Serializer\<close> is the list of bytes written so far, a \<open>Deserializer\<close> a buffer with a read
  position.  Integers are stored as in memory, least significant byte first; \<open>int32_t\<close> and
  \<open>int64_t\<close> values are integers with the conversion of the machine written out.
\<close>

section \<open>Integers in memory\<close>

primrec le_bytes :: "nat \<Rightarrow> int \<Rightarrow> byte list" where
  "le_bytes 0 v = []"
| "le_bytes (Suc n) v = word_of_int v # le_bytes n (v div 256)"

primrec le_value :: "byte list \<Rightarrow> int" where
  "le_value [] = 0"
| "le_value (b # bs) = uint b + 256 * le_value bs"

definition int32 :: "int \<Rightarrow> bool" where
  "int32 v \<longleftrightarrow> - (2 ^ 31) \<le> v \<and> v < 2 ^ 31"

definition int64 :: "int \<Rightarrow> bool" where
  "int64 v \<longleftrightarrow> - (2 ^ 63) \<le> v \<and> v < 2 ^ 63"

section \<open>Model\<close>

type_synonym serializer = "byte list"

definition write_bytes :: "byte list \<Rightarrow> serializer \<Rightarrow> int \<times> serializer" where
  "write_bytes data buffer = (0, buffer @ data)"

definition write_int32 :: "int \<Rightarrow> serializer \<Rightarrow> int \<times> serializer" where
  "write_int32 value buffer = write_bytes (le_bytes 4 value) buffer"

definition write_int64 :: "int \<Rightarrow> serializer \<Rightarrow> int \<times> serializer" where
  "write_int64 value buffer = write_bytes (le_bytes 8 value) buffer"

record deserializer =
  de_buffer :: "byte list"
  de_position :: nat

definition deserializer_init :: "byte list \<Rightarrow> deserializer" where
  "deserializer_init buffer = \<lparr> de_buffer = buffer, de_position = 0 \<rparr>"

definition remain :: "deserializer \<Rightarrow> int" where
  "remain d = int (length (de_buffer d)) - int (de_position d)"

text \<open>The result code, the bytes read (when the code is 0) and the advanced buffer.\<close>

definition read_bytes :: "nat \<Rightarrow> deserializer \<Rightarrow> int \<times> byte list \<times> deserializer" where
  "read_bytes n d =
    (if int n > remain d then (- 1, [], d)
     else (0, take n (drop (de_position d) (de_buffer d)), d \<lparr> de_position := de_position d + n \<rparr>))"

definition read_int32 :: "deserializer \<Rightarrow> int \<times> int \<times> deserializer" where
  "read_int32 d = (let (ret, bs, d') = read_bytes 4 d in (ret, signed_take_bit 31 (le_value bs), d'))"

definition read_int64 :: "deserializer \<Rightarrow> int \<times> int \<times> deserializer" where
  "read_int64 d = (let (ret, bs, d') = read_bytes 8 d in (ret, signed_take_bit 63 (le_value bs), d'))"

section \<open>Round trips\<close>

lemma length_le_bytes [simp]: "length (le_bytes n v) = n"
  by (induction n arbitrary: v) simp_all

lemma le_value_bytes: "le_value (le_bytes n v) = v mod 256 ^ n"
proof (induction n arbitrary: v)
  case (Suc n)
  have "uint (word_of_int v :: byte) = v mod 256" by (simp add: uint_word_of_int)
  then have "le_value (le_bytes (Suc n) v) = v mod 256 + 256 * (v div 256 mod 256 ^ n)" using Suc by simp
  also have "\<dots> = v mod (256 * 256 ^ n)" by (subst zmod_zmult2_eq) simp_all
  finally show ?case by simp
qed simp

lemma signed_of_mod:
  assumes "- (2 ^ n) \<le> v" "v < 2 ^ n"
  shows "signed_take_bit n (v mod 2 ^ Suc n) = (v :: int)"
proof -
  have "signed_take_bit n (take_bit (Suc n) v) = v"
    using assms by (simp add: signed_take_bit_take_bit signed_take_bit_int_eq_self)
  then show ?thesis unfolding take_bit_eq_mod .
qed

lemma int32_bytes: "int32 v \<Longrightarrow> signed_take_bit 31 (le_value (le_bytes 4 v)) = v"
  using signed_of_mod [of 31 v] by (simp add: le_value_bytes int32_def)

lemma int64_bytes: "int64 v \<Longrightarrow> signed_take_bit 63 (le_value (le_bytes 8 v)) = v"
  using signed_of_mod [of 63 v] by (simp add: le_value_bytes int64_def)

text \<open>The bytes that are still unread, and reading what stands at their front.\<close>

definition unread :: "deserializer \<Rightarrow> byte list \<Rightarrow> bool" where
  "unread d bs \<longleftrightarrow> de_position d \<le> length (de_buffer d) \<and> drop (de_position d) (de_buffer d) = bs"

definition advance :: "nat \<Rightarrow> deserializer \<Rightarrow> deserializer" where
  "advance n d = d \<lparr> de_position := de_position d + n \<rparr>"

lemma unread_init [simp, intro]: "unread (deserializer_init bs) bs"
  by (simp add: unread_def deserializer_init_def)

lemma unread_remain: "unread d bs \<Longrightarrow> remain d = int (length bs)"
  by (auto simp: remain_def unread_def)

lemma unread_advance: "unread d (bs @ rest) \<Longrightarrow> length bs = n \<Longrightarrow> unread (advance n d) rest"
proof -
  assume a: "unread d (bs @ rest)" "length bs = n"
  have "length (drop (de_position d) (de_buffer d)) = n + length rest" using a by (simp add: unread_def)
  then have "de_position d + n \<le> length (de_buffer d)" using a(1) unfolding unread_def length_drop by linarith
  moreover have "drop n (drop (de_position d) (de_buffer d)) = rest" using a by (simp add: unread_def)
  ultimately show ?thesis by (simp add: unread_def advance_def add.commute)
qed

lemma read_bytes_front:
  assumes "unread d (bs @ rest)" "length bs = n"
  shows "read_bytes n d = (0, bs, advance n d)" "unread (advance n d) rest"
  using unread_remain [OF assms(1)] assms unread_advance [OF assms]
  by (auto simp: read_bytes_def advance_def unread_def)

lemma read_int32_front:
  assumes "unread d (le_bytes 4 v @ rest)" "int32 v"
  shows "read_int32 d = (0, v, advance 4 d)" "unread (advance 4 d) rest"
  using read_bytes_front [OF assms(1)] assms(2) by (simp_all add: read_int32_def int32_bytes)

lemma read_int64_front:
  assumes "unread d (le_bytes 8 v @ rest)" "int64 v"
  shows "read_int64 d = (0, v, advance 8 d)" "unread (advance 8 d) rest"
  using read_bytes_front [OF assms(1)] assms(2) by (simp_all add: read_int64_def int64_bytes)

lemma read_bytes_short: "unread d bs \<Longrightarrow> length bs < n \<Longrightarrow> read_bytes n d = (- 1, [], d)"
  by (simp add: read_bytes_def unread_remain)

end
