(* ===== verification/Bplus_Log.thy ===== *)
theory Bplus_Log
  imports Bplus_Tree Serializer
begin

text \<open>
  The log of the B+ tree: the record handlers of \<^verbatim>\<open>bplus_tree_log_entry.cpp\<close> with their byte format,
  and \<^verbatim>\<open>BplusTreeLogger\<close> (\<^verbatim>\<open>bplus_tree_log.cpp\<close>), which writes the records of a mini transaction as one
  log entry, rolls them back, and replays them after a crash.

  A record handler carries what its class has as members: the page of its frame, and keys and
  items as the bytes they are in the page.  Writing to the buffer cannot fail, so the codes of the
  writes are followed only where the source tests them.  \<open>None\<close> as the result of a function stands
  for an exception or an access through a null pointer.
\<close>

section \<open>Keys, items and the header as bytes\<close>

definition rid_bytes :: "rid \<Rightarrow> byte list" where
  "rid_bytes r = le_bytes 4 (rid_page_num r) @ le_bytes 4 (rid_slot_num r)"

definition rid_of_bytes :: "byte list \<Rightarrow> rid" where
  "rid_of_bytes bs = \<lparr> rid_page_num = signed_take_bit 31 (le_value (take 4 bs)),
     rid_slot_num = signed_take_bit 31 (le_value (take 4 (drop 4 bs))) \<rparr>"

definition key_bytes :: "key \<Rightarrow> byte list" where
  "key_bytes k = key_attr k @ rid_bytes (key_rid k)"

definition key_of_bytes :: "nat \<Rightarrow> byte list \<Rightarrow> key" where
  "key_of_bytes attr_len bs = Key (take attr_len bs) (rid_of_bytes (take 8 (drop attr_len bs)))"

fun items_bytes :: "items \<Rightarrow> byte list" where
  "items_bytes (LeafItems xs) = concat (map (\<lambda>(k, r). key_bytes k @ rid_bytes r) xs)"
| "items_bytes (InternalItems xs) = concat (map (\<lambda>(k, p). key_bytes k @ le_bytes 4 p) xs)"

fun leaf_items_of :: "nat \<Rightarrow> nat \<Rightarrow> byte list \<Rightarrow> (key \<times> rid) list" where
  "leaf_items_of attr_len 0 bs = []"
| "leaf_items_of attr_len (Suc n) bs =
    (key_of_bytes attr_len bs, rid_of_bytes (drop (attr_len + 8) bs)) #
      leaf_items_of attr_len n (drop (attr_len + 16) bs)"

fun internal_items_of :: "nat \<Rightarrow> nat \<Rightarrow> byte list \<Rightarrow> (key \<times> page_num) list" where
  "internal_items_of attr_len 0 bs = []"
| "internal_items_of attr_len (Suc n) bs =
    (key_of_bytes attr_len bs, signed_take_bit 31 (le_value (take 4 (drop (attr_len + 8) bs)))) #
      internal_items_of attr_len n (drop (attr_len + 12) bs)"

fun attr_type_code :: "AttrType \<Rightarrow> int" where
  "attr_type_code UNDEFINED = 0"
| "attr_type_code CHARS = 1"
| "attr_type_code INTS = 2"
| "attr_type_code FLOATS = 3"
| "attr_type_code VECTORS = 4"
| "attr_type_code BOOLEANS = 5"
| "attr_type_code MAXTYPE = 6"

definition attr_type_of_code :: "int \<Rightarrow> AttrType" where
  "attr_type_of_code c =
    (if 0 \<le> c \<and> c < 6 then [UNDEFINED, CHARS, INTS, FLOATS, VECTORS, BOOLEANS] ! nat c else MAXTYPE)"

definition header_bytes :: "index_file_header \<Rightarrow> byte list" where
  "header_bytes h = le_bytes 4 (root_page h) @ le_bytes 4 (int (internal_max_size h)) @
     le_bytes 4 (int (leaf_max_size h)) @ le_bytes 4 (int (attr_length h)) @
     le_bytes 4 (int (key_length h)) @ le_bytes 4 (attr_type_code (attr_type h))"

definition header_of_bytes :: "byte list \<Rightarrow> index_file_header" where
  "header_of_bytes bs =
    (let field = (\<lambda>i. signed_take_bit 31 (le_value (take 4 (drop (4 * i) bs))))
     in \<lparr> root_page = field 0, internal_max_size = nat (field 1), leaf_max_size = nat (field 2),
          attr_length = nat (field 3), key_length = nat (field 4), attr_type = attr_type_of_code (field 5) \<rparr>)"

section \<open>Record handlers\<close>

datatype log_handler =
  InitHeaderPage (lh_page: page_num) index_file_header
| UpdateRootPage (lh_page: page_num) page_num page_num
| SetParentPage (lh_page: page_num) page_num page_num
| LeafInitEmpty (lh_page: page_num)
| LeafSetNextPage (lh_page: page_num) page_num page_num
| InternalInitEmpty (lh_page: page_num)
| InternalCreateNewRoot (lh_page: page_num) page_num "byte list" page_num
| InternalUpdateKey (lh_page: page_num) int "byte list" "byte list"
| NodeInsert (lh_page: page_num) int "byte list" int
| NodeRemove (lh_page: page_num) int "byte list" int

fun operation_index :: "log_handler \<Rightarrow> int" where
  "operation_index (InitHeaderPage p h) = 0"
| "operation_index (UpdateRootPage p q old) = 1"
| "operation_index (SetParentPage p q old) = 2"
| "operation_index (LeafInitEmpty p) = 3"
| "operation_index (LeafSetNextPage p q old) = 4"
| "operation_index (InternalInitEmpty p) = 5"
| "operation_index (InternalCreateNewRoot p first k q) = 6"
| "operation_index (InternalUpdateKey p i k old) = 7"
| "operation_index (NodeInsert p i its n) = 8"
| "operation_index (NodeRemove p i its n) = 9"

definition MAX_TYPE :: int where "MAX_TYPE = 10"

text \<open>What the logger creates for an operation of the tree.\<close>

fun log_handler_of :: "log_entry \<Rightarrow> log_handler" where
  "log_handler_of (INIT_HEADER_PAGE h) = InitHeaderPage FIRST_INDEX_PAGE h"
| "log_handler_of (UPDATE_ROOT_PAGE q old) = UpdateRootPage FIRST_INDEX_PAGE q old"
| "log_handler_of (SET_PARENT_PAGE p q old) = SetParentPage p q old"
| "log_handler_of (LEAF_INIT_EMPTY p) = LeafInitEmpty p"
| "log_handler_of (LEAF_SET_NEXT_PAGE p q old) = LeafSetNextPage p q old"
| "log_handler_of (INTERNAL_INIT_EMPTY p) = InternalInitEmpty p"
| "log_handler_of (INTERNAL_CREATE_NEW_ROOT p first k q) = InternalCreateNewRoot p first (key_bytes k) q"
| "log_handler_of (INTERNAL_UPDATE_KEY p i k old) = InternalUpdateKey p (int i) (key_bytes k) (key_bytes old)"
| "log_handler_of (NODE_INSERT p i its) = NodeInsert p (int i) (items_bytes its) (int (item_count its))"
| "log_handler_of (NODE_REMOVE p i its) = NodeRemove p (int i) (items_bytes its) (int (item_count its))"

section \<open>Writing records\<close>

definition serialize_header :: "log_handler \<Rightarrow> serializer \<Rightarrow> RC \<times> serializer" where
  "serialize_header e buffer =
    (let (ret, b1) = write_int32 (operation_index e) buffer
     in if ret < 0 then (INTERNAL, b1)
        else let (ret, b2) = write_int32 (lh_page e) b1
             in if ret < 0 then (INTERNAL, b2) else (SUCCESS, b2))"

definition serialize_normal_body :: "int \<Rightarrow> byte list \<Rightarrow> int \<Rightarrow> serializer \<Rightarrow> RC \<times> serializer" where
  "serialize_normal_body index its item_num buffer =
    (let (r1, b1) = write_int32 index buffer;
         (r2, b2) = write_int32 item_num b1;
         (r3, b3) = write_int32 (int (length its)) b2;
         (r4, b4) = write_bytes its b3
     in if r1 < 0 then (INTERNAL, b1) else if r2 < 0 then (INTERNAL, b2)
        else if r3 < 0 then (INTERNAL, b3) else if r4 < 0 then (INTERNAL, b4) else (SUCCESS, b4))"

definition serialize_new_root_body :: "page_num \<Rightarrow> byte list \<Rightarrow> page_num \<Rightarrow> serializer \<Rightarrow> RC \<times> serializer" where
  "serialize_new_root_body first k q buffer =
    (SUCCESS, snd (write_bytes k (snd (write_int32 (int (length k))
      (snd (write_int32 q (snd (write_int32 first buffer))))))))"

definition serialize_update_key_body :: "int \<Rightarrow> byte list \<Rightarrow> serializer \<Rightarrow> RC \<times> serializer" where
  "serialize_update_key_body index k buffer =
    (SUCCESS, snd (write_bytes k (snd (write_int32 (int (length k)) (snd (write_int32 index buffer))))))"

fun serialize_body :: "log_handler \<Rightarrow> serializer \<Rightarrow> RC \<times> serializer" where
  "serialize_body (InitHeaderPage p h) buffer = (SUCCESS, snd (write_bytes (header_bytes h) buffer))"
| "serialize_body (UpdateRootPage p q old) buffer = (SUCCESS, snd (write_int32 q buffer))"
| "serialize_body (SetParentPage p q old) buffer =
    (let (ret, b) = write_int32 q buffer in (if ret = 0 then SUCCESS else INTERNAL, b))"
| "serialize_body (LeafInitEmpty p) buffer = (SUCCESS, buffer)"
| "serialize_body (LeafSetNextPage p q old) buffer = (SUCCESS, snd (write_int32 q buffer))"
| "serialize_body (InternalInitEmpty p) buffer = (SUCCESS, buffer)"
| "serialize_body (InternalCreateNewRoot p first k q) buffer = serialize_new_root_body first k q buffer"
| "serialize_body (InternalUpdateKey p index k old) buffer = serialize_update_key_body index k buffer"
| "serialize_body (NodeInsert p index its n) buffer = serialize_normal_body index its n buffer"
| "serialize_body (NodeRemove p index its n) buffer = serialize_normal_body index its n buffer"

definition serialize :: "log_handler \<Rightarrow> serializer \<Rightarrow> RC \<times> serializer" where
  "serialize e buffer =
    (let (rc, b) = serialize_header e buffer in if OB_FAIL rc then (rc, b) else serialize_body e b)"

text \<open>The payload that \<^verbatim>\<open>commit\<close> appends to the log; nothing is appended for an empty transaction.\<close>

definition commit_payload :: "int \<Rightarrow> log_handler list \<Rightarrow> byte list option" where
  "commit_payload bp_id entries =
    (if entries = [] then None
     else Some (foldl (\<lambda>b e. snd (serialize e b)) (snd (write_int32 bp_id [])) entries))"

section \<open>Reading records\<close>

text \<open>
  The result: the code, the handler (when the code is SUCCESS) and the advanced buffer.  A
  \<^verbatim>\<open>vector\<close> cannot be created with a negative size.  The values a record does not store (the
  old parent, page or key) are set to their defaults.
\<close>

type_synonym parsed = "RC \<times> log_handler option \<times> deserializer"

definition read_vector :: "int \<Rightarrow> deserializer \<Rightarrow> (int \<times> byte list \<times> deserializer) option" where
  "read_vector size32 d = (if size32 < 0 then None else Some (read_bytes (nat size32) d))"

definition deserialize_init_header :: "page_num \<Rightarrow> deserializer \<Rightarrow> parsed" where
  "deserialize_init_header p d =
    (let (ret, bs, d1) = read_bytes 24 d
     in if ret \<noteq> 0 then (INTERNAL, None, d1)
        else (SUCCESS, Some (InitHeaderPage p (header_of_bytes bs)), d1))"

definition deserialize_page_field ::
  "(page_num \<Rightarrow> page_num \<Rightarrow> page_num \<Rightarrow> log_handler) \<Rightarrow> page_num \<Rightarrow> deserializer \<Rightarrow> parsed" where
  "deserialize_page_field handler p d =
    (let (ret, q, d1) = read_int32 d
     in if ret < 0 then (INTERNAL, None, d1) else (SUCCESS, Some (handler p q (- 1)), d1))"

definition deserialize_set_parent :: "page_num \<Rightarrow> deserializer \<Rightarrow> parsed" where
  "deserialize_set_parent = deserialize_page_field SetParentPage"

definition deserialize_set_next :: "page_num \<Rightarrow> deserializer \<Rightarrow> parsed" where
  "deserialize_set_next = deserialize_page_field LeafSetNextPage"

definition deserialize_update_root :: "page_num \<Rightarrow> deserializer \<Rightarrow> parsed" where
  "deserialize_update_root = deserialize_page_field UpdateRootPage"

definition deserialize_normal ::
  "(page_num \<Rightarrow> int \<Rightarrow> byte list \<Rightarrow> int \<Rightarrow> log_handler) \<Rightarrow> page_num \<Rightarrow> deserializer \<Rightarrow> parsed option" where
  "deserialize_normal handler p d =
    (let (r1, index, d1) = read_int32 d;
         (r2, item_num, d2) = read_int32 d1;
         (r3, item_bytes, d3) = read_int32 d2
     in if r1 < 0 then Some (INTERNAL, None, d1)
        else if r2 < 0 then Some (INTERNAL, None, d2)
        else if r3 < 0 then Some (INTERNAL, None, d3)
        else Option.bind (read_vector item_bytes d3) (\<lambda>(r4, its, d4).
               Some (if r4 < 0 then (INTERNAL, None, d4)
                     else (SUCCESS, Some (handler p index its item_num), d4))))"

definition deserialize_new_root :: "page_num \<Rightarrow> deserializer \<Rightarrow> parsed option" where
  "deserialize_new_root p d =
    (let (r1, first, d1) = read_int32 d;
         (r2, q, d2) = read_int32 d1;
         (r3, key_size, d3) = read_int32 d2
     in if r1 < 0 then Some (INTERNAL, None, d1)
        else if r2 < 0 then Some (INTERNAL, None, d2)
        else if r3 < 0 then Some (INTERNAL, None, d3)
        else Option.bind (read_vector key_size d3) (\<lambda>(r4, k, d4).
               Some (if r4 < 0 then (INTERNAL, None, d4)
                     else (SUCCESS, Some (InternalCreateNewRoot p first k q), d4))))"

definition deserialize_update_key :: "page_num \<Rightarrow> deserializer \<Rightarrow> parsed option" where
  "deserialize_update_key p d =
    (let (r1, index, d1) = read_int32 d;
         (r2, key_size, d2) = read_int32 d1
     in if r1 < 0 then Some (INTERNAL, None, d1)
        else if r2 < 0 then Some (INTERNAL, None, d2)
        else Option.bind (read_vector key_size d2) (\<lambda>(r3, k, d3).
               Some (if r3 < 0 then (INTERNAL, None, d3)
                     else (SUCCESS, Some (InternalUpdateKey p index k []), d3))))"

definition from_buffer :: "(page_num \<Rightarrow> RC) \<Rightarrow> deserializer \<Rightarrow> parsed option" where
  "from_buffer frame_getter d =
    (let (ret, type, d1) = read_int32 d
     in if ret \<noteq> 0 then Some (INVALID_ARGUMENT, None, d1)
        else if type < 0 \<or> type \<ge> MAX_TYPE then Some (INVALID_ARGUMENT, None, d1)
        else
          let (ret, p, d2) = read_int32 d1
          in if ret \<noteq> 0 then Some (INVALID_ARGUMENT, None, d2)
             else if OB_FAIL (frame_getter p) then Some (frame_getter p, None, d2)
             else if type = 0 then Some (deserialize_init_header p d2)
             else if type = 1 then Some (deserialize_update_root p d2)
             else if type = 2 then Some (deserialize_set_parent p d2)
             else if type = 3 then Some (SUCCESS, Some (LeafInitEmpty p), d2)
             else if type = 4 then Some (deserialize_set_next p d2)
             else if type = 5 then Some (SUCCESS, Some (InternalInitEmpty p), d2)
             else if type = 6 then deserialize_new_root p d2
             else if type = 7 then deserialize_update_key p d2
             else if type = 8 then deserialize_normal NodeInsert p d2
             else deserialize_normal NodeRemove p d2)"

section \<open>Redo\<close>

text \<open>While records are replayed or rolled back, \<^verbatim>\<open>need_log_\<close> is false and nothing is logged.\<close>

definition without_log :: "(tree_handler \<Rightarrow> tree_handler) \<Rightarrow> tree_handler \<Rightarrow> tree_handler" where
  "without_log f st = (f st) \<lparr> th_log := th_log st \<rparr>"

definition recover_init_header_page :: "index_file_header \<Rightarrow> tree_handler \<Rightarrow> RC \<times> tree_handler" where
  "recover_init_header_page h st = (SUCCESS, st \<lparr> th_header := h, th_header_page := h \<rparr>)"

definition recover_update_root_page :: "page_num \<Rightarrow> tree_handler \<Rightarrow> RC \<times> tree_handler" where
  "recover_update_root_page q st = (SUCCESS, without_log (update_root_page_num_locked q) st)"

definition raw_items :: "tree_handler \<Rightarrow> page_num \<Rightarrow> byte list \<Rightarrow> int \<Rightarrow> items" where
  "raw_items st p its n =
    (if is_leaf (node_at st p) then LeafItems (leaf_items_of (attr_length (th_header st)) (nat n) its)
     else InternalItems (internal_items_of (attr_length (th_header st)) (nat n) its))"

definition redo_insert :: "page_num \<Rightarrow> int \<Rightarrow> byte list \<Rightarrow> int \<Rightarrow> tree_handler \<Rightarrow> RC \<times> tree_handler" where
  "redo_insert p index its n st =
    (SUCCESS, change p (recover_insert_items (nat index) (raw_items st p its n)) st)"

definition redo_remove :: "page_num \<Rightarrow> int \<Rightarrow> int \<Rightarrow> tree_handler \<Rightarrow> RC \<times> tree_handler" where
  "redo_remove p index n st = (SUCCESS, change p (recover_remove_items (nat index) (nat n)) st)"

fun redo :: "log_handler \<Rightarrow> tree_handler \<Rightarrow> RC \<times> tree_handler" where
  "redo (InitHeaderPage p h) st = recover_init_header_page h st"
| "redo (UpdateRootPage p q old) st = recover_update_root_page q st"
| "redo (SetParentPage p q old) st = (SUCCESS, without_log (set_parent_page_num p q) st)"
| "redo (LeafInitEmpty p) st = (SUCCESS, without_log (leaf_init_empty p) st)"
| "redo (LeafSetNextPage p q old) st = (SUCCESS, without_log (set_next_page p q) st)"
| "redo (InternalInitEmpty p) st = (SUCCESS, without_log (internal_init_empty p) st)"
| "redo (InternalCreateNewRoot p first k q) st =
    (SUCCESS, without_log (create_new_root p first (key_of_bytes (attr_length (th_header st)) k) q) st)"
| "redo (InternalUpdateKey p index k old) st =
    (SUCCESS, without_log (set_key_at p (nat index) (key_of_bytes (attr_length (th_header st)) k)) st)"
| "redo (NodeInsert p index its n) st = redo_insert p index its n st"
| "redo (NodeRemove p index its n) st = redo_remove p index n st"

text \<open>The tree with the log sequence numbers of its pages.\<close>

record redo_state =
  rs_tree :: tree_handler
  rs_lsn :: "page_num \<Rightarrow> lsn"

partial_function (option) redo_loop ::
  "(page_num \<Rightarrow> RC) \<Rightarrow> lsn \<Rightarrow> deserializer \<Rightarrow> page_num list \<Rightarrow> redo_state \<Rightarrow> (RC \<times> page_num list \<times> redo_state) option" where
  "redo_loop frame_getter lsn0 d frames rs =
    (if remain d > 0 then
       Option.bind (from_buffer frame_getter d) (\<lambda>(rc, handler, d1).
         if OB_FAIL rc then Some (rc, frames, rs)
         else case handler of
                None \<Rightarrow> None
              | Some e \<Rightarrow>
                  if rs_lsn rs (lh_page e) \<ge> lsn0 then redo_loop frame_getter lsn0 d1 frames rs
                  else
                    let (rc, st) = redo e (rs_tree rs)
                    in if OB_FAIL rc then Some (rc, frames @ [lh_page e], rs \<lparr> rs_tree := st \<rparr>)
                       else redo_loop frame_getter lsn0 d1 (frames @ [lh_page e]) (rs \<lparr> rs_tree := st \<rparr>))
     else Some (SUCCESS, frames, rs))"

definition redo_records :: "(page_num \<Rightarrow> RC) \<Rightarrow> lsn \<Rightarrow> deserializer \<Rightarrow> redo_state \<Rightarrow> (RC \<times> redo_state) option" where
  "redo_records frame_getter lsn0 d rs =
    Option.bind (redo_loop frame_getter lsn0 d [] rs) (\<lambda>(rc, frames, rs').
      Some (SUCCESS,
        if OB_SUCC rc then rs' \<lparr> rs_lsn := (\<lambda>p. if p \<in> set frames then lsn0 else rs_lsn rs' p) \<rparr>
        else rs'))"

text \<open>
  \<^verbatim>\<open>BplusTreeHandler::open\<close> on an open buffer pool reads the header page; the pages stay where they are.
\<close>

definition tree_open :: "(page_num \<Rightarrow> RC) \<Rightarrow> tree_handler \<Rightarrow> RC \<times> tree_handler" where
  "tree_open get_this_page st =
    (let rc = get_this_page FIRST_INDEX_PAGE
     in if OB_FAIL rc then (rc, st) else (SUCCESS, st \<lparr> th_header := th_header_page st \<rparr>))"

text \<open>\<^verbatim>\<open>BplusTreeLogger::redo\<close>: the payload starts with the id of the buffer pool it belongs to.\<close>

definition replay_payload ::
  "(int \<Rightarrow> RC) \<Rightarrow> (page_num \<Rightarrow> RC) \<Rightarrow> lsn \<Rightarrow> byte list \<Rightarrow> redo_state \<Rightarrow> (RC \<times> redo_state) option" where
  "replay_payload get_buffer_pool frame_getter lsn0 payload rs =
    (let (ret, bp_id, d) = read_int32 (deserializer_init payload)
     in if ret \<noteq> 0 then Some (IOERR_READ, rs)
        else if OB_FAIL (get_buffer_pool bp_id) then Some (get_buffer_pool bp_id, rs)
        else
          let (rc, st) = tree_open frame_getter (rs_tree rs)
          in if OB_FAIL rc then Some (rc, rs)
             else redo_records frame_getter lsn0 d (rs \<lparr> rs_tree := st \<rparr>))"

section \<open>Rollback\<close>

text \<open>
  \<^verbatim>\<open>NormalOperationLogEntryHandler::rollback\<close> works with the base class \<^verbatim>\<open>IndexNodeHandler\<close>, whose
  \<^verbatim>\<open>__item_at\<close> is a null pointer: moving or copying items ends the program.
\<close>

definition rollback_insert :: "page_num \<Rightarrow> int \<Rightarrow> int \<Rightarrow> tree_handler \<Rightarrow> (RC \<times> tree_handler) option" where
  "rollback_insert p index n st =
    (if index < int (node_size (node_at st p)) - n then None
     else Some (SUCCESS, change p (recover_remove_items (nat index) (nat n)) st))"

definition rollback_remove :: "page_num \<Rightarrow> int \<Rightarrow> int \<Rightarrow> tree_handler \<Rightarrow> (RC \<times> tree_handler) option" where
  "rollback_remove p index n st =
    (if index < int (node_size (node_at st p)) \<or> 0 < n then None else Some (SUCCESS, st))"

fun rollback :: "log_handler \<Rightarrow> tree_handler \<Rightarrow> (RC \<times> tree_handler) option" where
  "rollback (InitHeaderPage p h) st = Some (SUCCESS, st)"
| "rollback (UpdateRootPage p q old) st = Some (recover_update_root_page old st)"
| "rollback (SetParentPage p q old) st = Some (SUCCESS, without_log (set_parent_page_num p old) st)"
| "rollback (LeafInitEmpty p) st = Some (SUCCESS, st)"
| "rollback (LeafSetNextPage p q old) st = Some (SUCCESS, without_log (set_next_page p old) st)"
| "rollback (InternalInitEmpty p) st = Some (SUCCESS, st)"
| "rollback (InternalCreateNewRoot p first k q) st = Some (SUCCESS, st)"
| "rollback (InternalUpdateKey p index k old) st =
    Some (SUCCESS, without_log (set_key_at p (nat index) (key_of_bytes (attr_length (th_header st)) old)) st)"
| "rollback (NodeInsert p index its n) st = rollback_insert p index n st"
| "rollback (NodeRemove p index its n) st = rollback_remove p index n st"

fun rollback_entries :: "log_handler list \<Rightarrow> tree_handler \<Rightarrow> tree_handler option" where
  "rollback_entries [] st = Some st"
| "rollback_entries (e # es) st = Option.bind (rollback e st) (\<lambda>(rc, st'). rollback_entries es st')"

definition logger_rollback :: "tree_handler \<Rightarrow> (RC \<times> tree_handler) option" where
  "logger_rollback st =
    Option.bind (rollback_entries (rev (map log_handler_of (th_log st))) st) (\<lambda>st'.
      Some (SUCCESS, st' \<lparr> th_log := [] \<rparr>))"

section \<open>The byte format\<close>

fun body_bytes :: "log_handler \<Rightarrow> byte list" where
  "body_bytes (InitHeaderPage p h) = header_bytes h"
| "body_bytes (UpdateRootPage p q old) = le_bytes 4 q"
| "body_bytes (SetParentPage p q old) = le_bytes 4 q"
| "body_bytes (LeafInitEmpty p) = []"
| "body_bytes (LeafSetNextPage p q old) = le_bytes 4 q"
| "body_bytes (InternalInitEmpty p) = []"
| "body_bytes (InternalCreateNewRoot p first k q) =
    le_bytes 4 first @ le_bytes 4 q @ le_bytes 4 (int (length k)) @ k"
| "body_bytes (InternalUpdateKey p index k old) = le_bytes 4 index @ le_bytes 4 (int (length k)) @ k"
| "body_bytes (NodeInsert p index its n) =
    le_bytes 4 index @ le_bytes 4 n @ le_bytes 4 (int (length its)) @ its"
| "body_bytes (NodeRemove p index its n) =
    le_bytes 4 index @ le_bytes 4 n @ le_bytes 4 (int (length its)) @ its"

definition entry_bytes :: "log_handler \<Rightarrow> byte list" where
  "entry_bytes e = le_bytes 4 (operation_index e) @ le_bytes 4 (lh_page e) @ body_bytes e"

lemmas write_defs = write_int32_def write_bytes_def

lemma serialize_bytes: "serialize e b = (SUCCESS, b @ entry_bytes e)"
  by (cases e) (simp_all add: serialize_def serialize_header_def entry_bytes_def serialize_normal_body_def
      serialize_new_root_body_def serialize_update_key_body_def write_defs rc_simps)

lemma foldl_serialize: "foldl (\<lambda>b e. snd (serialize e b)) b es = b @ concat (map entry_bytes es)"
  by (induction es arbitrary: b) (simp_all add: serialize_bytes)

lemma commit_payload_bytes:
  "es \<noteq> [] \<Longrightarrow> commit_payload bp_id es = Some (le_bytes 4 bp_id @ concat (map entry_bytes es))"
  by (simp add: commit_payload_def foldl_serialize write_defs)

text \<open>Records whose numbers fit their fields.\<close>

definition header_fits :: "index_file_header \<Rightarrow> bool" where
  "header_fits h \<longleftrightarrow> int32 (root_page h) \<and> int32 (int (internal_max_size h)) \<and> int32 (int (leaf_max_size h)) \<and>
     int32 (int (attr_length h)) \<and> int32 (int (key_length h))"

fun fits :: "log_handler \<Rightarrow> bool" where
  "fits (InitHeaderPage p h) \<longleftrightarrow> int32 p \<and> header_fits h"
| "fits (UpdateRootPage p q old) \<longleftrightarrow> int32 p \<and> int32 q"
| "fits (SetParentPage p q old) \<longleftrightarrow> int32 p \<and> int32 q"
| "fits (LeafInitEmpty p) \<longleftrightarrow> int32 p"
| "fits (LeafSetNextPage p q old) \<longleftrightarrow> int32 p \<and> int32 q"
| "fits (InternalInitEmpty p) \<longleftrightarrow> int32 p"
| "fits (InternalCreateNewRoot p first k q) \<longleftrightarrow> int32 p \<and> int32 first \<and> int32 q \<and> int32 (int (length k))"
| "fits (InternalUpdateKey p index k old) \<longleftrightarrow> int32 p \<and> int32 index \<and> int32 (int (length k))"
| "fits (NodeInsert p index its n) \<longleftrightarrow> int32 p \<and> int32 index \<and> int32 n \<and> int32 (int (length its))"
| "fits (NodeRemove p index its n) \<longleftrightarrow> int32 p \<and> int32 index \<and> int32 n \<and> int32 (int (length its))"

text \<open>What a record keeps: everything but the old values, which only a rollback needs.\<close>

fun forget_old :: "log_handler \<Rightarrow> log_handler" where
  "forget_old (UpdateRootPage p q old) = UpdateRootPage p q (- 1)"
| "forget_old (SetParentPage p q old) = SetParentPage p q (- 1)"
| "forget_old (LeafSetNextPage p q old) = LeafSetNextPage p q (- 1)"
| "forget_old (InternalUpdateKey p index k old) = InternalUpdateKey p index k []"
| "forget_old e = e"

lemma lh_page_forget_old [simp]: "lh_page (forget_old e) = lh_page e"
  by (cases e) simp_all

lemma redo_forget_old [simp]: "redo (forget_old e) st = redo e st"
  by (cases e) simp_all

lemma fits_page: "fits e \<Longrightarrow> int32 (lh_page e)"
  by (cases e) simp_all

lemma attr_type_of_code [simp]: "attr_type_of_code (attr_type_code t) = t"
  by (cases t) (simp_all add: attr_type_of_code_def)

lemma attr_type_code_fits: "int32 (attr_type_code t)"
  by (cases t) (simp_all add: int32_def)

lemma header_of_header_bytes: "header_fits h \<Longrightarrow> header_of_bytes (header_bytes h) = h"
  by (simp add: header_of_bytes_def header_bytes_def header_fits_def Let_def int32_bytes attr_type_code_fits)

lemma length_header_bytes [simp]: "length (header_bytes h) = 24"
  by (simp add: header_bytes_def)

section \<open>Reading back what was written\<close>

lemma read_page_field:
  "unread d (le_bytes 4 q @ rest) \<Longrightarrow> int32 q \<Longrightarrow>
   \<exists>d'. deserialize_page_field handler p d = (SUCCESS, Some (handler p q (- 1)), d') \<and> unread d' rest"
  using read_int32_front [of d q rest] by (auto simp: deserialize_page_field_def)

lemma read_vector_front:
  "unread d (bs @ rest) \<Longrightarrow> read_vector (int (length bs)) d = Some (0, bs, advance (length bs) d)"
  "unread d (bs @ rest) \<Longrightarrow> unread (advance (length bs) d) rest"
  using read_bytes_front [of d bs rest] by (simp_all add: read_vector_def)

lemma read_normal:
  assumes "unread d (le_bytes 4 index @ le_bytes 4 n @ le_bytes 4 (int (length its)) @ its @ rest)"
    "int32 index" "int32 n" "int32 (int (length its))"
  shows "\<exists>d'. deserialize_normal handler p d = Some (SUCCESS, Some (handler p index its n), d') \<and> unread d' rest"
proof -
  note r1 = read_int32_front [OF assms(1,2)]
  note r2 = read_int32_front [OF r1(2) assms(3)]
  note r3 = read_int32_front [OF r2(2) assms(4)]
  from r1(1) r2(1) r3(1) read_vector_front [OF r3(2)] show ?thesis by (auto simp: deserialize_normal_def)
qed

lemma read_new_root:
  assumes "unread d (le_bytes 4 first @ le_bytes 4 q @ le_bytes 4 (int (length k)) @ k @ rest)"
    "int32 first" "int32 q" "int32 (int (length k))"
  shows "\<exists>d'. deserialize_new_root p d = Some (SUCCESS, Some (InternalCreateNewRoot p first k q), d') \<and> unread d' rest"
proof -
  note r1 = read_int32_front [OF assms(1,2)]
  note r2 = read_int32_front [OF r1(2) assms(3)]
  note r3 = read_int32_front [OF r2(2) assms(4)]
  from r1(1) r2(1) r3(1) read_vector_front [OF r3(2)] show ?thesis by (auto simp: deserialize_new_root_def)
qed

lemma read_update_key:
  assumes "unread d (le_bytes 4 index @ le_bytes 4 (int (length k)) @ k @ rest)"
    "int32 index" "int32 (int (length k))"
  shows "\<exists>d'. deserialize_update_key p d = Some (SUCCESS, Some (InternalUpdateKey p index k []), d') \<and> unread d' rest"
proof -
  note r1 = read_int32_front [OF assms(1,2)]
  note r2 = read_int32_front [OF r1(2) assms(3)]
  from r1(1) r2(1) read_vector_front [OF r2(2)] show ?thesis by (auto simp: deserialize_update_key_def)
qed

lemma read_init_header:
  assumes "unread d (header_bytes h @ rest)" "header_fits h"
  shows "\<exists>d'. deserialize_init_header p d = (SUCCESS, Some (InitHeaderPage p h), d') \<and> unread d' rest"
  using read_bytes_front [OF assms(1)] header_of_header_bytes [OF assms(2)]
  by (auto simp: deserialize_init_header_def)

lemma from_buffer_entry:
  assumes "unread d (entry_bytes e @ rest)" "fits e" "frame_getter (lh_page e) = SUCCESS"
  shows "\<exists>d'. from_buffer frame_getter d = Some (SUCCESS, Some (forget_old e), d') \<and> unread d' rest"
proof -
  have op: "int32 (operation_index e)" "0 \<le> operation_index e" "operation_index e < MAX_TYPE"
    by (cases e; simp add: int32_def MAX_TYPE_def)+
  from assms(1) have u: "unread d (le_bytes 4 (operation_index e) @ le_bytes 4 (lh_page e) @ body_bytes e @ rest)"
    by (simp add: entry_bytes_def)
  note r1 = read_int32_front [OF u op(1)]
  note r2 = read_int32_front [OF r1(2) fits_page [OF assms(2)]]
  note head = r1(1) r2(1) op assms(3)
  show ?thesis
    using head r2(2) assms(2)
    by (cases e) (auto simp: from_buffer_def rc_simps deserialize_set_parent_def deserialize_set_next_def
        deserialize_update_root_def 
        intro!: read_page_field read_normal read_new_root read_update_key read_init_header)
qed

section \<open>Replaying a transaction\<close>

text \<open>
  What replay means: the records of pages that have not seen the transaction are applied in order,
  and those pages get its number.
\<close>

definition apply_records :: "lsn \<Rightarrow> (page_num \<Rightarrow> lsn) \<Rightarrow> log_handler list \<Rightarrow> tree_handler \<Rightarrow> tree_handler" where
  "apply_records lsn0 page_lsn es st =
    foldl (\<lambda>st e. if page_lsn (lh_page e) \<ge> lsn0 then st else snd (redo e st)) st es"

definition replayed :: "lsn \<Rightarrow> log_handler list \<Rightarrow> redo_state \<Rightarrow> redo_state" where
  "replayed lsn0 es rs =
    rs \<lparr> rs_tree := apply_records lsn0 (rs_lsn rs) es (rs_tree rs),
         rs_lsn := (\<lambda>p. if p \<in> lh_page ` set es \<and> rs_lsn rs p < lsn0 then lsn0 else rs_lsn rs p) \<rparr>"

definition reopened :: "redo_state \<Rightarrow> redo_state" where
  "reopened rs = rs \<lparr> rs_tree := (rs_tree rs) \<lparr> th_header := th_header_page (rs_tree rs) \<rparr> \<rparr>"

lemma redo_succeeds: "fst (redo e st) = SUCCESS"
  by (cases e) (simp_all add: recover_init_header_page_def recover_update_root_page_def redo_insert_def redo_remove_def)

lemma entry_bytes_nonempty: "0 < length (entry_bytes e)"
  by (simp add: entry_bytes_def)

lemma redo_loop_entries:
  assumes "\<forall>e\<in>set es. fits e" "\<And>e. e \<in> set es \<Longrightarrow> frame_getter (lh_page e) = SUCCESS"
    "unread d (concat (map entry_bytes es))"
  shows "redo_loop frame_getter lsn0 d frames rs =
    Some (SUCCESS, frames @ map lh_page (filter (\<lambda>e. rs_lsn rs (lh_page e) < lsn0) es),
      rs \<lparr> rs_tree := apply_records lsn0 (rs_lsn rs) es (rs_tree rs) \<rparr>)"
  using assms
proof (induction es arbitrary: d frames rs)
  case Nil
  then have "remain d = 0" by (simp add: unread_remain)
  then show ?case by (subst redo_loop.simps) (simp add: apply_records_def)
next
  case (Cons e es)
  have u: "unread d (entry_bytes e @ concat (map entry_bytes es))" using Cons.prems(3) by simp
  from from_buffer_entry [OF u, of frame_getter] Cons.prems(1,2) obtain d' where
    d': "from_buffer frame_getter d = Some (SUCCESS, Some (forget_old e), d')" "unread d' (concat (map entry_bytes es))"
    by auto
  have "0 < remain d"
    using unread_remain [OF u] entry_bytes_nonempty [of e] unfolding length_append by linarith
  then have step: "redo_loop frame_getter lsn0 d frames rs =
      (if rs_lsn rs (lh_page e) \<ge> lsn0 then redo_loop frame_getter lsn0 d' frames rs
       else redo_loop frame_getter lsn0 d' (frames @ [lh_page e]) (rs \<lparr> rs_tree := snd (redo e (rs_tree rs)) \<rparr>))"
    using redo_succeeds [of e "rs_tree rs"] d'(1)
    by (subst redo_loop.simps) (cases "redo e (rs_tree rs)"; simp add: rc_simps)
  have "\<forall>e\<in>set es. fits e" using Cons.prems(1) by simp
  note IH = Cons.IH [OF this Cons.prems(2) d'(2)]
  show ?case unfolding step by (simp add: IH apply_records_def not_le)
qed

lemma replay_payload_bytes:
  assumes "int32 bp_id" "get_buffer_pool bp_id = SUCCESS" "\<forall>e\<in>set es. fits e"
    "\<And>e. e \<in> set es \<Longrightarrow> frame_getter (lh_page e) = SUCCESS"
    "frame_getter FIRST_INDEX_PAGE = SUCCESS"
  shows "replay_payload get_buffer_pool frame_getter lsn0 (le_bytes 4 bp_id @ concat (map entry_bytes es)) rs =
    Some (SUCCESS, replayed lsn0 es (reopened rs))"
proof -
  have opened: "tree_open frame_getter (rs_tree rs) = (SUCCESS, rs_tree (reopened rs))"
    using assms(5) by (simp add: tree_open_def rc_simps reopened_def)
  let ?bs = "le_bytes 4 bp_id @ concat (map entry_bytes es)"
  note r = read_int32_front [OF unread_init assms(1), of "concat (map entry_bytes es)"]
  have touched: "p \<in> lh_page ` {e \<in> set es. rs_lsn rs (lh_page e) < lsn0} \<longleftrightarrow>
      p \<in> lh_page ` set es \<and> rs_lsn rs p < lsn0" for p by auto
  show ?thesis
    using r(1) touched redo_loop_entries [where es = es and frame_getter = frame_getter, OF assms(3,4) r(2)] assms(2) opened
    by (simp add: replay_payload_def redo_records_def replayed_def reopened_def rc_simps cong: if_cong)
qed

lemma apply_records_done:
  "(\<And>e. e \<in> set es \<Longrightarrow> lsn0 \<le> page_lsn (lh_page e)) \<Longrightarrow> apply_records lsn0 page_lsn es st = st"
  by (induction es arbitrary: st) (auto simp: apply_records_def)

lemma replayed_twice: "replayed lsn0 es (replayed lsn0 es rs) = replayed lsn0 es rs"
proof -
  let ?rs = "replayed lsn0 es rs"
  have "lsn0 \<le> rs_lsn ?rs (lh_page e)" if "e \<in> set es" for e using that by (auto simp: replayed_def)
  then have "apply_records lsn0 (rs_lsn ?rs) es (rs_tree ?rs) = rs_tree ?rs" by (rule apply_records_done)
  then show ?thesis by (auto simp: replayed_def fun_eq_iff)
qed

text \<open>Redo writes the header page and the handler's copy of it together.\<close>

lemma redo_header:
  "th_header st = th_header_page st \<Longrightarrow> th_header (snd (redo e st)) = th_header_page (snd (redo e st))"
  by (cases e) (simp_all add: recover_init_header_page_def recover_update_root_page_def redo_insert_def redo_remove_def
      without_log_def update_root_page_num_locked_def set_root_page_def append_log_entry_def change_def
      set_parent_page_num_def leaf_init_empty_def set_next_page_def internal_init_empty_def create_new_root_def set_key_at_def)

lemma apply_records_header:
  "th_header st = th_header_page st \<Longrightarrow>
   th_header (apply_records lsn0 page_lsn es st) = th_header_page (apply_records lsn0 page_lsn es st)"
  by (induction es arbitrary: st) (simp_all add: apply_records_def redo_header)

lemma reopened_replayed: "reopened (replayed lsn0 es (reopened rs)) = replayed lsn0 es (reopened rs)"
  using apply_records_header [of "rs_tree (reopened rs)" lsn0 "rs_lsn rs" es] by (simp add: reopened_def replayed_def)

section \<open>Properties\<close>

text \<open>
  C23: the payload that commit writes for a mini transaction is read back record by record and
  replayed completely: every record of a page older than the transaction is applied, in the order
  of the transaction, records of pages that already contain it are skipped, and the pages touched
  get the number of the transaction.  Replaying the same payload again changes nothing.
\<close>

theorem commit_replay:
  assumes "es \<noteq> []" "\<forall>e\<in>set es. fits e" "int32 bp_id" "get_buffer_pool bp_id = SUCCESS"
    "\<forall>e\<in>set es. frame_getter (lh_page e) = SUCCESS" "frame_getter FIRST_INDEX_PAGE = SUCCESS"
  shows "\<exists>payload. commit_payload bp_id es = Some payload \<and>
    (let rs' = replayed lsn0 es (reopened rs)
     in replay_payload get_buffer_pool frame_getter lsn0 payload rs = Some (SUCCESS, rs') \<and>
        replay_payload get_buffer_pool frame_getter lsn0 payload rs' = Some (SUCCESS, rs'))"
proof -
  from assms(5) have frames: "\<And>e. e \<in> set es \<Longrightarrow> frame_getter (lh_page e) = SUCCESS" by blast
  show ?thesis
    using commit_payload_bytes [OF assms(1), of bp_id] reopened_replayed replayed_twice
      replay_payload_bytes [of bp_id get_buffer_pool es frame_getter, OF assms(3,4,2) frames assms(6)]
    by (simp add: Let_def)
qed

theorem commit_replay_witness:
  "\<forall>h. \<exists>payload. commit_payload 3 [LeafInitEmpty 2, SetParentPage 2 5 (- 1)] = Some payload \<and>
    replay_payload (\<lambda>_. SUCCESS) (\<lambda>_. SUCCESS) 9 payload
      \<lparr> rs_tree = \<lparr> th_pool = open_new_pool 3, th_pages = [2 \<mapsto> InternalNode 0 []],
          th_header = h, th_header_page = h, th_log = [] \<rparr>, rs_lsn = (\<lambda>_. 4) \<rparr> =
    Some (SUCCESS, \<lparr> rs_tree = \<lparr> th_pool = open_new_pool 3, th_pages = [2 \<mapsto> LeafNode 5 (- 1) []],
          th_header = h, th_header_page = h, th_log = [] \<rparr>, rs_lsn = (\<lambda>p. if p = 2 then 9 else 4) \<rparr>)"
proof
  fix h
  let ?es = "[LeafInitEmpty 2, SetParentPage 2 5 (- 1)]"
  let ?rs = "\<lparr> rs_tree = \<lparr> th_pool = open_new_pool 3, th_pages = [2 \<mapsto> InternalNode 0 []],
    th_header = h, th_header_page = h, th_log = [] \<rparr>, rs_lsn = (\<lambda>_. 4) \<rparr>"
  let ?rs' = "\<lparr> rs_tree = \<lparr> th_pool = open_new_pool 3, th_pages = [2 \<mapsto> LeafNode 5 (- 1) []],
    th_header = h, th_header_page = h, th_log = [] \<rparr>, rs_lsn = (\<lambda>p. if p = 2 then 9 else 4) \<rparr>"
  have fit: "\<forall>e\<in>set ?es. fits e" "int32 3" by (simp_all add: int32_def)
  have "replayed 9 ?es (reopened ?rs) = ?rs'"
    by (simp add: replayed_def reopened_def apply_records_def without_log_def leaf_init_empty_def set_parent_page_num_def
        change_def append_log_entry_def BP_INVALID_PAGE_NUM_def fun_eq_iff)
  with commit_replay [OF _ fit, of "\<lambda>_. SUCCESS" "\<lambda>_. SUCCESS" 9 ?rs]
  show "\<exists>payload. commit_payload 3 ?es = Some payload \<and>
    replay_payload (\<lambda>_. SUCCESS) (\<lambda>_. SUCCESS) 9 payload ?rs = Some (SUCCESS, ?rs')" by (auto simp: Let_def)
qed

end
