(* ===== verification/Bplus_Recover.thy ===== *)
theory Bplus_Recover
  imports Bplus_Log
begin

text \<open>
  The log of a tree operation is complete: whatever \<^verbatim>\<open>insert_entry\<close> and \<^verbatim>\<open>delete_entry\<close> do to the
  pages and to the header is done again by redoing the records they append, in order.  The proof
  follows the operations down to the node handlers; each of them is \<open>tracked\<close>, and so are their
  compositions and the two walks up the tree.
\<close>

section \<open>Redo of a single record\<close>

fun redo_entry :: "log_entry \<Rightarrow> tree_handler \<Rightarrow> tree_handler" where
  "redo_entry (INIT_HEADER_PAGE h) st = st \<lparr> th_header := h, th_header_page := h \<rparr>"
| "redo_entry (UPDATE_ROOT_PAGE q old) st = set_root_page q st"
| "redo_entry (SET_PARENT_PAGE p q old) st = change p (put_parent q) st"
| "redo_entry (LEAF_INIT_EMPTY p) st = change p (\<lambda>_. LeafNode BP_INVALID_PAGE_NUM BP_INVALID_PAGE_NUM []) st"
| "redo_entry (LEAF_SET_NEXT_PAGE p q old) st = change p (put_next q) st"
| "redo_entry (INTERNAL_INIT_EMPTY p) st = change p (\<lambda>_. InternalNode BP_INVALID_PAGE_NUM []) st"
| "redo_entry (INTERNAL_CREATE_NEW_ROOT p first k q) st =
     change p (put_new_root (attr_length (th_header st)) first k q) st"
| "redo_entry (INTERNAL_UPDATE_KEY p index k old) st = change p (put_key index k) st"
| "redo_entry (NODE_INSERT p index new) st = change p (recover_insert_items index new) st"
| "redo_entry (NODE_REMOVE p index old) st = change p (recover_remove_items index (item_count old)) st"

definition redo_entries :: "log_entry list \<Rightarrow> tree_handler \<Rightarrow> tree_handler" where
  "redo_entries es st = foldl (\<lambda>st e. redo_entry e st) st es"

lemma redo_entries_simps [simp]:
  "redo_entries [] st = st" "redo_entries (e # es) st = redo_entries es (redo_entry e st)"
  "redo_entries (es @ fs) st = redo_entries fs (redo_entries es st)"
  by (simp_all add: redo_entries_def)

text \<open>Decoding the bytes of a record gives the items it was written for.\<close>

definition rid_fits :: "rid \<Rightarrow> bool" where
  "rid_fits r \<longleftrightarrow> int32 (rid_page_num r) \<and> int32 (rid_slot_num r)"

definition key_fits :: "nat \<Rightarrow> key \<Rightarrow> bool" where
  "key_fits attr_len k \<longleftrightarrow> length (key_attr k) = attr_len \<and> rid_fits (key_rid k)"

fun items_fit :: "nat \<Rightarrow> items \<Rightarrow> bool" where
  "items_fit attr_len (LeafItems xs) \<longleftrightarrow> (\<forall>x\<in>set xs. key_fits attr_len (fst x) \<and> rid_fits (snd x))"
| "items_fit attr_len (InternalItems xs) \<longleftrightarrow> (\<forall>x\<in>set xs. key_fits attr_len (fst x) \<and> int32 (snd x))"

lemma length_rid_bytes [simp]: "length (rid_bytes r) = 8"
  by (simp add: rid_bytes_def)

lemma rid_of_rid_bytes: "rid_fits r \<Longrightarrow> rid_of_bytes (rid_bytes r @ bs) = r"
  by (simp add: rid_of_bytes_def rid_bytes_def rid_fits_def int32_bytes)

lemma key_of_key_bytes: "key_fits n k \<Longrightarrow> key_of_bytes n (key_bytes k @ bs) = k"
  using rid_of_rid_bytes [of "key_rid k" "[]"] by (cases k) (simp add: key_of_bytes_def key_bytes_def key_fits_def)

lemma length_key_bytes: "key_fits n k \<Longrightarrow> length (key_bytes k) = n + 8"
  by (simp add: key_bytes_def key_fits_def)

lemma leaf_items_of_bytes:
  "items_fit n (LeafItems xs) \<Longrightarrow> leaf_items_of n (length xs) (items_bytes (LeafItems xs)) = xs"
proof (induction xs)
  case (Cons x xs)
  obtain k r where x: "x = (k, r)" by (metis surj_pair)
  from Cons.prems have fit: "key_fits n k" "rid_fits r" by (simp_all add: x)
  have "drop (n + 16) (key_bytes k @ rid_bytes r @ bs) = bs" for bs
    using length_key_bytes [OF fit(1)] by simp
  with Cons fit show ?case
    using key_of_key_bytes [OF fit(1)] rid_of_rid_bytes [OF fit(2)] length_key_bytes [OF fit(1)] by (simp add: x)
qed simp

lemma internal_items_of_bytes:
  "items_fit n (InternalItems xs) \<Longrightarrow> internal_items_of n (length xs) (items_bytes (InternalItems xs)) = xs"
proof (induction xs)
  case (Cons x xs)
  obtain k p where x: "x = (k, p)" by (metis surj_pair)
  from Cons.prems have fit: "key_fits n k" "int32 p" by (simp_all add: x)
  have "drop (n + 12) (key_bytes k @ le_bytes 4 p @ bs) = bs" for bs
    using length_key_bytes [OF fit(1)] by simp
  with Cons fit show ?case
    using key_of_key_bytes [OF fit(1)] int32_bytes [OF fit(2)] length_key_bytes [OF fit(1)] by (simp add: x)
qed simp

fun same_kind :: "items \<Rightarrow> index_node \<Rightarrow> bool" where
  "same_kind (LeafItems xs) n \<longleftrightarrow> is_leaf n"
| "same_kind (InternalItems xs) n \<longleftrightarrow> \<not> is_leaf n"

text \<open>The handler replayed from the log does what \<open>redo_entry\<close> describes.\<close>

fun entry_fits :: "log_entry \<Rightarrow> tree_handler \<Rightarrow> bool" where
  "entry_fits (NODE_INSERT p i its) st \<longleftrightarrow>
     items_fit (attr_length (th_header st)) its \<and> same_kind its (node_at st p)"
| "entry_fits (INTERNAL_CREATE_NEW_ROOT p first k q) st \<longleftrightarrow> key_fits (attr_length (th_header st)) k"
| "entry_fits (INTERNAL_UPDATE_KEY p i k old) st \<longleftrightarrow> key_fits (attr_length (th_header st)) k"
| "entry_fits e st \<longleftrightarrow> True"

lemma without_log_append [simp]:
  "(change p f (append_log_entry e st)) \<lparr> th_log := th_log st \<rparr> = change p f st"
  by (simp add: change_def append_log_entry_def)

lemma redo_log_handler_of:
  assumes "entry_fits e st"
  shows "redo (log_handler_of e) st = (SUCCESS, redo_entry e st)"
proof (cases e)
  case (NODE_INSERT p i its)
  with assms leaf_items_of_bytes internal_items_of_bytes show ?thesis
    by (cases its) (simp_all add: redo_insert_def raw_items_def item_count_def)
next
  case (INTERNAL_CREATE_NEW_ROOT p first k q)
  with assms key_of_key_bytes [of _ k "[]"] show ?thesis by (simp add: without_log_def create_new_root_def)
next
  case (INTERNAL_UPDATE_KEY p i k old)
  with assms key_of_key_bytes [of _ k "[]"] show ?thesis by (simp add: without_log_def set_key_at_def)
next
  case (UPDATE_ROOT_PAGE q old)
  then show ?thesis
    by (simp add: recover_update_root_page_def without_log_def update_root_page_num_locked_def
        set_root_page_def append_log_entry_def)
qed (simp_all add: recover_init_header_page_def without_log_def set_parent_page_num_def
    leaf_init_empty_def set_next_page_def internal_init_empty_def redo_remove_def)

section \<open>Tracked changes\<close>

text \<open>
  \<open>R\<close> is the state found after a crash, and it has everything the tree has.  A change of the tree
  is tracked when the records it appends make the same change in \<open>R\<close>, whatever else \<open>R\<close> holds; the
  pages taken from the file during the change exist in \<open>R\<close>, because their allocation is replayed by
  the buffer pool, with contents that do not matter.
\<close>

definition agrees :: "tree_handler \<Rightarrow> tree_handler \<Rightarrow> bool" where
  "agrees R st \<longleftrightarrow> th_header R = th_header st \<and> th_header_page R = th_header_page st \<and>
     th_pages st \<subseteq>\<^sub>m th_pages R"

definition tracked :: "tree_handler \<Rightarrow> tree_handler \<Rightarrow> bool" where
  "tracked st st' \<longleftrightarrow> dom (th_pages st) \<subseteq> dom (th_pages st') \<and>
     (\<exists>es. th_log st' = th_log st @ es \<and>
        (\<forall>R. agrees R st \<longrightarrow> dom (th_pages st') \<subseteq> dom (th_pages R) \<longrightarrow> agrees (redo_entries es R) st'))"

named_theorems tracks

lemma dom_change [simp]: "dom (th_pages (change p f st)) = dom (th_pages st)"
  by (auto simp: change_def split: if_splits)

lemma dom_redo_entry [simp]: "dom (th_pages (redo_entry e st)) = dom (th_pages st)"
  by (cases e) (simp_all add: set_root_page_def)

lemma dom_redo_entries [simp]: "dom (th_pages (redo_entries es st)) = dom (th_pages st)"
  by (induction es arbitrary: st) simp_all

lemma agrees_change: "agrees R st \<Longrightarrow> agrees (change p f R) (change p f st)"
  by (auto simp: agrees_def change_def map_le_def dom_def split: if_splits)

lemma agrees_log [simp]: "agrees R (st \<lparr> th_log := l \<rparr>) = agrees R st"
  by (simp add: agrees_def)

lemma agrees_pool [simp]: "agrees R (st \<lparr> th_pool := b \<rparr>) = agrees R st"
  by (simp add: agrees_def)

lemma tracked_refl: "tracked st st"
  by (auto simp: tracked_def intro: exI [of _ "[]"])

lemma tracked_trans:
  assumes "tracked a b" "tracked b c"
  shows "tracked a c"
proof -
  from assms obtain es fs where
    log: "th_log b = th_log a @ es" "th_log c = th_log b @ fs" and
    dom: "dom (th_pages a) \<subseteq> dom (th_pages b)" "dom (th_pages b) \<subseteq> dom (th_pages c)" and
    es: "\<And>R. agrees R a \<Longrightarrow> dom (th_pages b) \<subseteq> dom (th_pages R) \<Longrightarrow> agrees (redo_entries es R) b" and
    fs: "\<And>R. agrees R b \<Longrightarrow> dom (th_pages c) \<subseteq> dom (th_pages R) \<Longrightarrow> agrees (redo_entries fs R) c"
    unfolding tracked_def by blast
  have "agrees (redo_entries (es @ fs) R) c" if R: "agrees R a" "dom (th_pages c) \<subseteq> dom (th_pages R)" for R
    using fs [OF es [OF R(1) order_trans [OF dom(2) R(2)]]] R(2) by simp
  with log dom show ?thesis unfolding tracked_def by (intro conjI exI [of _ "es @ fs"]) auto
qed

lemma tracked_entry:
  assumes "\<And>R. agrees R st \<Longrightarrow> agrees (redo_entry e R) st'" "th_log st' = th_log st @ [e]"
    "dom (th_pages st) \<subseteq> dom (th_pages st')"
  shows "tracked st st'"
  using assms unfolding tracked_def by (intro conjI exI [of _ "[e]"]) auto

lemma tracked_change:
  assumes "\<And>R. th_header R = th_header st \<Longrightarrow> redo_entry e R = change p f R"
  shows "tracked st (change p f (append_log_entry e st))"
proof (rule tracked_entry)
  fix R assume "agrees R st"
  then show "agrees (redo_entry e R) (change p f (append_log_entry e st))"
    using agrees_change [of R "append_log_entry e st" p f] assms [of R]
    by (simp add: append_log_entry_def agrees_def)
qed (simp add: change_def append_log_entry_def, simp add: append_log_entry_def)

section \<open>The node operations are tracked\<close>

lemma tracked_set_parent [tracks]: "tracked st (set_parent_page_num p q st)"
  unfolding set_parent_page_num_def by (rule tracked_change) simp

lemma tracked_set_next [tracks]: "tracked st (set_next_page p q st)"
  unfolding set_next_page_def by (rule tracked_change) simp

lemma tracked_node_insert [tracks]: "tracked st (node_insert_items p i new st)"
  unfolding node_insert_items_def by (rule tracked_change) simp

lemma tracked_node_remove [tracks]: "tracked st (node_remove_items p i old st)"
  unfolding node_remove_items_def by (rule tracked_change) simp

lemma tracked_leaf_init [tracks]: "tracked st (leaf_init_empty p st)"
  unfolding leaf_init_empty_def by (rule tracked_change) simp

lemma tracked_internal_init [tracks]: "tracked st (internal_init_empty p st)"
  unfolding internal_init_empty_def by (rule tracked_change) simp

lemma tracked_new_root [tracks]: "tracked st (create_new_root r first k p st)"
  unfolding create_new_root_def by (rule tracked_change) simp

lemma tracked_set_key [tracks]: "tracked st (set_key_at p i k st)"
  unfolding set_key_at_def by (rule tracked_change) simp

lemma tracked_root [tracks]: "tracked st (update_root_page_num_locked q st)"
  unfolding update_root_page_num_locked_def
  by (rule tracked_entry [where e = "UPDATE_ROOT_PAGE q (root_page (th_header_page st))"])
    (auto simp: agrees_def set_root_page_def append_log_entry_def)

lemma tracked_dispose [tracks]: "tracked st (tree_dispose_page p st)"
  unfolding tree_dispose_page_def tracked_def by (auto intro: exI [of _ "[]"])

lemma tracked_allocate_none:
  assumes "tree_allocate_page st = (rc, None, st1)"
  shows "tracked st st1"
  using assms unfolding tree_allocate_page_def tracked_def
  by (auto split: prod.splits option.splits intro: exI [of _ "[]"])

text \<open>A page taken from the file is initialised at once, which makes its old contents irrelevant.\<close>

lemma allocate_pages:
  assumes "tree_allocate_page st = (rc, Some q, st1)"
  shows "th_log st1 = th_log st" "th_header st1 = th_header st" "th_header_page st1 = th_header_page st"
    "p \<noteq> q \<Longrightarrow> th_pages st1 p = th_pages st p" "dom (th_pages st1) = insert q (dom (th_pages st))"
  using assms unfolding tree_allocate_page_def by (auto split: prod.splits option.splits if_splits)

lemma tracked_allocate:
  assumes alloc: "tree_allocate_page st = (rc, Some q, st1)"
    and e: "\<And>R. redo_entry e R = change q (\<lambda>_. n) R"
  shows "tracked st (change q (\<lambda>_. n) (append_log_entry e st1))"
proof -
  let ?st = "change q (\<lambda>_. n) (append_log_entry e st1)"
  note a = allocate_pages [OF alloc]
  have "agrees (redo_entry e R) ?st" if R: "agrees R st" "dom (th_pages ?st) \<subseteq> dom (th_pages R)" for R
  proof -
    from R(2) a(5) obtain m where m: "th_pages R q = Some m" by (auto simp: append_log_entry_def)
    have "th_pages ?st \<subseteq>\<^sub>m th_pages (change q (\<lambda>_. n) R)"
      using R(1) m a(4) by (auto simp: map_le_def agrees_def change_def append_log_entry_def dom_def)
    with R(1) a(2,3) show ?thesis
      unfolding e by (simp add: agrees_def change_def append_log_entry_def)
  qed
  then show ?thesis unfolding tracked_def
    using a(1,5) by (intro conjI exI [of _ "[e]"]) (auto simp: append_log_entry_def change_def)
qed

lemma tracked_allocate_leaf:
  "tree_allocate_page st = (rc, Some q, st1) \<Longrightarrow> tracked st (leaf_init_empty q st1)"
  unfolding leaf_init_empty_def by (rule tracked_allocate) simp_all

lemma tracked_allocate_internal:
  "tree_allocate_page st = (rc, Some q, st1) \<Longrightarrow> tracked st (internal_init_empty q st1)"
  unfolding internal_init_empty_def by (rule tracked_allocate) simp_all

lemma tracked_children: "tracked st (snd (set_children_parent cs q st))"
proof (induction cs arbitrary: st)
  case (Cons c cs)
  from tracked_trans [OF tracked_set_parent Cons.IH] show ?case by (simp add: tracked_refl split: option.split)
qed (simp add: tracked_refl)

text \<open>The operations as steps behind what was tracked before.\<close>

lemmas basic_through = tracks [THEN tracked_trans [rotated]]

lemma tracked_internal_insert_items [tracks]: "tracked st (snd (internal_insert_items p i new st))"
  unfolding internal_insert_items_def by (rule tracked_trans [OF tracked_node_insert tracked_children])

lemmas node_operations = leaf_insert_def leaf_remove_def leaf_append_def leaf_preappend_def
  leaf_move_half_to_def leaf_move_first_to_end_def leaf_move_last_to_front_def leaf_move_to_def
  internal_insert_def internal_remove_def Let_def

lemmas internal_moves = internal_append_def internal_preappend_def internal_move_half_to_def
  internal_move_to_def internal_move_first_to_end_def internal_move_last_to_front_def internal_remove_def Let_def

lemma tracked_leaf_operations [tracks]:
  "tracked st (leaf_insert p i k r st)" "tracked st (leaf_remove p i st)"
  "tracked st (leaf_move_half_to p q st)" "tracked st (leaf_move_first_to_end p q st)"
  "tracked st (leaf_move_last_to_front p q st)" "tracked st (leaf_move_to p q st)"
  "tracked st (internal_remove p i st)"
  unfolding node_operations by (intro tracked_refl basic_through)+

lemma tracked_internal_insert [tracks]: "tracked st (internal_insert cmp p k c st)"
  unfolding node_operations by (simp add: tracked_node_insert split: prod.split)

lemma tracked_internal_moves [tracks]:
  "tracked st (snd (internal_move_half_to p q st))" "tracked st (snd (internal_move_to p q st))"
  "tracked st (snd (internal_move_first_to_end p q st))" "tracked st (snd (internal_move_last_to_front p q st))"
proof -
  have ins: "tracked st st1" if "internal_insert_items q i new st = (rc, st1)" for q i new rc st1
    using tracked_internal_insert_items [of st q i new] that by simp
  show "tracked st (snd (internal_move_half_to p q st))" "tracked st (snd (internal_move_to p q st))"
    "tracked st (snd (internal_move_first_to_end p q st))" "tracked st (snd (internal_move_last_to_front p q st))"
    unfolding internal_moves
    by (auto split: prod.split intro: ins tracked_trans [OF ins tracked_node_remove])
qed

lemmas tracks_through = tracks [THEN tracked_trans [rotated]]

section \<open>The tree operations are tracked\<close>

lemma tracked_split_leaf:
  assumes "split_leaf p st = (rc, new, st')"
  shows "tracked st st'"
  using assms unfolding split_leaf_def
  by (auto split: prod.splits option.splits intro: tracked_allocate_none intro!: tracks_through tracked_allocate_leaf)

lemma tracked_split_internal:
  assumes "split_internal p st = (rc, new, st')"
  shows "tracked st st'"
  using assms unfolding split_internal_def
  by (auto split: prod.splits option.splits intro: tracked_allocate_none intro!: tracks_through tracked_allocate_internal)

lemma tracked_into_parent:
  "insert_entry_into_parent cmp frame new_frame k st = Some (rc, st') \<Longrightarrow> tracked st st'"
proof (induction cmp frame new_frame k st "(rc, st')" rule: insert_entry_into_parent.raw_induct [rotated, consumes 1, case_names walk])
  case (walk f cmp frame new_frame k st)
  have step: "tracked a st'" if "f cmp p q k' b = Some (rc, st')" "tracked a b" for a b p q k'
    using tracked_trans [OF that(2)] walk(1) [OF that(1)] by blast
  show ?case using walk(2)
    by (auto simp: Let_def split: prod.splits option.splits if_splits
        intro: tracked_allocate_none tracked_refl tracked_split_internal
        intro!: tracks_through tracked_allocate_internal
        elim!: step)
qed

lemma tracked_into_leaf:
  assumes "insert_entry_into_leaf_node cmp frame k r st = Some (rc, st')"
  shows "tracked st st'"
proof -
  have step: "tracked a st'" if "insert_entry_into_parent cmp p q k' b = Some (rc, st')" "tracked a b" for a b p q k'
    by (rule tracked_trans [OF that(2) tracked_into_parent [OF that(1)]])
  show ?thesis
    using assms unfolding insert_entry_into_leaf_node_def
    by (auto simp: Let_def split: prod.splits option.splits if_splits
        intro: tracked_refl tracked_split_leaf intro!: tracks_through elim!: step)
qed

lemma tracked_insert_entry:
  assumes "insert_entry cmp user_key r st = Some (rc, st')"
  shows "tracked st st'"
  using assms unfolding insert_entry_def create_new_tree_def
  by (auto simp: Let_def split: prod.splits option.splits if_splits Option.bind_splits
      intro: tracked_refl tracked_into_leaf tracked_allocate_none intro!: tracks_through tracked_allocate_leaf)

lemma tracked_adjust_root: "tracked st (snd (adjust_root p st))"
  unfolding adjust_root_def
  by (auto simp: Let_def split: option.split intro: tracked_refl intro!: tracks_through)

lemma tracked_coalesce:
  assumes "coalesce nb frame parent i st = (rc, st')"
  shows "tracked st st'"
proof -
  have move: "tracked a c" if "internal_move_to p q b = (rc', c)" "tracked a b" for a b c p q rc'
    using tracked_trans [OF that(2), of c] tracked_internal_moves(2) [of b p q] that(1) by simp
  show ?thesis
    using assms unfolding coalesce_def
    by (auto simp: Let_def split: prod.splits if_splits intro: tracked_refl intro!: tracks_through elim!: move)
qed

lemma tracked_redistribute: "tracked st (snd (redistribute nb frame parent i st))"
  unfolding redistribute_def
  by (auto simp: Let_def intro: tracked_refl intro!: tracks_through)

lemma tracked_balance:
  "coalesce_or_redistribute cmp frame st = Some (rc, st') \<Longrightarrow> tracked st st'"
proof (induction cmp frame st "(rc, st')"
    rule: coalesce_or_redistribute.raw_induct [rotated, consumes 1, case_names walk])
  case (walk f cmp frame st)
  have "tracked st st'" if "f cmp p b = Some (rc, st')" "tracked st b" for b p
    using tracked_trans [OF that(2)] walk(1) [OF that(1)] by blast
  moreover have "tracked st st'" if "redistribute p q r i st = (rc, st')" for p q r i
    using tracked_redistribute [of st p q r i] that by simp
  ultimately show ?case
    using walk(2) by (auto simp: Let_def split: prod.splits option.splits if_splits
        intro: tracked_refl tracked_coalesce tracked_adjust_root)
qed

lemma tracked_delete_entry:
  assumes "delete_entry cmp user_key r st = Some (rc, st')"
  shows "tracked st st'"
proof -
  have remove: "tracked st b" if "leaf_remove_key cmp p k st = (n, b)" for p k n b
    using that unfolding leaf_remove_key_def
    by (auto simp: Let_def tracked_refl tracked_leaf_operations split: prod.splits if_splits)
  have "tracked st st'" if "delete_entry_internal cmp p k st = Some (rc, st')" for p k
    using that unfolding delete_entry_internal_def
    by (auto simp: Let_def split: prod.splits if_splits intro: remove tracked_trans [OF remove tracked_balance])
  then show ?thesis
    using assms unfolding delete_entry_def
    by (auto simp: Let_def split: prod.splits if_splits Option.bind_splits intro: tracked_refl)
qed

section \<open>Recovery from the written log\<close>

text \<open>Every record decodes to what was logged, at the point where it is redone.\<close>

fun replayable :: "log_entry list \<Rightarrow> tree_handler \<Rightarrow> bool" where
  "replayable [] st \<longleftrightarrow> True"
| "replayable (e # es) st \<longleftrightarrow> fits (log_handler_of e) \<and> entry_fits e st \<and> replayable es (redo_entry e st)"

lemma replayable_fits: "replayable es st \<Longrightarrow> e \<in> set es \<Longrightarrow> fits (log_handler_of e)"
  by (induction es arbitrary: st) auto

lemma apply_replayable:
  assumes "replayable es st" "\<forall>e\<in>set es. page_lsn (lh_page (log_handler_of e)) < lsn0"
  shows "apply_records lsn0 page_lsn (map log_handler_of es) st = redo_entries es st"
  using assms by (induction es arbitrary: st) (auto simp: apply_records_def redo_log_handler_of)

text \<open>
  A committed transaction and the file it is replayed on: the payload was written by commit, the
  pages it names are older than it and can be fetched.
\<close>

definition committed ::
  "(int \<Rightarrow> RC) \<Rightarrow> (page_num \<Rightarrow> RC) \<Rightarrow> lsn \<Rightarrow> int \<Rightarrow> log_entry list \<Rightarrow> byte list \<Rightarrow> redo_state \<Rightarrow> bool" where
  "committed get_buffer_pool frame_getter lsn0 bp_id es payload rs \<longleftrightarrow>
     commit_payload bp_id (map log_handler_of es) = Some payload \<and>
     int32 bp_id \<and> get_buffer_pool bp_id = SUCCESS \<and> frame_getter FIRST_INDEX_PAGE = SUCCESS \<and>
     replayable es (rs_tree rs) \<and>
     (\<forall>e\<in>set es. frame_getter (lh_page (log_handler_of e)) = SUCCESS \<and> rs_lsn rs (lh_page (log_handler_of e)) < lsn0)"

lemma committed_replayed:
  assumes "committed get_buffer_pool frame_getter lsn0 bp_id es payload rs" "reopened rs = rs"
  shows "replay_payload get_buffer_pool frame_getter lsn0 payload rs =
      Some (SUCCESS, replayed lsn0 (map log_handler_of es) rs)"
    "rs_tree (replayed lsn0 (map log_handler_of es) rs) = redo_entries es (rs_tree rs)"
proof -
  from assms(1) have c: "commit_payload bp_id (map log_handler_of es) = Some payload" "int32 bp_id"
    "get_buffer_pool bp_id = SUCCESS" "replayable es (rs_tree rs)"
    "\<And>e. e \<in> set (map log_handler_of es) \<Longrightarrow> frame_getter (lh_page e) = SUCCESS"
    "\<forall>e\<in>set es. rs_lsn rs (lh_page (log_handler_of e)) < lsn0" "frame_getter FIRST_INDEX_PAGE = SUCCESS"
    by (auto simp: committed_def)
  have "es \<noteq> []" using c(1) by (auto simp: commit_payload_def)
  then have payload: "payload = le_bytes 4 bp_id @ concat (map entry_bytes (map log_handler_of es))"
    using commit_payload_bytes [of "map log_handler_of es" bp_id] c(1) by simp
  have "\<forall>e\<in>set (map log_handler_of es). fits e" using replayable_fits [OF c(4)] by auto
  from replay_payload_bytes [of bp_id get_buffer_pool "map log_handler_of es" frame_getter, OF c(2,3) this c(5,7), of lsn0 rs, unfolded assms(2)]
  show "replay_payload get_buffer_pool frame_getter lsn0 payload rs =
      Some (SUCCESS, replayed lsn0 (map log_handler_of es) rs)" unfolding payload by blast
  show "rs_tree (replayed lsn0 (map log_handler_of es) rs) = redo_entries es (rs_tree rs)"
    using apply_replayable [OF c(4,6)] by (simp add: replayed_def)
qed

lemma tracked_recovered:
  assumes "tracked st st'" "th_log st = []" "th_header st = th_header_page st" "agrees (rs_tree rs) st"
    "dom (th_pages st') \<subseteq> dom (th_pages (rs_tree rs))"
    "committed get_buffer_pool frame_getter lsn0 bp_id (th_log st') payload rs"
  shows "\<exists>rs'. replay_payload get_buffer_pool frame_getter lsn0 payload rs = Some (SUCCESS, rs') \<and>
    agrees (rs_tree rs') st'"
proof -
  have "reopened rs = rs" using assms(3,4) by (simp add: reopened_def agrees_def)
  with assms committed_replayed [OF assms(6)] show ?thesis unfolding tracked_def by auto
qed

text \<open>A tree of one leaf, for examples.\<close>

definition sample_leaf_tree :: "(key \<times> rid) list \<Rightarrow> tree_handler" where
  "sample_leaf_tree es =
    (let h = \<lparr> root_page = 2, internal_max_size = 4, leaf_max_size = 4, attr_length = 1, key_length = 9, attr_type = CHARS \<rparr>
     in \<lparr> th_pool = open_new_pool 3, th_pages = [2 \<mapsto> LeafNode (- 1) (- 1) es],
          th_header = h, th_header_page = h, th_log = [] \<rparr>)"

abbreviation sample_rid :: rid where
  "sample_rid \<equiv> \<lparr> rid_page_num = 1, rid_slot_num = 7 \<rparr>"

definition first_byte_cmp :: "key \<Rightarrow> key \<Rightarrow> int" where
  "first_byte_cmp a b = uint (key_attr a ! 0) - uint (key_attr b ! 0)"

lemmas sample_eval = sample_leaf_tree_def insert_entry_def delete_entry_def delete_entry_internal_def
  leaf_remove_key_def leaf_remove_def node_remove_items_def find_leaf_def find_leaf_internal_def descend.simps
  insert_entry_into_leaf_node_def leaf_lookup_def lower_bound_def loop_unfold first_byte_cmp_def make_key_def
  is_empty_def BP_INVALID_PAGE_NUM_def max_size_def min_size_def leaf_insert_def node_insert_items_def change_def append_log_entry_def
  insert_at_def remove_at_def rc_simps item_count_def Let_def

lemma sample_insert:
  "insert_entry first_byte_cmp [5] sample_rid (sample_leaf_tree []) =
    Some (SUCCESS, (sample_leaf_tree [(Key [5] sample_rid, sample_rid)])
      \<lparr> th_log := [NODE_INSERT 2 0 (LeafItems [(Key [5] sample_rid, sample_rid)])] \<rparr>)"
  by (simp add: sample_eval)

lemma sample_delete:
  "delete_entry first_byte_cmp [5] sample_rid
      (sample_leaf_tree [(Key [3] sample_rid, sample_rid), (Key [5] sample_rid, sample_rid), (Key [6] sample_rid, sample_rid)]) =
    Some (SUCCESS, (sample_leaf_tree [(Key [3] sample_rid, sample_rid), (Key [6] sample_rid, sample_rid)])
      \<lparr> th_log := [NODE_REMOVE 2 1 (LeafItems [(Key [5] sample_rid, sample_rid)])] \<rparr>)"
  by (simp add: sample_eval)

lemma sample_agrees: "agrees (sample_leaf_tree es) (sample_leaf_tree es)" "th_log (sample_leaf_tree es) = []"
  "dom (th_pages (sample_leaf_tree es)) = {2}" "th_header (sample_leaf_tree es) = th_header_page (sample_leaf_tree es)"
  by (simp_all add: agrees_def sample_leaf_tree_def Let_def)

lemmas sample_fits = committed_def int32_def key_fits_def rid_fits_def rid_bytes_def key_bytes_def item_count_def
  sample_leaf_tree_def Let_def

section \<open>Properties\<close>

text \<open>
  C12: an insertion survives a crash.  When insert_entry has succeeded and its mini transaction was
  committed, replaying the written payload on a file that has the pages as they were before (and
  whatever contents in the pages newly taken from the file) gives the header and every page as the
  insertion left them, splits, new roots, parent and leaf links included.
\<close>

theorem insert_entry_recovered:
  assumes "insert_entry cmp user_key r st = Some (SUCCESS, st')" "th_log st = []"
    "th_header st = th_header_page st" "agrees (rs_tree rs) st" "dom (th_pages st') \<subseteq> dom (th_pages (rs_tree rs))"
    "committed get_buffer_pool frame_getter lsn0 bp_id (th_log st') payload rs"
  shows "\<exists>rs'. replay_payload get_buffer_pool frame_getter lsn0 payload rs = Some (SUCCESS, rs') \<and>
    agrees (rs_tree rs') st'"
  by (rule tracked_recovered [OF tracked_insert_entry [OF assms(1)] assms(2-6)])

theorem insert_entry_recovered_witness:
  "\<exists>payload rs'. commit_payload 3 [NodeInsert 2 0 ([5] @ rid_bytes sample_rid @ rid_bytes sample_rid) 1] = Some payload \<and>
    replay_payload (\<lambda>_. SUCCESS) (\<lambda>_. SUCCESS) 9 payload \<lparr> rs_tree = sample_leaf_tree [], rs_lsn = (\<lambda>_. 4) \<rparr> =
      Some (SUCCESS, rs') \<and>
    agrees (rs_tree rs') (sample_leaf_tree [(Key [5] sample_rid, sample_rid)])"
proof -
  let ?rs = "\<lparr> rs_tree = sample_leaf_tree [], rs_lsn = (\<lambda>_. 4) \<rparr>"
  let ?e = "NODE_INSERT 2 0 (LeafItems [(Key [5] sample_rid, sample_rid)])"
  have e: "log_handler_of ?e = NodeInsert 2 0 ([5] @ rid_bytes sample_rid @ rid_bytes sample_rid) 1"
    by (simp add: key_bytes_def item_count_def)
  obtain payload where p: "commit_payload 3 (map log_handler_of [?e]) = Some payload"
    by (simp add: commit_payload_def)
  then have "committed (\<lambda>_. SUCCESS) (\<lambda>_. SUCCESS) 9 3 [?e] payload ?rs" by (simp add: sample_fits)
  with insert_entry_recovered [OF sample_insert, of ?rs "\<lambda>_. SUCCESS" "\<lambda>_. SUCCESS" 9 3 payload]
  show ?thesis using p unfolding list.map e by (auto simp: sample_agrees)
qed

text \<open>
  C13: a deletion survives a crash: replaying the payload of the committed transaction of a
  successful delete_entry gives the pages and the header as the deletion left them, through merges,
  redistributions and the removal of the root.
\<close>

theorem delete_entry_recovered:
  assumes "delete_entry cmp user_key r st = Some (SUCCESS, st')" "th_log st = []"
    "th_header st = th_header_page st" "agrees (rs_tree rs) st" "dom (th_pages st') \<subseteq> dom (th_pages (rs_tree rs))"
    "committed get_buffer_pool frame_getter lsn0 bp_id (th_log st') payload rs"
  shows "\<exists>rs'. replay_payload get_buffer_pool frame_getter lsn0 payload rs = Some (SUCCESS, rs') \<and>
    agrees (rs_tree rs') st'"
  by (rule tracked_recovered [OF tracked_delete_entry [OF assms(1)] assms(2-6)])

theorem delete_entry_recovered_witness:
  "\<exists>payload rs'. commit_payload 3 [NodeRemove 2 1 ([5] @ rid_bytes sample_rid @ rid_bytes sample_rid) 1] = Some payload \<and>
    replay_payload (\<lambda>_. SUCCESS) (\<lambda>_. SUCCESS) 9 payload
      \<lparr> rs_tree = sample_leaf_tree [(Key [3] sample_rid, sample_rid), (Key [5] sample_rid, sample_rid), (Key [6] sample_rid, sample_rid)],
         rs_lsn = (\<lambda>_. 4) \<rparr> = Some (SUCCESS, rs') \<and>
    agrees (rs_tree rs') (sample_leaf_tree [(Key [3] sample_rid, sample_rid), (Key [6] sample_rid, sample_rid)])"
proof -
  let ?rs = "\<lparr> rs_tree = sample_leaf_tree [(Key [3] sample_rid, sample_rid), (Key [5] sample_rid, sample_rid),
    (Key [6] sample_rid, sample_rid)], rs_lsn = (\<lambda>_. 4) \<rparr>"
  let ?e = "NODE_REMOVE 2 1 (LeafItems [(Key [5] sample_rid, sample_rid)])"
  have e: "log_handler_of ?e = NodeRemove 2 1 ([5] @ rid_bytes sample_rid @ rid_bytes sample_rid) 1"
    by (simp add: key_bytes_def item_count_def)
  obtain payload where p: "commit_payload 3 (map log_handler_of [?e]) = Some payload"
    by (simp add: commit_payload_def)
  then have "committed (\<lambda>_. SUCCESS) (\<lambda>_. SUCCESS) 9 3 [?e] payload ?rs" by (simp add: sample_fits)
  with delete_entry_recovered [OF sample_delete, of ?rs "\<lambda>_. SUCCESS" "\<lambda>_. SUCCESS" 9 3 payload]
  show ?thesis using p unfolding list.map e by (auto simp: sample_agrees)
qed

end
