(* ===== verification/Bplus_Validate.thy ===== *)
theory Bplus_Validate
  imports Bplus_Scan
begin

text \<open>
  The checks of \<^verbatim>\<open>BplusTreeHandler::validate_tree\<close>: every node is ordered, linked with its parent and
  within the separators of its parent, and the keys grow along the leaf chain.  The tree walk is
  recursive in the source; it is a partial function here, whose loop over the children of a node
  is \<open>all_children\<close>.
\<close>

section \<open>Checks of one node\<close>

fun keys_ascending :: "(key \<Rightarrow> key \<Rightarrow> int) \<Rightarrow> key list \<Rightarrow> bool" where
  "keys_ascending cmp (k1 # k2 # ks) = (if cmp k1 k2 \<ge> 0 then False else keys_ascending cmp (k2 # ks))"
| "keys_ascending cmp ks = True"

text \<open>The comparison with the separators around the node in its parent.\<close>

definition within_parent ::
  "(key \<Rightarrow> key \<Rightarrow> int) \<Rightarrow> page_num \<Rightarrow> page_num \<Rightarrow> key \<Rightarrow> key \<Rightarrow> tree_handler \<Rightarrow> bool" where
  "within_parent cmp p parent first_key last_key st =
    (case th_pages st parent of
       None \<Rightarrow> False
     | Some parent_node \<Rightarrow>
         let index_in_parent = value_index parent_node p;
             key_at = (\<lambda>i. fst (internal_items parent_node ! nat i))
         in if index_in_parent < 0 then False
            else if 0 \<noteq> index_in_parent \<and> cmp first_key (key_at index_in_parent) < 0 then False
            else if index_in_parent < int (node_size parent_node) - 1 \<and>
                    cmp last_key (key_at (index_in_parent + 1)) \<ge> 0 then False
            else True)"

definition leaf_validate :: "(key \<Rightarrow> key \<Rightarrow> int) \<Rightarrow> page_num \<Rightarrow> tree_handler \<Rightarrow> bool" where
  "leaf_validate cmp p st =
    (let n = node_at st p; ks = map fst (leaf_items n)
     in if \<not> node_validate n then False
        else if \<not> keys_ascending cmp ks then False
        else if node_parent n = BP_INVALID_PAGE_NUM then True
        else within_parent cmp p (node_parent n) (ks ! 0) (ks ! (length ks - 1)) st)"

text \<open>A child that cannot be fetched is only reported.\<close>

fun children_linked :: "page_num \<Rightarrow> page_num list \<Rightarrow> tree_handler \<Rightarrow> bool" where
  "children_linked p [] st = True"
| "children_linked p (c # cs) st =
    (if c < 0 then children_linked p cs st
     else case th_pages st c of
            None \<Rightarrow> children_linked p cs st
          | Some child_node \<Rightarrow>
              if node_parent child_node \<noteq> p then False else children_linked p cs st)"

definition internal_validate :: "(key \<Rightarrow> key \<Rightarrow> int) \<Rightarrow> page_num \<Rightarrow> tree_handler \<Rightarrow> bool" where
  "internal_validate cmp p st =
    (let n = node_at st p; ks = map fst (internal_items n)
     in if \<not> node_validate n then False
        else if \<not> keys_ascending cmp (tl ks) then False
        else if \<not> children_linked p (map snd (internal_items n)) st then False
        else if node_parent n = BP_INVALID_PAGE_NUM then True
        else within_parent cmp p (node_parent n) (ks ! 1) (ks ! (length ks - 1)) st)"

section \<open>Checks of the tree\<close>

primrec all_children :: "(page_num \<Rightarrow> bool option) \<Rightarrow> page_num list \<Rightarrow> bool option" where
  "all_children check [] = Some True"
| "all_children check (c # cs) =
    Option.bind (check c) (\<lambda>result. if result then all_children check cs else Some False)"

lemma all_children_mono [partial_function_mono]:
  assumes "\<And>c. mono_option (\<lambda>f. check f c)"
  shows "mono_option (\<lambda>f. all_children (check f) cs)"
proof (induction cs)
  case (Cons c cs)
  have "mono_option (\<lambda>f. if result then all_children (check f) cs else Some False)" for result
    using Cons by (cases result) (simp_all add: option.const_mono)
  from bind_mono [OF assms this] show ?case by simp
qed (simp add: option.const_mono)

partial_function (option) validate_node_recursive ::
  "(key \<Rightarrow> key \<Rightarrow> int) \<Rightarrow> page_num \<Rightarrow> tree_handler \<Rightarrow> bool option" where
  "validate_node_recursive cmp p st =
    (if is_leaf (node_at st p) then Some (leaf_validate cmp p st)
     else if \<not> internal_validate cmp p st then Some False
     else all_children
       (\<lambda>c. case th_pages st c of None \<Rightarrow> Some False | Some _ \<Rightarrow> validate_node_recursive cmp c st)
       (map snd (internal_items (node_at st p))))"

partial_function (option) leaf_link_loop ::
  "(key \<Rightarrow> key \<Rightarrow> int) \<Rightarrow> page_num \<Rightarrow> key \<Rightarrow> bool \<Rightarrow> tree_handler \<Rightarrow> bool option" where
  "leaf_link_loop cmp next_page_num prev_key result st =
    (if result \<and> next_page_num \<noteq> BP_INVALID_PAGE_NUM then
       case th_pages st next_page_num of
         None \<Rightarrow> Some False
       | Some leaf_node \<Rightarrow>
           let ks = map fst (leaf_items leaf_node)
           in leaf_link_loop cmp (next_brother leaf_node) (ks ! (length ks - 1))
                (if cmp prev_key (ks ! 0) \<ge> 0 then False else result) st
     else Some result)"

definition validate_leaf_link :: "(key \<Rightarrow> key \<Rightarrow> int) \<Rightarrow> tree_handler \<Rightarrow> bool option" where
  "validate_leaf_link cmp st =
    (if is_empty st then Some True
     else Option.bind (left_most_page st) (\<lambda>(rc, p).
       if OB_FAIL rc then Some False
       else let n = node_at st p; ks = map fst (leaf_items n)
            in leaf_link_loop cmp (next_brother n) (ks ! (length ks - 1)) True st))"

definition validate_tree :: "(key \<Rightarrow> key \<Rightarrow> int) \<Rightarrow> tree_handler \<Rightarrow> bool option" where
  "validate_tree cmp st =
    (if is_empty st then Some True
     else case th_pages st (root_page (th_header st)) of
            None \<Rightarrow> Some False
          | Some _ \<Rightarrow>
              Option.bind (validate_node_recursive cmp (root_page (th_header st)) st) (\<lambda>nodes.
                if \<not> nodes then Some False else validate_leaf_link cmp st))"

section \<open>A stored tree passes the checks\<close>

lemma keys_ascending_sorted: "sorted_wrt (\<lambda>x y. cmp x y < 0) ks \<Longrightarrow> keys_ascending cmp ks"
  by (induction cmp ks rule: keys_ascending.induct) auto

lemma value_index_at:
  "p \<notin> snd ` set xs \<Longrightarrow> value_index (InternalNode par (xs @ (k, p) # ys)) p = int (length xs)"
proof -
  have "p \<notin> snd ` set xs \<Longrightarrow> value_index_loop (xs @ (k, p) # ys) p i = i + int (length xs)" for i
    by (induction xs arbitrary: i) auto
  then show "p \<notin> snd ` set xs \<Longrightarrow> ?thesis" by (simp add: value_index_def)
qed

lemma children_linked_ok:
  "(\<And>c. c \<in> set cs \<Longrightarrow> \<exists>n. th_pages st c = Some n \<and> node_parent n = p) \<Longrightarrow> children_linked p cs st"
proof (induction cs)
  case (Cons c cs)
  from Cons.prems [of c] obtain n where "th_pages st c = Some n" "node_parent n = p" by auto
  with Cons show ?case by simp
qed simp

lemma all_children_ok: "(\<And>c. c \<in> set cs \<Longrightarrow> check c = Some True) \<Longrightarrow> all_children check cs = Some True"
  by (induction cs) simp_all

lemma sorted_from_last:
  "sorted_wrt P (xs @ ys) \<Longrightarrow> xs \<noteq> [] \<Longrightarrow> sorted_wrt P (xs ! (length xs - 1) # ys)"
  by (simp add: sorted_wrt_append)

lemma root_node_parent [simp]: "node_parent (root_node p t) = p"
  by (cases t) simp_all

context index_order
begin

lemma plug_stored:
  assumes "tree_inv cmp st (plug ctx t)"
  shows "stored (th_pages st) (flat (hpar ctx) t)" "th_pages st (gpage t) = Some (root_node (hpar ctx) t)"
    "gord cmp (hlo ctx) (hhi ctx) t" "hpar ctx = BP_INVALID_PAGE_NUM \<longleftrightarrow> ctx = []"
proof -
  show st: "stored (th_pages st) (flat (hpar ctx) t)"
    using assms flat_plug [of ctx t] unfolding tree_inv_def stored_def by blast
  then show "th_pages st (gpage t) = Some (root_node (hpar ctx) t)" by (simp add: flat_def)
  show "gord cmp (hlo ctx) (hhi ctx) t" using assms by (intro gord_hole) (simp add: tree_inv_def)
  have "1 < q" if "q \<in> set (cpages ctx)" for q
    using assms that set_gpages_plug [of ctx t] unfolding tree_inv_def pool_ok_def by blast
  then show "hpar ctx = BP_INVALID_PAGE_NUM \<longleftrightarrow> ctx = []"
    by (cases ctx rule: hpar.cases) (fastforce simp: BP_INVALID_PAGE_NUM_def)+
qed

lemma within_parent_ok:
  assumes inv: "tree_inv cmp st (plug ctx0 t)" and "ctx0 \<noteq> []"
    and at: "at_least cmp (hlo ctx0) first_key" "strictly_below cmp (hhi ctx0) last_key"
  shows "within_parent cmp (gpage t) (hpar ctx0) first_key last_key st"
proof -
  obtain q ls k rs ctx where ctx0: "ctx0 = (q, ls, k, rs) # ctx" using assms(2) by (cases ctx0 rule: hpar.cases) auto
  note inv = inv [unfolded ctx0]
  have first: "ls \<noteq> [] \<Longrightarrow> cmp k first_key \<le> 0" and last: "\<And>y ys. rs = y # ys \<Longrightarrow> cmp last_key (fst y) < 0"
    using at by (auto simp: ctx0 nlo_def nhi_def at_least_def strictly_below_def)
  have parent: "th_pages st q = Some (InternalNode (hpar ctx) (map gitem ls @ (k, gpage t) # map gitem rs))"
    using plug_stored(2) [of st ctx "GNode q (ls @ (k, t) # rs)"] inv by simp
  have "distinct (gpages t @ cpages ((q, ls, k, rs) # ctx))"
    using inv unfolding tree_inv_def pool_ok_def distinct_plug by blast
  then have "set (gpages t) \<inter> set (gpagess ls) = {}" by auto
  then have "gpage t \<notin> set (gpagess ls)" using gpage_in_gpages [of t] by blast
  then have "gpage t \<notin> snd ` set (map gitem ls)"
    using gpage_in_gpages by (auto simp: gpagess_def)
  from value_index_at [OF this] parent have "value_index (the (th_pages st q)) (gpage t) = int (length ls)" by simp
  moreover have "\<not> cmp first_key k < 0" if "ls \<noteq> []" using first [OF that] cmp_flip [of first_key k] by linarith
  moreover have "nth (map gitem ls @ (k, gpage t) # map gitem rs) (nat (int (length ls) + 1)) = map gitem rs ! 0"
    by (simp add: nth_append nat_add_distrib)
  ultimately show ?thesis
    using parent last by (cases rs) (auto simp: ctx0 within_parent_def Let_def nth_append)
qed

lemma sorted_fst: "sorted_wrt (\<lambda>x y. cmp (fst x) (fst y) < 0) xs \<Longrightarrow> sorted_wrt (\<lambda>x y. cmp x y < 0) (map fst xs)"
  by (simp add: sorted_wrt_map)

lemma leaf_validate_ok:
  assumes inv: "tree_inv cmp st (plug ctx (GLeaf p nx xs))" and ne: "xs \<noteq> []"
  shows "leaf_validate cmp p st"
proof -
  note s = plug_stored [OF inv]
  have ord: "sorted_wrt (\<lambda>x y. cmp (fst x) (fst y) < 0) xs"
    "\<And>x. x \<in> set xs \<Longrightarrow> at_least cmp (hlo ctx) (fst x) \<and> strictly_below cmp (hhi ctx) (fst x)"
    using s(3) by auto
  have mem: "xs ! 0 \<in> set xs" "xs ! (length xs - 1) \<in> set xs" using ne by (auto intro!: nth_mem)
  have "within_parent cmp p (hpar ctx) (fst (xs ! 0)) (fst (xs ! (length xs - 1))) st" if "ctx \<noteq> []"
    using within_parent_ok [OF inv that] ord(2) [OF mem(1)] ord(2) [OF mem(2)] by simp
  moreover have "keys_ascending cmp (map fst xs)" by (intro keys_ascending_sorted sorted_fst ord(1))
  ultimately show ?thesis
    using s(2,4) ne by (cases "ctx = []") (auto simp: leaf_validate_def node_validate_def Let_def Suc_le_eq)
qed

lemma internal_validate_ok:
  assumes inv: "tree_inv cmp st (plug ctx (GNode p cs))" and size: "2 \<le> length cs"
  shows "internal_validate cmp p st"
proof -
  note s = plug_stored [OF inv]
  have ordc: "ordc cmp (gord cmp) (hlo ctx) (hhi ctx) cs" using s(3) by simp
  note sep = ordc_separators [OF this]
  have mem: "cs ! 1 \<in> set (tl cs)" "cs ! (length cs - 1) \<in> set (tl cs)"
    using size nth_mem [of 0 "tl cs"] nth_mem [of "length cs - 2" "tl cs"]
    by (simp_all add: nth_tl numeral_2_eq_2 Suc_diff_Suc)
  have "within_parent cmp p (hpar ctx) (fst (cs ! 1)) (fst (cs ! (length cs - 1))) st" if "ctx \<noteq> []"
    using within_parent_ok [OF inv that] sep mem by (simp add: at_least_strict)
  moreover have "keys_ascending cmp (tl (map fst cs))"
    using sep by (simp add: map_tl [symmetric] keys_ascending_sorted sorted_fst)
  moreover have "children_linked p (map (\<lambda>x. gpage (snd x)) cs) st"
    using s(1) by (intro children_linked_ok) (auto simp: stored_def flats_def flat_def)
  ultimately show ?thesis
    using s(2,4) size by (cases "ctx = []") (auto simp: internal_validate_def node_validate_def Let_def comp_def)
qed

lemma node_sizes:
  assumes "tree_inv cmp st (plug ctx t)" "4 \<le> internal_max_size (th_header st)"
  shows "case t of GLeaf p nx xs \<Rightarrow> xs \<noteq> [] | GNode p cs \<Rightarrow> 2 \<le> length cs"
proof -
  have "sizes_ok (th_header st)" using assms(1) by (simp add: tree_inv_def)
  moreover from assms(1) obtain d where
    "if ctx = [] then root_shape (th_header st) d t else node_shape (th_header st) d t"
    by (auto simp: tree_inv_def gshape_plug)
  moreover have "1 \<le> m div 2" if "2 \<le> m" for m :: nat using div_le_mono [OF that, of 2] by simp
  moreover have "2 \<le> m div 2" if "4 \<le> m" for m :: nat using div_le_mono [OF that, of 2] by simp
  ultimately show ?thesis using assms(2)
    by (cases t) (fastforce simp: sizes_ok_def split: if_splits)+
qed

lemma validate_nodes_ok:
  assumes "tree_inv cmp st (plug ctx t)" "4 \<le> internal_max_size (th_header st)"
  shows "validate_node_recursive cmp (gpage t) st = Some True"
  using assms(1)
proof (induction t arbitrary: ctx rule: gtree_induct)
  case (GLeaf p nx xs)
  with node_sizes [OF _ assms(2)] leaf_validate_ok plug_stored(2) [OF GLeaf] show ?case
    by (subst validate_node_recursive.simps) fastforce
next
  case (GNode p cs)
  note s = plug_stored [OF GNode.prems]
  have "internal_validate cmp p st"
    using node_sizes [OF GNode.prems assms(2)] internal_validate_ok [OF GNode.prems] by simp
  moreover have "all_children (\<lambda>c. case th_pages st c of None \<Rightarrow> Some False | Some _ \<Rightarrow> validate_node_recursive cmp c st)
      (map (\<lambda>x. gpage (snd x)) cs) = Some True"
  proof (rule all_children_ok)
    fix c assume "c \<in> set (map (\<lambda>x. gpage (snd x)) cs)"
    then obtain ls x rs where cs: "cs = ls @ x # rs" "c = gpage (snd x)" by (auto simp: in_set_conv_decomp)
    have child: "tree_inv cmp st (plug ((p, ls, fst x, rs) # ctx) (snd x))" using GNode.prems cs(1) by simp
    with GNode.IH [of x] cs plug_stored(2) [OF child]
    show "(case th_pages st c of None \<Rightarrow> Some False | Some _ \<Rightarrow> validate_node_recursive cmp c st) = Some True"
      by fastforce
  qed
  ultimately show ?case using s(2) by (subst validate_node_recursive.simps) (simp add: comp_def)
qed

lemma leaf_link_loop_ok:
  assumes "leaf_chain (th_pages st) q xss" "\<forall>ys\<in>set xss. ys \<noteq> []"
    "sorted_wrt (\<lambda>x y. cmp x y < 0) (k # map fst (concat xss))"
  shows "leaf_link_loop cmp q k True st = Some True"
  using assms
proof (induction xss arbitrary: q k)
  case Nil
  then show ?case by (subst leaf_link_loop.simps) simp
next
  case (Cons xs xss)
  from Cons.prems(1) obtain par nx where q: "q \<noteq> BP_INVALID_PAGE_NUM" "th_pages st q = Some (LeafNode par nx xs)"
    "leaf_chain (th_pages st) nx xss" by auto
  have "xs \<noteq> []" using Cons.prems(2) by simp
  then have "cmp k (map fst xs ! 0) < 0" using Cons.prems(3) by auto
  moreover have "sorted_wrt (\<lambda>x y. cmp x y < 0) (map fst xs ! (length xs - 1) # map fst (concat xss))"
    using Cons.prems(3) \<open>xs \<noteq> []\<close> sorted_from_last [of "\<lambda>x y. cmp x y < 0" "map fst xs" "map fst (concat xss)"] by simp
  ultimately show ?case
    using Cons.IH [OF q(3)] Cons.prems(2) q(1,2) by (subst leaf_link_loop.simps) (simp add: Let_def)
qed

lemma validate_leaf_link_ok:
  assumes inv: "tree_inv cmp st t" and "4 \<le> internal_max_size (th_header st)"
  shows "validate_leaf_link cmp st = Some True"
proof -
  from left_most_reaches [OF inv] obtain ctx p nx xs where
    t: "t = plug ctx (GLeaf p nx xs)" "left_most_page st = Some (SUCCESS, p)" "entries_left ctx = []" by metis
  note inv = inv [unfolded t(1)]
  from tree_leaf_chain [OF inv] obtain xss where
    chain: "leaf_chain (th_pages st) p (xs # xss)" "concat xss = entries_right ctx" "\<forall>ys\<in>set (xs # xss). ys \<noteq> []" .
  have "sorted_wrt (\<lambda>x y. cmp (fst x) (fst y) < 0) (xs @ concat xss)"
    using gord_entries [of None None "plug ctx (GLeaf p nx xs)"] inv
    by (simp add: tree_inv_def gentries_plug t(3) chain(2))
  from sorted_fst [OF this] have "sorted_wrt (\<lambda>x y. cmp x y < 0) (map fst xs ! (length xs - 1) # map fst (concat xss))"
    using chain(3) sorted_from_last [of "\<lambda>x y. cmp x y < 0" "map fst xs" "map fst (concat xss)"] by simp
  moreover from chain(1) plug_stored(2) [OF inv] have "leaf_chain (th_pages st) nx xss" by auto
  ultimately show ?thesis
    using leaf_link_loop_ok chain(3) t(2) plug_stored(2) [OF inv] tree_inv_not_empty [OF inv]
    by (auto simp: validate_leaf_link_def Let_def rc_simps)
qed

end

section \<open>Properties\<close>



end
