(* ===== verification/Bplus_Merge.thy ===== *)
theory Bplus_Merge
  imports Bplus_Index
begin

text \<open>
  What deletion does to the tree: two neighbouring nodes become one (\<open>merge\<close>), or entries move from
  one to the other (\<open>shift\<close>).  Both keep order, entries and leaf links.
\<close>

section \<open>Neighbouring nodes\<close>

fun gsize :: "gtree \<Rightarrow> nat" where
  "gsize (GLeaf p nx xs) = length xs"
| "gsize (GNode p cs) = length cs"

fun gkey :: "gtree \<Rightarrow> nat \<Rightarrow> key" where
  "gkey (GLeaf p nx xs) i = fst (xs ! i)"
| "gkey (GNode p cs) i = fst (cs ! i)"

fun alike :: "gtree \<Rightarrow> gtree \<Rightarrow> bool" where
  "alike (GLeaf p nx xs) (GLeaf q ny ys) \<longleftrightarrow> True"
| "alike (GNode p cs) (GNode q ds) \<longleftrightarrow> True"
| "alike a b \<longleftrightarrow> False"

text \<open>The right node is moved into the left one.\<close>

fun merge :: "gtree \<Rightarrow> gtree \<Rightarrow> gtree" where
  "merge (GLeaf p nx xs) (GLeaf q ny ys) = GLeaf p ny (xs @ ys)"
| "merge (GNode p cs) (GNode q ds) = GNode p (cs @ ds)"
| "merge a b = a"

text \<open>The items of both nodes, divided after the first \<open>m\<close>.\<close>

fun shift :: "nat \<Rightarrow> gtree \<Rightarrow> gtree \<Rightarrow> gtree \<times> gtree" where
  "shift m (GLeaf p nx xs) (GLeaf q ny ys) = (GLeaf p nx (take m (xs @ ys)), GLeaf q ny (drop m (xs @ ys)))"
| "shift m (GNode p cs) (GNode q ds) = (GNode p (take m (cs @ ds)), GNode q (drop m (cs @ ds)))"
| "shift m a b = (a, b)"

lemma alike_cases:
  assumes "alike a b"
  obtains (leaf) p nx xs q ny ys where "a = GLeaf p nx xs" "b = GLeaf q ny ys"
  | (node) p cs q ds where "a = GNode p cs" "b = GNode q ds"
  using assms by (cases a; cases b) auto

lemma gshape_alike: "gshape lmin lmax imin imax d a \<Longrightarrow> gshape lmin' lmax' imin' imax' d b \<Longrightarrow> alike a b"
  by (cases a; cases b) auto

lemma merge_page: "alike a b \<Longrightarrow> gpage (merge a b) = gpage a"
  by (erule alike_cases) simp_all

lemma shift_page: "alike a b \<Longrightarrow> gpage (fst (shift m a b)) = gpage a \<and> gpage (snd (shift m a b)) = gpage b"
  by (erule alike_cases) simp_all

lemma gsize_merge: "alike a b \<Longrightarrow> gsize (merge a b) = gsize a + gsize b"
  by (erule alike_cases) simp_all

lemma gentries_merge: "alike a b \<Longrightarrow> gentries (merge a b) = gentries a @ gentries b"
  by (erule alike_cases) simp_all

lemma gentries_shift: "alike a b \<Longrightarrow> gentries (fst (shift m a b)) @ gentries (snd (shift m a b)) = gentries a @ gentries b"
  by (erule alike_cases) (simp_all only: shift.simps fst_conv snd_conv gentries.simps append_take_drop_id
      concat_map_take_drop map_append concat_append)

lemma gleaves_shift: "alike a b \<Longrightarrow> gleaves (fst (shift m a b)) @ gleaves (snd (shift m a b)) = gleaves a @ gleaves b"
  by (erule alike_cases) (simp_all only: shift.simps fst_conv snd_conv gleaves.simps
      concat_map_take_drop map_append concat_append)

lemma gpages_merge: "alike a b \<Longrightarrow> add_mset (gpage b) (mset (gpages (merge a b))) = mset (gpages a @ gpages b)"
  by (erule alike_cases) simp_all

lemma gpages_shift: "alike a b \<Longrightarrow> mset (gpages (fst (shift m a b)) @ gpages (snd (shift m a b))) = mset (gpages a @ gpages b)"
proof (erule alike_cases)
  fix p cs q ds assume "a = GNode p cs" "b = GNode q ds"
  moreover have "mset (gpagess (take m (cs @ ds))) + mset (gpagess (drop m (cs @ ds))) = mset (gpagess (cs @ ds))"
    by (simp only: gpagess_take_drop flip: mset_append)
  ultimately show ?thesis by (simp add: ac_simps)
qed simp

lemma chained_merge:
  assumes "alike a b" "chained (L @ gleaves a @ gleaves b @ R) e"
  shows "chained (L @ gleaves (merge a b) @ R) e"
  using assms(1)
proof (cases rule: alike_cases)
  case (leaf p nx xs q ny ys)
  have "chained L p" "chained ((p, nx) # (q, ny) # R) e" using assms(2) by (simp_all add: leaf chained_append)
  moreover from this(2) have "chained ((p, ny) # R) e" by (simp add: chained_def)
  ultimately show ?thesis by (simp add: leaf chained_append)
next
  case (node p cs q ds)
  with assms(2) show ?thesis by simp
qed


context index_order
begin

lemma gord_merge:
  assumes "alike a b" "gord cmp lo (Some k) a" "gord cmp (Some k) hi b" "strictly_above cmp lo k" "strictly_below cmp hi k"
  shows "gord cmp lo hi (merge a b)"
  using assms(1)
proof (cases rule: alike_cases)
  case (leaf p nx xs q ny ys)
  have x: "cmp (fst x) k < 0" "at_least cmp lo (fst x)" "strictly_below cmp hi (fst x)" if "x \<in> set xs" for x
    using assms(2) that strictly_below_trans [OF assms(5)] by (auto simp: leaf strictly_below_def [of cmp "Some _"])
  have y: "cmp k (fst y) \<le> 0" "at_least cmp lo (fst y)" "strictly_below cmp hi (fst y)" if "y \<in> set ys" for y
    using assms(3) that at_least_strict [OF above_trans [OF assms(4)]] by (auto simp: leaf at_least_def [of cmp "Some _"])
  have "cmp (fst x) (fst y) < 0" if "x \<in> set xs" "y \<in> set ys" for x y
    using lt_le_trans [of "fst x" k "fst y"] x(1) [OF that(1)] y(1) [OF that(2)] by (simp add: lt_def le_def)
  with assms(2,3) x y show ?thesis by (auto simp: leaf sorted_wrt_append)
next
  case (node p cs q ds)
  from assms(3) obtain y ys where ds: "ds = y # ys" "fst y = k"
    using ordc_nonempty [of "gord cmp" "Some k" hi ds] by (cases ds) (auto simp: node first_key_ok_def)
  have ne: "cs \<noteq> []" using assms(2) by (auto simp: node)
  then have "first_key_ok lo (cs @ ds)" using assms(2) by (cases lo) (auto simp: node first_key_ok_def)
  with assms(2-5) ds show ?thesis by (simp add: node ordc_split [OF ne])
qed

lemma gord_shift:
  assumes "alike a b" "gord cmp lo hi (merge a b)" "0 < m" "m < gsize a + gsize b"
  shows "gord cmp lo (Some (gkey (merge a b) m)) (fst (shift m a b))"
    "gord cmp (Some (gkey (merge a b) m)) hi (snd (shift m a b))"
    "strictly_above cmp lo (gkey (merge a b) m)" "strictly_below cmp hi (gkey (merge a b) m)"
proof -
  have "gord cmp lo (Some (gkey (merge a b) m)) (fst (shift m a b)) \<and>
    gord cmp (Some (gkey (merge a b) m)) hi (snd (shift m a b)) \<and>
    strictly_above cmp lo (gkey (merge a b) m) \<and> strictly_below cmp hi (gkey (merge a b) m)"
    using assms(1)
  proof (cases rule: alike_cases)
    case (leaf p nx xs q ny ys)
    have "gord cmp lo hi (GLeaf p ny (xs @ ys))" using assms(2) by (simp only: leaf merge.simps)
    from leaf_cut_gord [OF this assms(3)] assms(4) show ?thesis
      by (simp only: leaf shift.simps merge.simps gkey.simps gsize.simps length_append fst_conv snd_conv)
  next
    case (node p cs q ds)
    have "gord cmp lo hi (GNode p (cs @ ds))" using assms(2) by (simp only: node merge.simps)
    from gord_cut [OF this assms(3)] assms(4) show ?thesis
      by (simp only: node shift.simps merge.simps gkey.simps gsize.simps length_append fst_conv snd_conv)
  qed
  then show "gord cmp lo (Some (gkey (merge a b) m)) (fst (shift m a b))"
    "gord cmp (Some (gkey (merge a b) m)) hi (snd (shift m a b))"
    "strictly_above cmp lo (gkey (merge a b) m)" "strictly_below cmp hi (gkey (merge a b) m)" by blast+
qed

text \<open>Two children next to each other.\<close>

lemma ordc_pair:
  assumes "ordc cmp P lo hi (ls @ (ka, a) # (kb, b) # rs)"
  shows "P (nlo lo ls ka) (Some kb) a" "P (Some kb) (nhi hi rs) b"
    "strictly_above cmp (nlo lo ls ka) kb" "strictly_below cmp (nhi hi rs) kb"
proof -
  have "ordc cmp P (nlo lo ls ka) hi ((ka, a) # (kb, b) # rs)"
    using assms by (cases "ls = []") (simp_all add: nlo_def ordc_split)
  then have *: "P (nlo lo ls ka) (Some kb) a" "strictly_above cmp (nlo lo ls ka) kb" "strictly_below cmp hi kb"
    "ordc cmp P (Some kb) hi ((kb, b) # rs)" by simp_all
  then show "P (nlo lo ls ka) (Some kb) a" "strictly_above cmp (nlo lo ls ka) kb" by simp_all
  show "P (Some kb) (nhi hi rs) b" "strictly_below cmp (nhi hi rs) kb"
    using * by (cases rs; simp add: nhi_def strictly_below_def strictly_above_def)+
qed

lemma ordc_join:
  assumes "ordc cmp P lo hi (ls @ (ka, a) # (kb, b) # rs)" "P (nlo lo ls ka) (nhi hi rs) c"
  shows "ordc cmp P lo hi (ls @ (ka, c) # rs)"
proof -
  have first: "ordc cmp P l hi ((ka, c) # rs)" if "ordc cmp P l hi ((ka, a) # (kb, b) # rs)" "P l (nhi hi rs) c" for l
    using that by (cases rs) (auto simp: nhi_def strictly_above_def [of cmp "Some _"] intro: strictly_above_trans)
  show ?thesis
  proof (cases "ls = []")
    case True
    with first assms show ?thesis by (simp add: nlo_def)
  next
    case False
    with assms first [of "Some ka"] show ?thesis by (simp add: nlo_def ordc_split)
  qed
qed

lemma gord_join:
  assumes "gord cmp lo hi (GNode p (ls @ (ka, a) # (kb, b) # rs))" "alike a b"
  shows "gord cmp lo hi (GNode p (ls @ (ka, merge a b) # rs))"
    "gord cmp (nlo lo ls ka) (nhi hi rs) (merge a b)"
proof -
  from assms(1) have ord: "ordc cmp (gord cmp) lo hi (ls @ (ka, a) # (kb, b) # rs)"
    and fk: "first_key_ok lo (ls @ (ka, a) # (kb, b) # rs)" by simp_all
  note pair = ordc_pair [OF ord]
  show m: "gord cmp (nlo lo ls ka) (nhi hi rs) (merge a b)" by (rule gord_merge [OF assms(2) pair])
  from ordc_join [OF ord m] first_key_replace [OF fk] show "gord cmp lo hi (GNode p (ls @ (ka, merge a b) # rs))" by simp
qed

lemma gord_divide:
  assumes "gord cmp lo hi (GNode p (ls @ (ka, a) # (kb, b) # rs))" "alike a b" "0 < m" "m < gsize a + gsize b"
  shows "gord cmp lo hi (GNode p (ls @ (ka, fst (shift m a b)) # (gkey (merge a b) m, snd (shift m a b)) # rs))"
  by (rule gord_replace2 [OF gord_join(1) [OF assms(1,2)] gord_shift [OF assms(2) gord_join(2) [OF assms(1,2)] assms(3,4)]])

end

end
