(* ===== verification/Bplus_Balance.thy ===== *)
theory Bplus_Balance
  imports Bplus_Merge
begin

text \<open>
  Correctness of deletion on the pages: \<^verbatim>\<open>coalesce\<close> and \<^verbatim>\<open>redistribute\<close> leave exactly the pages of the
  trees described by \<open>merge\<close> and \<open>shift\<close>, and \<^verbatim>\<open>delete_entry\<close> removes the entry from the represented list.
\<close>

section \<open>Coalescing two children\<close>

lemma remove_second: "remove_at (Suc (length ls)) (Suc 0) (ls @ x # y # rs) = ls @ x # rs"
  by (simp add: remove_at_def)

lemma remove_all: "remove_at 0 (length xs) xs = []"
  by (simp add: remove_at_def)

text \<open>The frames of the two nodes, in either order, and the position the walk has found.\<close>

definition pair_frames :: "nat \<Rightarrow> nat \<Rightarrow> page_num \<Rightarrow> page_num \<Rightarrow> page_num \<Rightarrow> page_num \<Rightarrow> bool" where
  "pair_frames index n pa pb neighbor frame \<longleftrightarrow>
     index = 0 \<and> n = 0 \<and> frame = pa \<and> neighbor = pb \<or> index = Suc n \<and> neighbor = pa \<and> frame = pb"

lemma pair_frames_sel:
  "pair_frames index n pa pb neighbor frame \<Longrightarrow>
   (if index = 0 then (frame, neighbor, index + 1) else (neighbor, frame, index)) = (pa, pb, Suc n)"
  by (auto simp: pair_frames_def)

lemma coalesce_leaf_pages:
  assumes "th_pages st p = Some (InternalNode par (ia @ (ka, pa) # (kb, pb) # ib))"
    "th_pages st pa = Some (LeafNode pra nx xs)" "th_pages st pb = Some (LeafNode prb ny ys)"
    "p \<noteq> pa" "p \<noteq> pb" "pa \<noteq> pb" "pair_frames index (length ia) pa pb neighbor frame"
  shows "\<exists>st'. coalesce neighbor frame p index st = (SUCCESS, st') \<and> th_header st' = th_header st \<and>
    th_pool st' = snd (dispose_page (nat pb) (th_pool st)) \<and>
    th_pages st' = (th_pages st)(p \<mapsto> InternalNode par (ia @ (ka, pa) # ib), pa \<mapsto> LeafNode pra ny (xs @ ys),
      pb \<mapsto> LeafNode prb ny [])"
proof -
  define st1 where "st1 = internal_remove p (Suc (length ia)) st"
  have P1: "th_pages st1 = (th_pages st)(p \<mapsto> InternalNode par (ia @ (ka, pa) # ib))"
    using assms(1) by (simp add: st1_def page_ops item_count_def remove_second)
  have st1: "th_pool st1 = th_pool st" "th_header st1 = th_header st" by (simp_all add: st1_def page_ops)
  define st2 where "st2 = leaf_move_to pb pa st1"
  have P2: "th_pages st2 = (th_pages st)(p \<mapsto> InternalNode par (ia @ (ka, pa) # ib), pa \<mapsto> LeafNode pra ny (xs @ ys),
      pb \<mapsto> LeafNode prb ny [])"
    using assms by (simp add: st2_def leaf_move_to_def page_ops P1 Let_def item_count_def remove_all insert_at_end fun_eq_iff)
  have st2: "th_pool st2 = th_pool st" "th_header st2 = th_header st"
    by (simp_all add: st2_def leaf_move_to_def page_ops st1 Let_def)
  have "coalesce neighbor frame p index st = (SUCCESS, tree_dispose_page pb (set_next_page pa ny st2))"
    using assms(1-6) unfolding coalesce_def pair_frames_sel [OF assms(7)] Let_def prod.case st1_def [symmetric]
    by (simp add: P1 P2 st2_def [symmetric])
  moreover have "th_pages (set_next_page pa ny st2) = th_pages st2"
    using assms by (auto simp: set_next_page_def P2 fun_eq_iff)
  ultimately show ?thesis using st2 P2 by (simp add: tree_dispose_page_def)
qed

lemma coalesce_node_pages:
  assumes "th_pages st p = Some (InternalNode par (ia @ (ka, pa) # (kb, pb) # ib))"
    "th_pages st pa = Some (InternalNode pra cs)" "th_pages st pb = Some (InternalNode prb ds)"
    "p \<noteq> pa" "p \<noteq> pb" "pa \<noteq> pb" "pair_frames index (length ia) pa pb neighbor frame"
    "\<And>c. c \<in> snd ` set ds \<Longrightarrow> th_pages st c \<noteq> None \<and> c \<noteq> p \<and> c \<noteq> pa \<and> c \<noteq> pb"
  shows "\<exists>st'. coalesce neighbor frame p index st = (SUCCESS, st') \<and> th_header st' = th_header st \<and>
    th_pool st' = snd (dispose_page (nat pb) (th_pool st)) \<and>
    th_pages st' = (\<lambda>u. if u = p then Some (InternalNode par (ia @ (ka, pa) # ib))
      else if u = pa then Some (InternalNode pra (cs @ ds)) else if u = pb then Some (InternalNode prb [])
      else if u \<in> snd ` set ds then map_option (put_parent pa) (th_pages st u) else th_pages st u)"
proof -
  define st1 where "st1 = internal_remove p (Suc (length ia)) st"
  have P1: "th_pages st1 = (th_pages st)(p \<mapsto> InternalNode par (ia @ (ka, pa) # ib))"
    using assms(1) by (simp add: st1_def page_ops item_count_def remove_second)
  have st1: "th_pool st1 = th_pool st" "th_header st1 = th_header st" by (simp_all add: st1_def page_ops)
  define st2 where "st2 = node_insert_items pa (length cs) (InternalItems ds) st1"
  have P2: "th_pages st2 = (th_pages st1)(pa \<mapsto> InternalNode pra (cs @ ds))"
    using assms by (simp add: st2_def node_insert_items_def P1 insert_at_end)
  have "th_pages st2 c \<noteq> None" if "c \<in> set (map snd ds)" for c using assms(8) [of c] that by (auto simp: P2 P1)
  from set_children_parent_eq [where cs = "map snd ds" and st = st2 and q = pa, OF this] obtain st3 where
    st3: "set_children_parent (map snd ds) pa st2 = (SUCCESS, st3)" "th_pool st3 = th_pool st2" "th_header st3 = th_header st2"
    "th_pages st3 = (\<lambda>u. if u \<in> snd ` set ds then map_option (put_parent pa) (th_pages st2 u) else th_pages st2 u)" by auto
  define st4 where "st4 = node_remove_items pb 0 (InternalItems ds) st3"
  have nin: "p \<notin> snd ` set ds" "pa \<notin> snd ` set ds" "pb \<notin> snd ` set ds" using assms(8) by blast+
  have P3: "th_pages st3 pb = Some (InternalNode prb ds)" "th_pages st3 pa = Some (InternalNode pra (cs @ ds))"
    using assms nin by (simp_all add: st3(4) P2 P1)
  have move: "internal_move_to pb pa st1 = (SUCCESS, st4)"
    using assms st3(1) by (simp add: internal_move_to_def internal_append_def internal_insert_items_def P1 Let_def st4_def
        st2_def [symmetric])
  have P4: "th_pages st4 = (\<lambda>u. if u = p then Some (InternalNode par (ia @ (ka, pa) # ib))
      else if u = pa then Some (InternalNode pra (cs @ ds)) else if u = pb then Some (InternalNode prb [])
      else if u \<in> snd ` set ds then map_option (put_parent pa) (th_pages st u) else th_pages st u)"
    using assms(4-6) nin P3 by (auto simp: st4_def node_remove_items_def item_count_def remove_all st3(4) P2 P1 fun_eq_iff)
  have st4: "th_pool st4 = th_pool st" "th_header st4 = th_header st"
    using st3(2,3) st1 by (simp_all add: st4_def st2_def)
  have "coalesce neighbor frame p index st = (SUCCESS, tree_dispose_page pb st4)"
    using assms(1-6) move P4 unfolding coalesce_def pair_frames_sel [OF assms(7)] Let_def prod.case st1_def [symmetric]
    by (simp add: P1)
  then show ?thesis using st4 P4 by (simp add: tree_dispose_page_def)
qed

text \<open>The pages of the children of a node, with two of them singled out.\<close>

lemma pair_distinct:
  assumes "distinct (p # gpagess (ls @ (ka, a) # (kb, b) # rs))"
  shows "p \<noteq> gpage a" "p \<noteq> gpage b" "gpage a \<noteq> gpage b" "distinct (gpages a)" "distinct (gpages b)"
    "p \<notin> set (gpages a)" "p \<notin> set (gpages b)" "set (gpages a) \<inter> set (gpages b) = {}"
    "(set (gpagess ls) \<union> set (gpagess rs)) \<inter> (insert p (set (gpages a) \<union> set (gpages b))) = {}"
proof -
  have d: "distinct (gpages a)" "distinct (gpages b)" "p \<notin> set (gpages a)" "p \<notin> set (gpages b)"
    "set (gpages a) \<inter> set (gpages b) = {}"
    "(set (gpagess ls) \<union> set (gpagess rs)) \<inter> (insert p (set (gpages a) \<union> set (gpages b))) = {}"
    using assms by auto
  then show "distinct (gpages a)" "distinct (gpages b)" "p \<notin> set (gpages a)" "p \<notin> set (gpages b)"
    "set (gpages a) \<inter> set (gpages b) = {}"
    "(set (gpagess ls) \<union> set (gpagess rs)) \<inter> (insert p (set (gpages a) \<union> set (gpages b))) = {}" .
  show "p \<noteq> gpage a" "p \<noteq> gpage b" using d(3,4) gpage_in_gpages by blast+
  show "gpage a \<noteq> gpage b" using d(5) by (metis disjoint_iff gpage_in_gpages)
qed

lemma children_pages: "u \<in> snd ` set (map gitem ds) \<longleftrightarrow> u \<in> (\<lambda>x. gpage (snd x)) ` set ds"
  by (auto simp: image_iff)

lemma stored_children_some: "stored P (flats p cs) \<Longrightarrow> u \<in> set (gpagess cs) \<Longrightarrow> P u \<noteq> None"
  by (force simp: stored_def simp flip: fst_flats [of p])

lemma coalesce_stored:
  assumes alike: "alike a b" and node: "th_pages st p = Some (InternalNode par (map gitem (ls @ (ka, a) # (kb, b) # rs)))"
    and st: "stored (th_pages st) (flats p (ls @ (ka, a) # (kb, b) # rs))"
    and dist: "distinct (p # gpagess (ls @ (ka, a) # (kb, b) # rs))"
    and frames: "pair_frames index (length ls) (gpage a) (gpage b) neighbor frame"
  obtains st' where "coalesce neighbor frame p index st = (SUCCESS, st')" "th_header st' = th_header st"
    "th_pool st' = snd (dispose_page (nat (gpage b)) (th_pool st))"
    "th_pages st' p = Some (InternalNode par (map gitem (ls @ (ka, merge a b) # rs)))"
    "stored (th_pages st') (flats p (ls @ (ka, merge a b) # rs))"
    "\<And>u. u \<notin> insert p (set (gpages a) \<union> set (gpages b)) \<Longrightarrow> th_pages st' u = th_pages st u"
proof -
  note d = pair_distinct [OF dist]
  have parts: "stored (th_pages st) (flats p ls)" "stored (th_pages st) (flat p a)" "stored (th_pages st) (flat p b)"
    "stored (th_pages st) (flats p rs)" using st by simp_all
  have keep: "stored P (flats p ls)" "stored P (flats p rs)"
    if "\<And>u. u \<notin> insert p (set (gpages a) \<union> set (gpages b)) \<Longrightarrow> P u = th_pages st u" for P
    using d(9) by (intro stored_keep [OF parts(1)] stored_keep [OF parts(4)] that; unfold fst_flats; blast)+
  have node': "th_pages st p = Some (InternalNode par (map gitem ls @ (ka, gpage a) # (kb, gpage b) # map gitem rs))"
    using node by simp
  have frames': "pair_frames index (length (map gitem ls)) (gpage a) (gpage b) neighbor frame" using frames by simp
  from alike show thesis
  proof (cases rule: alike_cases)
    case (leaf pa nx xs pb ny ys)
    have "th_pages st (gpage a) = Some (LeafNode p nx xs)" "th_pages st (gpage b) = Some (LeafNode p ny ys)"
      using parts(2,3) by (simp_all add: leaf)
    from coalesce_leaf_pages [OF node' this d(1-3) frames'] obtain st' where
      st': "coalesce neighbor frame p index st = (SUCCESS, st')" "th_header st' = th_header st"
        "th_pool st' = snd (dispose_page (nat (gpage b)) (th_pool st))"
      and P: "th_pages st' = (th_pages st)(p \<mapsto> InternalNode par (map gitem ls @ (ka, gpage a) # map gitem rs),
        gpage a \<mapsto> LeafNode p ny (xs @ ys), gpage b \<mapsto> LeafNode p ny [])" by blast
    have other: "th_pages st' u = th_pages st u" if "u \<notin> insert p (set (gpages a) \<union> set (gpages b))" for u
      using that by (simp add: P leaf)
    have at: "th_pages st' p = Some (InternalNode par (map gitem ls @ (ka, gpage a) # map gitem rs))"
      "th_pages st' (gpage a) = Some (LeafNode p ny (xs @ ys))" using d(1-3) by (simp_all add: P)
    show thesis by (rule that [OF st' _ _ other]) (use keep [OF other] at in \<open>simp_all add: leaf\<close>)
  next
    case (node pa cs pb ds)
    have Pab: "th_pages st (gpage a) = Some (InternalNode p (map gitem cs))" "th_pages st (gpage b) = Some (InternalNode p (map gitem ds))"
      and sub: "stored (th_pages st) (flats pa cs)" "stored (th_pages st) (flats pb ds)"
      using parts(2,3) by (simp_all add: node)
    have child: "u \<in> set (gpagess ds)" if "u \<in> snd ` set (map gitem ds)" for u using child_page [OF that] .
    have kids: "th_pages st c \<noteq> None \<and> c \<noteq> p \<and> c \<noteq> gpage a \<and> c \<noteq> gpage b" if "c \<in> snd ` set (map gitem ds)" for c
      using child [OF that] stored_children_some [OF sub(2)] d by (auto simp: node)
    from coalesce_node_pages [OF node' Pab d(1-3) frames' kids] obtain st' where
      st': "coalesce neighbor frame p index st = (SUCCESS, st')" "th_header st' = th_header st"
        "th_pool st' = snd (dispose_page (nat (gpage b)) (th_pool st))"
      and P: "th_pages st' = (\<lambda>u. if u = p then Some (InternalNode par (map gitem ls @ (ka, gpage a) # map gitem rs))
        else if u = gpage a then Some (InternalNode p (map gitem cs @ map gitem ds))
        else if u = gpage b then Some (InternalNode p [])
        else if u \<in> snd ` set (map gitem ds) then map_option (put_parent (gpage a)) (th_pages st u) else th_pages st u)"
      by blast
    have other: "th_pages st' u = th_pages st u" if "u \<notin> insert p (set (gpages a) \<union> set (gpages b))" for u
    proof -
      have "u \<notin> snd ` set (map gitem ds)" using child that by (auto simp: node)
      with that show ?thesis by (simp add: P node)
    qed
    have left: "stored (th_pages st') (flats pa cs)"
    proof (rule stored_keep [OF sub(1)], unfold fst_flats)
      fix u assume u: "u \<in> set (gpagess cs)"
      then have "u \<notin> snd ` set (map gitem ds)" using child d(8) by (auto simp: node)
      with u d show "th_pages st' u = th_pages st u" by (auto simp: P node)
    qed
    have right: "stored (th_pages st') (flats pa ds)"
    proof (rule stored_reparent [OF sub(2)])
      show "distinct (gpagess ds)" using d(5) by (simp add: node)
      show "th_pages st' (gpage (snd x)) = map_option (put_parent pa) (th_pages st (gpage (snd x)))" if "x \<in> set ds" for x
      proof -
        have "gpage (snd x) \<in> snd ` set (map gitem ds)" unfolding children_pages using that by blast
        with kids [OF this] show ?thesis by (simp add: P node)
      qed
      show "th_pages st' u = th_pages st u" if "u \<in> set (gpagess ds)" "u \<notin> (\<lambda>x. gpage (snd x)) ` set ds" for u
        using that d unfolding P children_pages by (auto simp: node)
    qed
    have at: "th_pages st' p = Some (InternalNode par (map gitem ls @ (ka, gpage a) # map gitem rs))"
      "th_pages st' (gpage a) = Some (InternalNode p (map gitem cs @ map gitem ds))" using d(1-3) by (simp_all add: P)
    show thesis by (rule that [OF st' _ _ other]) (use keep [OF other] left right at in \<open>simp_all add: node\<close>)
  qed
qed

section \<open>Moving an item between two children\<close>

definition new_cut :: "nat \<Rightarrow> nat \<Rightarrow> nat" where
  "new_cut index n = (if index = 0 then Suc n else n - 1)"

lemma update_second: "(ia @ x # y # ib)[Suc (length ia) := z] = ia @ x # z # ib"
  by (simp add: list_update_append)

lemma redistribute_leaf_pages:
  assumes "th_pages st p = Some (InternalNode par (ia @ (ka, pa) # (kb, pb) # ib))"
    "th_pages st pa = Some (LeafNode pra nx xs)" "th_pages st pb = Some (LeafNode prb ny ys)"
    "p \<noteq> pa" "p \<noteq> pb" "pa \<noteq> pb" "pair_frames index (length ia) pa pb neighbor frame"
    "m = new_cut index (length xs)" "if index = 0 then ys \<noteq> [] else xs \<noteq> []"
  shows "\<exists>st'. redistribute neighbor frame p index st = (SUCCESS, st') \<and> th_header st' = th_header st \<and>
    th_pool st' = th_pool st \<and>
    th_pages st' = (th_pages st)(p \<mapsto> InternalNode par (ia @ (ka, pa) # (fst ((xs @ ys) ! m), pb) # ib),
      pa \<mapsto> LeafNode pra nx (take m (xs @ ys)), pb \<mapsto> LeafNode prb ny (drop m (xs @ ys)))"
proof (cases "index = 0")
  case True
  then obtain y zs where ys: "ys = y # zs" using assms(9) by (cases ys) auto
  define st1 where "st1 = leaf_move_first_to_end pb pa st"
  have P: "th_pages st1 = (th_pages st)(pa \<mapsto> LeafNode pra nx (xs @ [y]), pb \<mapsto> LeafNode prb ny zs)"
    using assms by (simp add: st1_def page_ops ys item_count_def remove_at_def insert_at_def fun_eq_iff)
  have "th_pool st1 = th_pool st" "th_header st1 = th_header st" by (simp_all add: st1_def page_ops)
  moreover have "redistribute neighbor frame p index st = (SUCCESS, set_key_at p 1 (fst (zs ! 0)) st1)"
    using assms(1-7) P True by (simp add: redistribute_def pair_frames_def Let_def st1_def [symmetric] node_key_at_def)
  ultimately show ?thesis
    using assms(1-8) P True by (auto simp: set_key_at_def pair_frames_def ys new_cut_def fun_eq_iff nth_append)
next
  case False
  then obtain zs x where xs: "xs = zs @ [x]" using assms(9) by (cases xs rule: rev_cases) auto
  define st1 where "st1 = leaf_move_last_to_front pa pb st"
  have P: "th_pages st1 = (th_pages st)(pa \<mapsto> LeafNode pra nx zs, pb \<mapsto> LeafNode prb ny (x # ys))"
    using assms by (simp add: st1_def page_ops xs item_count_def remove_at_def insert_at_def Let_def fun_eq_iff nth_append)
  have "th_pool st1 = th_pool st" "th_header st1 = th_header st" by (simp_all add: st1_def page_ops Let_def)
  moreover have "redistribute neighbor frame p index st = (SUCCESS, set_key_at p index (fst x) st1)"
    using assms(1-7) P False by (simp add: redistribute_def pair_frames_def Let_def st1_def [symmetric] node_key_at_def)
  ultimately show ?thesis
    using assms(1-8) P False
    by (auto simp: set_key_at_def pair_frames_def xs new_cut_def fun_eq_iff nth_append update_second)
qed

lemma child_to_end_pages:
  assumes "th_pages st pa = Some (InternalNode pra cs)" "th_pages st pb = Some (InternalNode prb (y # ds))"
    "pa \<noteq> pb" "th_pages st (snd y) \<noteq> None" "snd y \<noteq> pa" "snd y \<noteq> pb"
  shows "\<exists>st'. internal_move_first_to_end pb pa st = (SUCCESS, st') \<and> th_header st' = th_header st \<and> th_pool st' = th_pool st \<and>
    th_pages st' = (th_pages st)(pa \<mapsto> InternalNode pra (cs @ [y]), pb \<mapsto> InternalNode prb ds,
      snd y := map_option (put_parent pa) (th_pages st (snd y)))"
  using assms by (auto simp: internal_move_first_to_end_def internal_append_def internal_insert_items_def page_ops Let_def
      item_count_def remove_at_def insert_at_def fun_eq_iff)

lemma child_to_front_pages:
  assumes "th_pages st pa = Some (InternalNode pra (cs @ [x]))" "th_pages st pb = Some (InternalNode prb ds)"
    "pa \<noteq> pb" "th_pages st (snd x) \<noteq> None" "snd x \<noteq> pa" "snd x \<noteq> pb"
  shows "\<exists>st'. internal_move_last_to_front pa pb st = (SUCCESS, st') \<and> th_header st' = th_header st \<and> th_pool st' = th_pool st \<and>
    th_pages st' = (th_pages st)(pa \<mapsto> InternalNode pra cs, pb \<mapsto> InternalNode prb (x # ds),
      snd x := map_option (put_parent pb) (th_pages st (snd x)))"
  using assms by (auto simp: internal_move_last_to_front_def internal_preappend_def internal_insert_items_def page_ops Let_def
      item_count_def remove_at_def insert_at_def fun_eq_iff)

lemma redistribute_node_pages:
  assumes "th_pages st p = Some (InternalNode par (ia @ (ka, pa) # (kb, pb) # ib))"
    "th_pages st pa = Some (InternalNode pra cs)" "th_pages st pb = Some (InternalNode prb ds)"
    "p \<noteq> pa" "p \<noteq> pb" "pa \<noteq> pb" "pair_frames index (length ia) pa pb neighbor frame"
    "m = new_cut index (length cs)" "if index = 0 then ds \<noteq> [] else cs \<noteq> []"
    "(c, q) = (if index = 0 then (snd (hd ds), pa) else (snd (last cs), pb))"
    "th_pages st c \<noteq> None" "c \<noteq> p" "c \<noteq> pa" "c \<noteq> pb"
  shows "\<exists>st'. redistribute neighbor frame p index st = (SUCCESS, st') \<and> th_header st' = th_header st \<and>
    th_pool st' = th_pool st \<and>
    th_pages st' = (th_pages st)(p \<mapsto> InternalNode par (ia @ (ka, pa) # (fst ((cs @ ds) ! m), pb) # ib),
      pa \<mapsto> InternalNode pra (take m (cs @ ds)), pb \<mapsto> InternalNode prb (drop m (cs @ ds)),
      c := map_option (put_parent q) (th_pages st c))"
proof (cases "index = 0")
  case True
  then obtain y es where ds: "ds = y # es" using assms(9) by (cases ds) auto
  have c: "c = snd y" "q = pa" using assms(10) True ds by simp_all
  from child_to_end_pages [of st pa pra cs pb prb y es] assms(2,3,6,11,13,14) obtain st1 where
    st1: "internal_move_first_to_end pb pa st = (SUCCESS, st1)" "th_header st1 = th_header st" "th_pool st1 = th_pool st"
    and P: "th_pages st1 = (th_pages st)(pa \<mapsto> InternalNode pra (cs @ [y]), pb \<mapsto> InternalNode prb es,
      c := map_option (put_parent pa) (th_pages st c))" by (auto simp: c ds)
  have "redistribute neighbor frame p index st = (SUCCESS, set_key_at p 1 (fst (es ! 0)) st1)"
    using assms(1-7,11-14) P True st1(1) by (simp add: redistribute_def pair_frames_def Let_def node_key_at_def)
  then show ?thesis
    using assms(1-8,12-14) P True st1(2,3)
    by (auto simp: set_key_at_def pair_frames_def ds c new_cut_def fun_eq_iff nth_append)
next
  case False
  then obtain es x where cs: "cs = es @ [x]" using assms(9) by (cases cs rule: rev_cases) auto
  have c: "c = snd x" "q = pb" using assms(10) False cs by simp_all
  from child_to_front_pages [of st pa pra es x pb prb ds] assms(2,3,6,11,13,14) obtain st1 where
    st1: "internal_move_last_to_front pa pb st = (SUCCESS, st1)" "th_header st1 = th_header st" "th_pool st1 = th_pool st"
    and P: "th_pages st1 = (th_pages st)(pa \<mapsto> InternalNode pra es, pb \<mapsto> InternalNode prb (x # ds),
      c := map_option (put_parent pb) (th_pages st c))" by (auto simp: c cs)
  have "redistribute neighbor frame p index st = (SUCCESS, set_key_at p index (fst x) st1)"
    using assms(1-7,11-14) P False st1(1) by (simp add: redistribute_def pair_frames_def Let_def node_key_at_def)
  then show ?thesis
    using assms(1-8,12-14) P False st1(2,3)
    by (auto simp: set_key_at_def pair_frames_def cs c new_cut_def fun_eq_iff nth_append update_second)
qed

text \<open>One child moves to another node.\<close>

lemma stored_child_moved:
  assumes "stored P (flat q0 t)" "distinct (gpages t)" "P' (gpage t) = map_option (put_parent q) (P (gpage t))"
    "\<And>u. u \<in> set (gpages t) \<Longrightarrow> u \<noteq> gpage t \<Longrightarrow> P' u = P u"
  shows "stored P' (flat q t)"
  using stored_reparent [of P q0 "[(undefined, t)]" P' q] assms by auto

lemma redistribute_node_stored:
  assumes node: "th_pages st p = Some (InternalNode par (map gitem ls @ (ka, pa) # (kb, pb) # map gitem rs))"
    and st: "stored (th_pages st) (flat p (GNode pa cs))" "stored (th_pages st) (flat p (GNode pb ds))"
    and d: "distinct (p # gpages (GNode pa cs) @ gpages (GNode pb ds))"
    and frames: "pair_frames index (length ls) pa pb neighbor frame"
    and m: "m = new_cut index (length cs)" and two: "if index = 0 then 1 < length ds else cs \<noteq> []"
  obtains st' where "redistribute neighbor frame p index st = (SUCCESS, st')" "th_header st' = th_header st"
    "th_pool st' = th_pool st"
    "th_pages st' p = Some (InternalNode par (map gitem ls @ (ka, pa) # (fst ((cs @ ds) ! m), pb) # map gitem rs))"
    "stored (th_pages st') (flat p (GNode pa (take m (cs @ ds))) @ flat p (GNode pb (drop m (cs @ ds))))"
    "\<And>u. u \<notin> insert p (set (gpages (GNode pa cs)) \<union> set (gpages (GNode pb ds))) \<Longrightarrow> th_pages st' u = th_pages st u"
proof -
  have ne: "if index = 0 then ds \<noteq> [] else cs \<noteq> []" using two by auto
  define x where "x = (if index = 0 then hd ds else last cs)"
  define q where "q = (if index = 0 then pa else pb)"
  have x: "x \<in> set (cs @ ds)" using ne by (auto simp: x_def)
  then have mem: "gpage (snd x) \<in> set (gpagess cs @ gpagess ds)" by (force intro: gpagess_mem)
  have Pab: "th_pages st pa = Some (InternalNode p (map gitem cs))" "th_pages st pb = Some (InternalNode p (map gitem ds))"
    and sub: "stored (th_pages st) (flats pa cs)" "stored (th_pages st) (flats pb ds)" using st by simp_all
  have some: "th_pages st (gpage (snd x)) \<noteq> None"
    using mem stored_children_some [OF sub(1)] stored_children_some [OF sub(2)] by auto
  have away: "gpage (snd x) \<noteq> p" "gpage (snd x) \<noteq> pa" "gpage (snd x) \<noteq> pb" "p \<noteq> pa" "p \<noteq> pb" "pa \<noteq> pb" using mem d by auto
  have moved: "(gpage (snd x), q) = (if index = 0 then (snd (hd (map gitem ds)), pa) else (snd (last (map gitem cs)), pb))"
    using ne by (auto simp: x_def q_def hd_map last_map)
  have ne': "if index = 0 then map gitem ds \<noteq> [] else map gitem cs \<noteq> []" "m = new_cut index (length (map gitem cs))"
    "pair_frames index (length (map gitem ls)) pa pb neighbor frame" using ne m frames by auto
  from redistribute_node_pages [OF node Pab away(4-6) ne'(3,2,1) moved some away(1-3)] obtain st' where
    st': "redistribute neighbor frame p index st = (SUCCESS, st')" "th_header st' = th_header st" "th_pool st' = th_pool st"
    and P: "th_pages st' = (th_pages st)(p \<mapsto> InternalNode par (map gitem ls @ (ka, pa) # (fst ((map gitem cs @ map gitem ds) ! m), pb) # map gitem rs),
      pa \<mapsto> InternalNode p (take m (map gitem cs @ map gitem ds)), pb \<mapsto> InternalNode p (drop m (map gitem cs @ map gitem ds)),
      gpage (snd x) := map_option (put_parent q) (th_pages st (gpage (snd x))))" by blast
  have same: "th_pages st' u = th_pages st u" if "u \<notin> {p, pa, pb, gpage (snd x)}" for u using that by (simp add: P)
  have inside: "th_pages st' u = th_pages st u" if "u \<in> set (gpages (snd x))" "u \<noteq> gpage (snd x)" for u
  proof (rule same)
    have "u \<in> set (gpagess cs @ gpagess ds)" using x that(1) by (auto dest: gpagess_mem)
    with that(2) d show "u \<notin> {p, pa, pb, gpage (snd x)}" by auto
  qed
  have kept: "stored (th_pages st') (flats r es)"
    if "stored (th_pages st) (flats r es)" "set (gpagess es) \<inter> ({p, pa, pb} \<union> set (gpages (snd x))) = {}" for r es
    using that(2) gpage_in_gpages [of "snd x"] by (intro stored_keep [OF that(1)] same; unfold fst_flats; blast)
  have px: "th_pages st' (gpage (snd x)) = map_option (put_parent q) (th_pages st (gpage (snd x)))" by (simp add: P)
  have range: "m < length (cs @ ds)"
  proof (cases "index = 0")
    case False
    then show ?thesis using two by (cases cs) (simp_all add: m new_cut_def)
  qed (use two in \<open>simp add: m new_cut_def\<close>)
  have lists: "stored (th_pages st') (flats pa (take m (cs @ ds)) @ flats pb (drop m (cs @ ds)))"
  proof (cases "index = 0")
    case True
    then obtain es where ds: "ds = x # es" using ne by (cases ds) (auto simp: x_def)
    have "stored (th_pages st') (flat pa (snd x))"
      by (rule stored_child_moved [of "th_pages st" pb]) (use sub(2) d px True inside in \<open>simp_all add: ds q_def\<close>)
    moreover have "stored (th_pages st') (flats pa cs)" "stored (th_pages st') (flats pb es)"
      by (rule kept; use sub d in \<open>auto simp: ds\<close>)+
    ultimately show ?thesis using True by (simp add: m new_cut_def ds)
  next
    case False
    then obtain es where cs: "cs = es @ [x]" using ne by (cases cs rule: rev_cases) (auto simp: x_def)
    have "stored (th_pages st') (flat pb (snd x))"
      by (rule stored_child_moved [of "th_pages st" pa]) (use sub(1) d px False inside in \<open>simp_all add: cs q_def\<close>)
    moreover have "stored (th_pages st') (flats pa es)" "stored (th_pages st') (flats pb ds)"
      by (rule kept; use sub d in \<open>auto simp: cs\<close>)+
    ultimately show ?thesis using False by (simp add: m new_cut_def cs)
  qed
  have at: "th_pages st' p = Some (InternalNode par (map gitem ls @ (ka, pa) # (fst ((cs @ ds) ! m), pb) # map gitem rs))"
    "th_pages st' pa = Some (InternalNode p (map gitem (take m (cs @ ds))))"
    "th_pages st' pb = Some (InternalNode p (map gitem (drop m (cs @ ds))))"
    using away nth_map [OF range, of gitem] by (simp_all add: P take_map drop_map)
  have other: "th_pages st' u = th_pages st u"
    if "u \<notin> insert p (set (gpages (GNode pa cs)) \<union> set (gpages (GNode pb ds)))" for u
    using that mem by (intro same) auto
  show thesis by (rule that [OF st' at(1) _ other]) (use lists at(2,3) in \<open>simp del: take_append drop_append\<close>)
qed

lemma redistribute_stored:
  assumes alike: "alike a b" and node: "th_pages st p = Some (InternalNode par (map gitem (ls @ (ka, a) # (kb, b) # rs)))"
    and st: "stored (th_pages st) (flats p (ls @ (ka, a) # (kb, b) # rs))"
    and dist: "distinct (p # gpagess (ls @ (ka, a) # (kb, b) # rs))"
    and frames: "pair_frames index (length ls) (gpage a) (gpage b) neighbor frame"
    and m: "m = new_cut index (gsize a)" and ne: "if index = 0 then 1 < gsize b else 0 < gsize a"
    and cs': "cs' = ls @ (ka, fst (shift m a b)) # (gkey (merge a b) m, snd (shift m a b)) # rs"
  obtains st' where "redistribute neighbor frame p index st = (SUCCESS, st')" "th_header st' = th_header st"
    "th_pool st' = th_pool st" "th_pages st' p = Some (InternalNode par (map gitem cs'))" "stored (th_pages st') (flats p cs')"
    "\<And>u. u \<notin> insert p (set (gpages a) \<union> set (gpages b)) \<Longrightarrow> th_pages st' u = th_pages st u"
proof -
  note d = pair_distinct [OF dist]
  have parts: "stored (th_pages st) (flats p ls)" "stored (th_pages st) (flat p a)" "stored (th_pages st) (flat p b)"
    "stored (th_pages st) (flats p rs)" using st by simp_all
  have keep: "stored P (flats p ls)" "stored P (flats p rs)"
    if "\<And>u. u \<notin> insert p (set (gpages a) \<union> set (gpages b)) \<Longrightarrow> P u = th_pages st u" for P
    using d(9) by (intro stored_keep [OF parts(1)] stored_keep [OF parts(4)] that; unfold fst_flats; blast)+
  have node': "th_pages st p = Some (InternalNode par (map gitem ls @ (ka, gpage a) # (kb, gpage b) # map gitem rs))"
    using node by simp
  have frames': "pair_frames index (length (map gitem ls)) (gpage a) (gpage b) neighbor frame" using frames by simp
  from alike show thesis
  proof (cases rule: alike_cases)
    case (leaf pa nx xs pb ny ys)
    have Pab: "th_pages st (gpage a) = Some (LeafNode p nx xs)" "th_pages st (gpage b) = Some (LeafNode p ny ys)"
      using parts(2,3) by (simp_all add: leaf)
    have ne': "if index = 0 then ys \<noteq> [] else xs \<noteq> []" "m = new_cut index (length xs)" using ne m by (auto simp: leaf)
    from redistribute_leaf_pages [OF node' Pab d(1-3) frames' ne'(2,1)] obtain st' where
      st': "redistribute neighbor frame p index st = (SUCCESS, st')" "th_header st' = th_header st" "th_pool st' = th_pool st"
      and P: "th_pages st' = (th_pages st)(p \<mapsto> InternalNode par (map gitem ls @ (ka, gpage a) # (fst ((xs @ ys) ! m), gpage b) # map gitem rs),
        gpage a \<mapsto> LeafNode p nx (take m (xs @ ys)), gpage b \<mapsto> LeafNode p ny (drop m (xs @ ys)))" by blast
    have other: "th_pages st' u = th_pages st u" if "u \<notin> insert p (set (gpages a) \<union> set (gpages b))" for u
      using that by (simp add: P leaf)
    have at: "th_pages st' p = Some (InternalNode par (map gitem ls @ (ka, gpage a) # (fst ((xs @ ys) ! m), gpage b) # map gitem rs))"
      "th_pages st' (gpage a) = Some (LeafNode p nx (take m (xs @ ys)))"
      "th_pages st' (gpage b) = Some (LeafNode p ny (drop m (xs @ ys)))" using d(1-3) by (simp_all add: P)
    show thesis by (rule that [OF st' _ _ other]) (use keep [OF other] at in \<open>simp_all add: cs' leaf del: take_append drop_append\<close>)
  next
    case (node pa cs pb ds)
    have "stored (th_pages st) (flat p (GNode pa cs))" "stored (th_pages st) (flat p (GNode pb ds))"
      "th_pages st p = Some (InternalNode par (map gitem ls @ (ka, pa) # (kb, pb) # map gitem rs))"
      "pair_frames index (length ls) pa pb neighbor frame" "m = new_cut index (length cs)"
      "if index = 0 then 1 < length ds else cs \<noteq> []" "distinct (p # gpages (GNode pa cs) @ gpages (GNode pb ds))"
      using parts(2,3) node' frames m ne d by (auto simp: node)
    note pre = this(3,1,2,7,4,5,6)
    show thesis
    proof (rule redistribute_node_stored [OF pre])
      fix st'
      assume st': "redistribute neighbor frame p index st = (SUCCESS, st')" "th_header st' = th_header st" "th_pool st' = th_pool st"
        and at: "th_pages st' p = Some (InternalNode par (map gitem ls @ (ka, pa) # (fst ((cs @ ds) ! m), pb) # map gitem rs))"
          "stored (th_pages st') (flat p (GNode pa (take m (cs @ ds))) @ flat p (GNode pb (drop m (cs @ ds))))"
        and other: "\<And>u. u \<notin> insert p (set (gpages (GNode pa cs)) \<union> set (gpages (GNode pb ds))) \<Longrightarrow> th_pages st' u = th_pages st u"
      note other' = other [folded node]
      show thesis
        by (rule that [OF st' _ _ other'])
          (use keep [OF other'] at in \<open>simp_all add: cs' node del: take_append drop_append flat_simps\<close>)
    qed
  qed
qed

end
