(* ===== verification/Bplus_Delete.thy ===== *)
theory Bplus_Delete
  imports Bplus_Balance
begin

text \<open>
  Correctness of \<^verbatim>\<open>delete_entry\<close>: the walk of \<^verbatim>\<open>coalesce_or_redistribute\<close> towards the root ends, keeps the
  entries and restores the node sizes, so that deletion refines the removal from a sorted list.
\<close>

section \<open>Node sizes\<close>

fun gmax :: "index_file_header \<Rightarrow> gtree \<Rightarrow> nat" where
  "gmax h (GLeaf p nx xs) = leaf_max_size h"
| "gmax h (GNode p cs) = internal_max_size h"

fun gleaf :: "gtree \<Rightarrow> bool" where
  "gleaf (GLeaf p nx xs) = True"
| "gleaf (GNode p cs) = False"

text \<open>A node at height \<open>d\<close> over children of the right shape, whatever its own size.\<close>

fun gkids :: "index_file_header \<Rightarrow> nat \<Rightarrow> gtree \<Rightarrow> bool" where
  "gkids h d (GLeaf p nx xs) \<longleftrightarrow> d = 0"
| "gkids h d (GNode p cs) \<longleftrightarrow> (\<exists>e. d = Suc e \<and> (\<forall>x\<in>set cs. node_shape h e (snd x)))"

lemma node_shape_iff: "node_shape h d t \<longleftrightarrow> gkids h d t \<and> gmax h t div 2 \<le> gsize t \<and> gsize t \<le> gmax h t"
  by (cases t) auto

lemma root_shape_iff: "root_shape h d t \<longleftrightarrow> gkids h d t \<and> (if gleaf t then 1 else 2) \<le> gsize t \<and> gsize t \<le> gmax h t"
  by (cases t) auto

lemma gkids_alike: "gkids h d a \<Longrightarrow> gkids h d b \<Longrightarrow> alike a b"
  by (cases a; cases b) auto

lemma gmax_alike: "alike a b \<Longrightarrow> gmax h a = gmax h b \<and> gmax h (merge a b) = gmax h a"
  by (erule alike_cases) simp_all

lemma gkids_merge: "gkids h d a \<Longrightarrow> gkids h d b \<Longrightarrow> gkids h d (merge a b)"
  by (cases a; cases b) auto

lemma gkids_shift:
  assumes "gkids h d a" "gkids h d b"
  shows "gkids h d (fst (shift m a b))" "gkids h d (snd (shift m a b))"
proof -
  have "gkids h d (fst (shift m a b)) \<and> gkids h d (snd (shift m a b))"
    using gkids_alike [OF assms]
  proof (cases rule: alike_cases)
    case (node p cs q ds)
    then obtain e where "d = Suc e" "\<forall>x\<in>set (cs @ ds). node_shape h e (snd x)" using assms by (auto simp: ball_Un)
    then show ?thesis
      unfolding node shift.simps fst_conv snd_conv gkids.simps by (blast dest: in_set_takeD in_set_dropD)
  qed (use assms in simp)
  then show "gkids h d (fst (shift m a b))" "gkids h d (snd (shift m a b))" by simp_all
qed

lemma gsize_shift:
  "alike a b \<Longrightarrow> m \<le> gsize a + gsize b \<Longrightarrow> gsize (fst (shift m a b)) = m \<and> gsize (snd (shift m a b)) = gsize a + gsize b - m"
  by (erule alike_cases) auto

lemma gmax_shift: "alike a b \<Longrightarrow> gmax h (fst (shift m a b)) = gmax h a \<and> gmax h (snd (shift m a b)) = gmax h a"
  by (erule alike_cases) simp_all

lemma shift_shape:
  assumes "gkids h d a" "gkids h d b" "m \<le> gsize a + gsize b" "gmax h a div 2 \<le> m" "m \<le> gmax h a"
    "gmax h a div 2 \<le> gsize a + gsize b - m" "gsize a + gsize b - m \<le> gmax h a"
  shows "node_shape h d (fst (shift m a b))" "node_shape h d (snd (shift m a b))"
  unfolding node_shape_iff using assms gkids_shift [OF assms(1,2), of m] gsize_shift [OF gkids_alike [OF assms(1,2)] assms(3)]
    gmax_shift [OF gkids_alike [OF assms(1,2)], of h m] by simp_all

lemma root_node_sel:
  "node_size (root_node par t) = gsize t" "is_leaf (root_node par t) \<longleftrightarrow> gleaf t"
  "max_size h (root_node par t) = gmax h t" "min_size h (root_node par t) = gmax h t - gmax h t div 2"
  "i < gsize t \<Longrightarrow> node_key_at (root_node par t) i = gkey t i"
  by (cases t; simp add: max_size_def min_size_def Let_def node_key_at_def)+

lemma pool_ok_dispose:
  assumes "pool_ok st (p # ps)" "th_pool st' = snd (dispose_page (nat p) (th_pool st))"
  shows "pool_ok st' ps"
proof -
  from assms(1) have wf: "bp_wf (th_pool st)" and p: "nat p \<in> live_pages (th_pool st)" "1 < p" by (simp_all add: pool_ok_def)
  then have "nat p \<noteq> 0" by simp
  from bp_pages.free_live [OF wf p(1) this] obtain bp where
    bp: "dispose_page (nat p) (th_pool st) = (SUCCESS, bp)" "bp_wf bp" "live_pages bp = live_pages (th_pool st) - {nat p}" by blast
  have st': "th_pool st' = bp" using assms(2) bp(1) by simp
  have "nat q \<noteq> nat p" if "q \<in> set ps" for q
  proof -
    have "q \<noteq> p" "1 < q" using assms(1) that by (auto simp: pool_ok_def)
    with p(2) show ?thesis by simp
  qed
  with assms(1) bp(2,3) p(2) show ?thesis unfolding pool_ok_def st' by auto
qed

section \<open>One level of the walk\<close>

text \<open>The neighbour the walk chooses: the next child if there is none before.\<close>

lemma neighbor_cases:
  assumes "cs = ls @ (k0, t) # rs" "2 \<le> length cs"
  obtains L ka a kb b R nb where "cs = L @ (ka, a) # (kb, b) # R" "nb \<in> set ls \<union> set rs"
    "pair_frames (length ls) (length L) (gpage a) (gpage b) (gpage (snd nb)) (gpage t)"
    "if length ls = 0 then a = t \<and> b = snd nb else a = snd nb \<and> b = t" "set (L @ R) \<subseteq> set ls \<union> set rs"
    "gpage (snd nb) = (if length ls = 0 then internal_value_at (InternalNode par (map gitem cs)) 1
       else internal_value_at (InternalNode par (map gitem cs)) (length ls - 1))"
proof (cases ls rule: rev_cases)
  case Nil
  then obtain y ys where rs: "rs = y # ys" using assms by (cases rs) auto
  have "cs = [] @ (k0, t) # (fst y, snd y) # ys" by (simp add: assms(1) Nil rs)
  then show thesis
    by (rule that [where nb = y]) (auto simp: assms(1) Nil rs pair_frames_def internal_value_at_def)
next
  case (snoc zs z)
  have "cs = zs @ (fst z, snd z) # (k0, t) # rs" by (simp add: assms(1) snoc)
  then show thesis
    by (rule that [where nb = z]) (auto simp: assms(1) snoc pair_frames_def internal_value_at_def nth_append)
qed

text \<open>The smallest nodes for which the walk can find its position in the parent.\<close>

definition walk_sizes :: "index_file_header \<Rightarrow> bool" where
  "walk_sizes h \<longleftrightarrow> 4 \<le> leaf_max_size h \<and> 6 \<le> internal_max_size h"

context index_order
begin

lemma last_key_bounds:
  assumes "gord cmp lo hi t" "(if gleaf t then 1 else 2) \<le> gsize t"
  shows "at_least cmp lo (gkey t (gsize t - 1))" "strictly_below cmp hi (gkey t (gsize t - 1))"
proof -
  have "at_least cmp lo (gkey t (gsize t - 1)) \<and> strictly_below cmp hi (gkey t (gsize t - 1))"
  proof (cases t)
    case (GLeaf p nx xs)
    then have "xs ! (length xs - 1) \<in> set xs" using assms(2) by (intro nth_mem) simp
    with assms(1) show ?thesis by (simp add: GLeaf)
  next
    case (GNode p cs)
    then have two: "2 \<le> length cs" using assms(2) by simp
    then have "tl cs ! (length cs - 2) \<in> set (tl cs)" by (intro nth_mem) simp
    moreover have "tl cs ! (length cs - 2) = cs ! (length cs - 1)" using two by (simp add: nth_tl Suc_diff_Suc numeral_2_eq_2)
    ultimately have "cs ! (length cs - 1) \<in> set (tl cs)" by simp
    moreover from assms(1) have "ordc cmp (gord cmp) lo hi cs" by (simp add: GNode)
    ultimately have "strictly_above cmp lo (fst (cs ! (length cs - 1)))" "strictly_below cmp hi (fst (cs ! (length cs - 1)))"
      using ordc_separators by blast+
    then show ?thesis unfolding GNode gkey.simps gsize.simps using at_least_strict by blast
  qed
  then show "at_least cmp lo (gkey t (gsize t - 1))" "strictly_below cmp hi (gkey t (gsize t - 1))" by simp_all
qed

text \<open>A tree in which only the node at the end of a path may lack one item.\<close>

definition del_ready :: "tree_handler \<Rightarrow> ctx \<Rightarrow> gtree \<Rightarrow> nat \<Rightarrow> bool" where
  "del_ready st ctx t d \<longleftrightarrow>
     walk_sizes (th_header st) \<and> root_page (th_header st) = gpage (plug ctx t) \<and>
     pool_ok st (gpages (plug ctx t)) \<and> stored (th_pages st) (flat BP_INVALID_PAGE_NUM (plug ctx t)) \<and>
     gord cmp None None (plug ctx t) \<and> chained (gleaves (plug ctx t)) BP_INVALID_PAGE_NUM \<and>
     cshape (leaf_max_size (th_header st) div 2) (leaf_max_size (th_header st))
       (internal_max_size (th_header st) div 2) (internal_max_size (th_header st)) d ctx \<and>
     gkids (th_header st) d t \<and> gsize t \<le> gmax (th_header st) t \<and>
     (if ctx = [] then gleaf t \<or> 1 \<le> gsize t else gmax (th_header st) t div 2 \<le> Suc (gsize t))"

definition del_done :: "tree_handler \<Rightarrow> (key \<times> rid) list \<Rightarrow> tree_handler \<Rightarrow> bool" where
  "del_done st es st' \<longleftrightarrow> index_rep cmp st' es \<and> (\<exists>q. th_header st' = (th_header st) \<lparr> root_page := q \<rparr>)"

lemma walk_sizes_ok: "walk_sizes h \<Longrightarrow> sizes_ok h"
  by (simp add: walk_sizes_def sizes_ok_def)

lemma del_ready_finish:
  assumes "del_ready st ctx t d" "if ctx = [] then (if gleaf t then 1 else 2) \<le> gsize t else gmax (th_header st) t div 2 \<le> gsize t"
  shows "del_done st (gentries (plug ctx t)) st"
proof -
  from assms have "tree_inv cmp st (plug ctx t)"
    unfolding tree_inv_def del_ready_def gshape_plug
    by (auto simp: walk_sizes_ok node_shape_iff root_shape_iff)
  then have "index_rep cmp st (gentries (plug ctx t))" by (rule tree_inv_rep) simp
  then show ?thesis unfolding del_done_def by (metis index_file_header.surjective index_file_header.update_convs(1))
qed

lemma adjust_root_done:
  assumes ready: "del_ready st [] t d" and small: "gsize t \<le> 1"
  shows "del_done st (gentries t) (snd (adjust_root (gpage t) st))"
proof -
  from ready have root: "th_pages st (gpage t) = Some (root_node BP_INVALID_PAGE_NUM t)"
    using stored_root [of "th_pages st" BP_INVALID_PAGE_NUM t] by (simp add: del_ready_def)
  show ?thesis
  proof (cases t)
    case (GLeaf p nx xs)
    show ?thesis
    proof (cases "xs = []")
      case True
      let ?st = "tree_dispose_page p (update_root_page_num_locked BP_INVALID_PAGE_NUM st)"
      have run: "snd (adjust_root (gpage t) st) = ?st" using root by (simp add: adjust_root_def Let_def GLeaf True)
      have "pool_ok st [p]" using ready by (simp add: del_ready_def GLeaf)
      then have "pool_ok ?st []" by (rule pool_ok_dispose) (simp add: tree_dispose_page_def)
      moreover have "sizes_ok (th_header ?st)" using ready walk_sizes_ok by (auto simp: del_ready_def tree_dispose_page_def sizes_ok_def)
      ultimately show ?thesis unfolding run by (auto simp: del_done_def index_rep_def tree_dispose_page_def GLeaf True)
    next
      case False
      then have "snd (adjust_root (gpage t) st) = st" using root by (simp add: adjust_root_def Let_def GLeaf)
      moreover have "del_done st (gentries (plug [] t)) st"
        by (rule del_ready_finish [OF ready]) (use False in \<open>cases xs; simp add: GLeaf\<close>)
      ultimately show ?thesis by simp
    qed
  next
    case (GNode p cs)
    with ready small obtain k c where cs: "cs = [(k, c)]" by (cases cs) (auto simp: del_ready_def)
    obtain e where e: "d = Suc e" "node_shape (th_header st) e c" using ready by (auto simp: del_ready_def GNode cs)
    let ?st1 = "set_parent_page_num (gpage c) BP_INVALID_PAGE_NUM st"
    let ?st = "tree_dispose_page p (update_root_page_num_locked (gpage c) ?st1)"
    have st: "stored (th_pages st) (flat p c)" using ready by (simp add: del_ready_def GNode cs)
    have run: "snd (adjust_root (gpage t) st) = ?st"
      using root stored_root [OF st] by (simp add: adjust_root_def Let_def GNode cs internal_value_at_def)
    have pool: "pool_ok st (p # gpages c)" using ready by (simp add: del_ready_def GNode cs)
    have "distinct (gpages c)" using pool_ok_distinct [OF pool] by simp
    from stored_set_parent [OF st this, of BP_INVALID_PAGE_NUM]
    have "stored (th_pages ?st) (flat BP_INVALID_PAGE_NUM c)" by (simp add: tree_dispose_page_def set_parent_page_num_def)
    moreover have "pool_ok ?st (gpages c)" by (rule pool_ok_dispose [OF pool]) (simp add: tree_dispose_page_def)
    moreover have h: "th_header ?st = (th_header st) \<lparr> root_page := gpage c \<rparr>" by (simp add: tree_dispose_page_def)
    moreover have "walk_sizes (th_header st)" using ready by (simp add: del_ready_def)
    moreover from this e(2) have "root_shape (th_header ?st) e c"
      unfolding root_shape_iff node_shape_iff h by (cases c) (auto simp: walk_sizes_def)
    ultimately have "tree_inv cmp ?st c"
      using ready walk_sizes_ok by (auto simp: tree_inv_def del_ready_def GNode cs sizes_ok_def)
    then have "index_rep cmp ?st (gentries c)" by (rule tree_inv_rep) simp
    then show ?thesis unfolding run del_done_def using h by (auto simp: GNode cs)
  qed
qed

text \<open>What the walk finds at an inner node: its parent, its position there and the neighbour.\<close>

lemma walk_parent:
  assumes ready: "del_ready st ((p, ls, k0, rs) # ctx) t d" and cs: "cs = ls @ (k0, t) # rs"
  shows "th_pages st p = Some (InternalNode (hpar ctx) (map gitem cs))" "stored (th_pages st) (flats p cs)"
    "stored (th_pages st) (cflat ctx p)" "distinct (p # gpagess cs)" "set (cpages ctx) \<inter> insert p (set (gpagess cs)) = {}"
    "gord cmp (hlo ctx) (hhi ctx) (GNode p cs)" "th_pages st (gpage t) = Some (root_node p t)" "p \<noteq> BP_INVALID_PAGE_NUM"
    "fst (internal_lookup cmp (InternalNode (hpar ctx) (map gitem cs)) (gkey t (gsize t - 1))) = length ls"
    "internal_value_at (InternalNode (hpar ctx) (map gitem cs)) (length ls) = gpage t"
    "2 \<le> length cs" "length cs \<le> internal_max_size (th_header st)" "pool_ok st (p # gpagess cs @ cpages ctx)"
proof -
  have plug: "plug ((p, ls, k0, rs) # ctx) t = plug ctx (GNode p cs)" by (simp add: cs)
  have stored: "stored (th_pages st) (flat (hpar ctx) (GNode p cs))" "stored (th_pages st) (cflat ctx p)"
    using ready unfolding del_ready_def plug stored_flat_plug by simp_all
  then show "th_pages st p = Some (InternalNode (hpar ctx) (map gitem cs))" "stored (th_pages st) (flats p cs)"
    "stored (th_pages st) (cflat ctx p)" by simp_all
  then show "th_pages st (gpage t) = Some (root_node p t)" using stored_root [of "th_pages st" p t] by (simp add: cs)
  have "pool_ok st (gpages (plug ctx (GNode p cs)))" using ready unfolding del_ready_def plug by simp
  then show pool: "pool_ok st (p # gpagess cs @ cpages ctx)" by (rule pool_ok_perm) (simp add: gpages_plug)
  then show "distinct (p # gpagess cs)" "set (cpages ctx) \<inter> insert p (set (gpagess cs)) = {}" "p \<noteq> BP_INVALID_PAGE_NUM"
    using pool_ok_distinct [OF pool] by (auto simp: pool_ok_def BP_INVALID_PAGE_NUM_def)
  show ord: "gord cmp (hlo ctx) (hhi ctx) (GNode p cs)"
    by (rule gord_hole) (use ready in \<open>unfold del_ready_def plug, blast\<close>)
  then have oc: "ordc cmp (gord cmp) (hlo ctx) (hhi ctx) cs" by simp
  note hole = ordc_hole [OF oc [unfolded cs]]
  have "(if gleaf t then 1 else 2) \<le> gsize t"
    using ready by (cases t) (auto simp: del_ready_def walk_sizes_def)
  from lookup_unique [OF oc cs last_key_bounds [OF hole this]]
  show "fst (internal_lookup cmp (InternalNode (hpar ctx) (map gitem cs)) (gkey t (gsize t - 1))) = length ls" .
  show "internal_value_at (InternalNode (hpar ctx) (map gitem cs)) (length ls) = gpage t"
    by (simp add: internal_value_at_def cs nth_append)
  show "2 \<le> length cs" "length cs \<le> internal_max_size (th_header st)"
    using ready by (auto simp: del_ready_def walk_sizes_def cs split: if_splits)
qed

lemma walk_run:
  assumes ready: "del_ready st ((p, ls, k0, rs) # ctx) t d" and cs: "cs = ls @ (k0, t) # rs"
    and small: "gsize t < gmax (th_header st) t - gmax (th_header st) t div 2"
    and nb: "gpage (snd nb) = (if length ls = 0 then internal_value_at (InternalNode (hpar ctx) (map gitem cs)) 1
       else internal_value_at (InternalNode (hpar ctx) (map gitem cs)) (length ls - 1))" "nb \<in> set ls \<union> set rs"
  shows "coalesce_or_redistribute cmp (gpage t) st =
    (if gsize t + gsize (snd nb) > gmax (th_header st) t then Some (redistribute (gpage (snd nb)) (gpage t) p (length ls) st)
     else case coalesce (gpage (snd nb)) (gpage t) p (length ls) st of
       (rc, st1) \<Rightarrow> if OB_FAIL rc then Some (rc, st1) else coalesce_or_redistribute cmp p st1)"
proof -
  note w = walk_parent [OF ready cs]
  have size: "0 < gsize t" using ready by (cases t) (auto simp: del_ready_def walk_sizes_def)
  have "nb \<in> set cs" using nb(2) by (auto simp: cs)
  then have nbp: "th_pages st (gpage (snd nb)) = Some (root_node p (snd nb))"
    using w(2) by (auto simp: stored_def flats_def flat_def)
  have key: "node_key_at (root_node p t) (gsize t - Suc 0) = gkey t (gsize t - Suc 0)" using size by (simp add: root_node_sel)
  note facts = w(1,7,8,10) w(9) [unfolded One_nat_def] key root_node_sel nbp
  show ?thesis
  proof (cases "length ls = 0")
    case True
    with nb(1) have "internal_value_at (InternalNode (hpar ctx) (map gitem cs)) (Suc 0) = gpage (snd nb)" by simp
    with True small w(10) show ?thesis by (subst coalesce_or_redistribute.simps) (simp add: Let_def facts split: prod.split)
  next
    case False
    with nb(1) have "internal_value_at (InternalNode (hpar ctx) (map gitem cs)) (length ls - Suc 0) = gpage (snd nb)" by simp
    with False small show ?thesis by (subst coalesce_or_redistribute.simps) (simp add: Let_def facts split: prod.split)
  qed
qed

text \<open>The shape of what surrounds the two neighbours.\<close>

lemma walk_shape:
  assumes ready: "del_ready st ((p, ls, k0, rs) # ctx) t d" and nb: "nb \<in> set ls \<union> set rs" "set (L @ R) \<subseteq> set ls \<union> set rs"
    and ab: "if length ls = 0 then a = t \<and> b = snd nb else a = snd nb \<and> b = t"
  shows "gkids (th_header st) d a" "gkids (th_header st) d b" "gmax (th_header st) a = gmax (th_header st) t"
    "gsize a + gsize b = gsize t + gsize (snd nb)" "gmax (th_header st) t div 2 \<le> gsize (snd nb)"
    "gsize (snd nb) \<le> gmax (th_header st) t" "gmax (th_header st) t div 2 \<le> Suc (gsize t)" "4 \<le> gmax (th_header st) t"
    "\<And>x. x \<in> set L \<union> set R \<Longrightarrow> node_shape (th_header st) d (snd x)"
proof -
  let ?h = "th_header st"
  from ready have t: "gkids ?h d t" "gmax ?h t div 2 \<le> Suc (gsize t)"
    and sh: "\<forall>x\<in>set ls \<union> set rs. node_shape ?h d (snd x)" by (auto simp: del_ready_def)
  then have n: "gkids ?h d (snd nb)" "gmax ?h (snd nb) div 2 \<le> gsize (snd nb)" "gsize (snd nb) \<le> gmax ?h (snd nb)"
    using nb(1) unfolding node_shape_iff by blast+
  have m: "gmax ?h (snd nb) = gmax ?h t" using gmax_alike [OF gkids_alike [OF t(1) n(1)], of ?h] by simp
  show "gkids ?h d a" "gkids ?h d b" "gmax ?h a = gmax ?h t" "gsize a + gsize b = gsize t + gsize (snd nb)"
    using ab t(1) n(1) m by (auto split: if_splits)
  show "gmax ?h t div 2 \<le> gsize (snd nb)" "gsize (snd nb) \<le> gmax ?h t" "gmax ?h t div 2 \<le> Suc (gsize t)" using n t m by simp_all
  show "4 \<le> gmax ?h t" using ready by (cases t) (simp_all add: del_ready_def walk_sizes_def)
  show "node_shape ?h d (snd x)" if "x \<in> set L \<union> set R" for x using sh nb(2) that by auto
qed

lemma walk_coalesce:
  assumes ready: "del_ready st ((p, ls, k0, rs) # ctx) t d" and cs: "cs = ls @ (k0, t) # rs" "cs = L @ (ka, a) # (kb, b) # R"
    and frames: "pair_frames (length ls) (length L) (gpage a) (gpage b) (gpage (snd nb)) (gpage t)"
    and nb: "nb \<in> set ls \<union> set rs" "set (L @ R) \<subseteq> set ls \<union> set rs"
    and ab: "if length ls = 0 then a = t \<and> b = snd nb else a = snd nb \<and> b = t"
    and fits: "gsize t + gsize (snd nb) \<le> gmax (th_header st) t"
  obtains st1 where "coalesce (gpage (snd nb)) (gpage t) p (length ls) st = (SUCCESS, st1)" "th_header st1 = th_header st"
    "del_ready st1 ctx (GNode p (L @ (ka, merge a b) # R)) (Suc d)"
proof -
  note w = walk_parent [OF ready cs(1)] and sh = walk_shape [OF ready nb ab]
  let ?h = "th_header st" and ?cs = "L @ (ka, merge a b) # R"
  have alike: "alike a b" by (rule gkids_alike [OF sh(1,2)])
  obtain st1 where st1: "coalesce (gpage (snd nb)) (gpage t) p (length ls) st = (SUCCESS, st1)" "th_header st1 = ?h"
    "th_pool st1 = snd (dispose_page (nat (gpage b)) (th_pool st))"
    "th_pages st1 p = Some (InternalNode (hpar ctx) (map gitem ?cs))" "stored (th_pages st1) (flats p ?cs)"
    "\<forall>u. u \<notin> insert p (set (gpages a) \<union> set (gpages b)) \<longrightarrow> th_pages st1 u = th_pages st u"
    by (rule coalesce_stored [OF alike w(1,2,4) [unfolded cs(2)] frames]) blast
  have "stored (th_pages st1) (cflat ctx p)"
    using w(5) st1(6) by (intro stored_keep [OF w(3)]; unfold fst_cflat; auto simp: cs(2))
  with st1(4,5) have pages: "stored (th_pages st1) (flat BP_INVALID_PAGE_NUM (plug ctx (GNode p ?cs)))"
    by (simp add: stored_flat_plug del: map_append)
  have "pool_ok st (gpage b # gpages (plug ctx (GNode p ?cs)))"
    by (rule pool_ok_perm [OF w(13)]) (use gpages_merge [OF alike] in \<open>simp add: gpages_plug cs(2) ac_simps\<close>)
  then have pool: "pool_ok st1 (gpages (plug ctx (GNode p ?cs)))" by (rule pool_ok_dispose [OF _ st1(3)])
  have plug: "plug ((p, ls, k0, rs) # ctx) t = plug ctx (GNode p (L @ (ka, a) # (kb, b) # R))" using cs by simp
  have ord: "gord cmp None None (plug ctx (GNode p ?cs))"
    by (rule gord_replace [of ctx "GNode p (L @ (ka, a) # (kb, b) # R)"])
      (use ready [unfolded del_ready_def plug] gord_join(1) [OF w(6) [unfolded cs(2)] alike] in auto)
  have "chained (leaves_left ctx @ (gleavess L @ gleaves a @ gleaves b @ gleavess R) @ leaves_right ctx) BP_INVALID_PAGE_NUM"
    using ready unfolding del_ready_def plug gleaves_plug by simp
  then have chain: "chained (gleaves (plug ctx (GNode p ?cs))) BP_INVALID_PAGE_NUM"
    using chained_merge [OF alike, of "leaves_left ctx @ gleavess L" "gleavess R @ leaves_right ctx"]
    by (simp add: gleaves_plug)
  have "node_shape ?h d (merge a b)"
    unfolding node_shape_iff using gkids_merge [OF sh(1,2)] gsize_merge [OF alike] gmax_alike [OF alike, of ?h] sh fits by simp
  with sh(9) have kids: "gkids ?h (Suc d) (GNode p ?cs)" by auto
  have "length ?cs = length ls + length rs" using arg_cong [OF cs(2), of length] by (simp add: cs(1))
  then have "del_ready st1 ctx (GNode p ?cs) (Suc d)"
    using ready pages pool ord chain kids unfolding del_ready_def st1(2) plug
    by (auto simp: gpage_plug)
  with that st1(1,2) show thesis by blast
qed

lemma walk_redistribute:
  assumes ready: "del_ready st ((p, ls, k0, rs) # ctx) t d" and cs: "cs = ls @ (k0, t) # rs" "cs = L @ (ka, a) # (kb, b) # R"
    and frames: "pair_frames (length ls) (length L) (gpage a) (gpage b) (gpage (snd nb)) (gpage t)"
    and nb: "nb \<in> set ls \<union> set rs" "set (L @ R) \<subseteq> set ls \<union> set rs"
    and ab: "if length ls = 0 then a = t \<and> b = snd nb else a = snd nb \<and> b = t"
    and big: "gsize t + gsize (snd nb) > gmax (th_header st) t"
    and small: "gsize t < gmax (th_header st) t - gmax (th_header st) t div 2"
  obtains st1 where "redistribute (gpage (snd nb)) (gpage t) p (length ls) st = (SUCCESS, st1)"
    "del_done st (gentries (plug ctx (GNode p cs))) st1"
proof -
  note w = walk_parent [OF ready cs(1)] and sh = walk_shape [OF ready nb ab]
  define m where "m = new_cut (length ls) (gsize a)"
  define a' where "a' = fst (shift m a b)" define b' where "b' = snd (shift m a b)"
  define cs' where "cs' = L @ (ka, a') # (gkey (merge a b) m, b') # R"
  let ?h = "th_header st"
  have alike: "alike a b" by (rule gkids_alike [OF sh(1,2)])
  have m: "0 < m" "m < gsize a + gsize b" "gmax ?h a div 2 \<le> m" "m \<le> gmax ?h a"
    "gmax ?h a div 2 \<le> gsize a + gsize b - m" "gsize a + gsize b - m \<le> gmax ?h a"
    "if length ls = 0 then 1 < gsize b else 0 < gsize a"
    using ab sh(3-8) big small by (auto simp: m_def new_cut_def split: if_splits)
  obtain st1 where st1: "redistribute (gpage (snd nb)) (gpage t) p (length ls) st = (SUCCESS, st1)" "th_header st1 = ?h"
    "th_pool st1 = th_pool st" "th_pages st1 p = Some (InternalNode (hpar ctx) (map gitem cs'))" "stored (th_pages st1) (flats p cs')"
    "\<forall>u. u \<notin> insert p (set (gpages a) \<union> set (gpages b)) \<longrightarrow> th_pages st1 u = th_pages st u"
    by (rule redistribute_stored [OF alike w(1,2,4) [unfolded cs(2)] frames m_def m(7) cs'_def [unfolded a'_def b'_def]]) blast
  have "stored (th_pages st1) (cflat ctx p)"
    using w(5) st1(6) by (intro stored_keep [OF w(3)]; unfold fst_cflat; auto simp: cs(2))
  with st1(4,5) have pages: "stored (th_pages st1) (flat BP_INVALID_PAGE_NUM (plug ctx (GNode p cs')))"
    by (simp add: stored_flat_plug del: map_append)
  have "pool_ok st (gpages (plug ctx (GNode p cs')))"
    by (rule pool_ok_perm [OF w(13)])
      (use gpages_shift [OF alike, of m] in \<open>simp add: gpages_plug cs(2) cs'_def a'_def b'_def ac_simps\<close>)
  then have pool: "pool_ok st1 (gpages (plug ctx (GNode p cs')))" unfolding pool_ok_cong [OF st1(3)] .
  have plug: "plug ((p, ls, k0, rs) # ctx) t = plug ctx (GNode p cs)" using cs(1) by simp
  have ord: "gord cmp None None (plug ctx (GNode p cs'))"
    by (rule gord_replace [of ctx "GNode p cs"])
      (use ready [unfolded del_ready_def plug] gord_divide [OF w(6) [unfolded cs(2)] alike m(1,2)]
        in \<open>auto simp: cs'_def a'_def b'_def\<close>)
  have lists: "gentriess cs' = gentriess cs" "gleavess cs' = gleavess cs"
    using gentries_shift [OF alike, of m] gleaves_shift [OF alike, of m] by (simp_all add: cs'_def cs(2) a'_def b'_def flip: append_assoc)
  have chain: "chained (gleaves (plug ctx (GNode p cs'))) BP_INVALID_PAGE_NUM"
    using ready unfolding del_ready_def plug gleaves_plug by (simp add: lists)
  have "node_shape ?h d a'" "node_shape ?h d b'"
    unfolding a'_def b'_def by (rule shift_shape [OF sh(1,2)]; use m in simp)+
  with sh(9) have kids: "gkids ?h (Suc d) (GNode p cs')" by (auto simp: cs'_def)
  have "length cs' = length cs" by (simp add: cs'_def cs(2))
  then have "del_ready st1 ctx (GNode p cs') (Suc d)" "if ctx = [] then 2 \<le> length cs' else internal_max_size ?h div 2 \<le> length cs'"
    using ready pages pool ord chain kids unfolding del_ready_def st1(2) plug
    by (auto simp: gpage_plug cs(1))
  then have "del_done st1 (gentries (plug ctx (GNode p cs'))) st1"
    by (intro del_ready_finish) (auto simp: st1(2))
  then have "del_done st (gentries (plug ctx (GNode p cs))) st1"
    by (simp add: del_done_def gentries_plug lists st1(2))
  with that st1(1) show thesis by blast
qed

text \<open>The walk ends: its path to the root becomes shorter with every step.\<close>

lemma balance_done:
  assumes "del_ready st ctx t d"
  shows "\<exists>st'. coalesce_or_redistribute cmp (gpage t) st = Some (SUCCESS, st') \<and> del_done st (gentries (plug ctx t)) st'"
  using assms
proof (induction ctx arbitrary: st t d)
  case Nil
  have root: "th_pages st (gpage t) = Some (root_node BP_INVALID_PAGE_NUM t)"
    using Nil stored_root [of "th_pages st" BP_INVALID_PAGE_NUM t] by (simp add: del_ready_def)
  show ?case
  proof (cases "gmax (th_header st) t - gmax (th_header st) t div 2 \<le> gsize t \<or> 1 < gsize t")
    case True
    have "2 \<le> gmax (th_header st) t - gmax (th_header st) t div 2"
      using Nil by (cases t) (auto simp: del_ready_def walk_sizes_def)
    with True have "2 \<le> gsize t" by linarith
    then have "del_done st (gentries (plug [] t)) st" by (intro del_ready_finish [OF Nil]) simp
    moreover have "coalesce_or_redistribute cmp (gpage t) st = Some (SUCCESS, st)"
      by (subst coalesce_or_redistribute.simps) (use True in \<open>auto simp: Let_def root root_node_sel\<close>)
    ultimately show ?thesis by blast
  next
    case False
    then have "coalesce_or_redistribute cmp (gpage t) st = Some (SUCCESS, snd (adjust_root (gpage t) st))"
      by (subst coalesce_or_redistribute.simps) (simp add: Let_def root root_node_sel)
    with adjust_root_done [OF Nil] False show ?thesis by simp
  qed
next
  case (Cons c ctx)
  obtain p ls k0 rs where c: "c = (p, ls, k0, rs)" by (metis surj_pair)
  define cs where "cs = ls @ (k0, t) # rs"
  note ready = Cons.prems [unfolded c]
  note w = walk_parent [OF ready cs_def]
  have plug: "plug (c # ctx) t = plug ctx (GNode p cs)" by (simp add: c cs_def)
  show ?case
  proof (cases "gsize t < gmax (th_header st) t - gmax (th_header st) t div 2")
    case False
    then have "coalesce_or_redistribute cmp (gpage t) st = Some (SUCCESS, st)"
      by (subst coalesce_or_redistribute.simps) (simp add: Let_def w(7) root_node_sel)
    moreover have "del_done st (gentries (plug (c # ctx) t)) st"
      by (rule del_ready_finish [OF Cons.prems]) (use False in simp)
    ultimately show ?thesis by blast
  next
    case small: True
    obtain L ka a kb b R nb where n: "cs = L @ (ka, a) # (kb, b) # R" "nb \<in> set ls \<union> set rs"
      "pair_frames (length ls) (length L) (gpage a) (gpage b) (gpage (snd nb)) (gpage t)"
      "if length ls = 0 then a = t \<and> b = snd nb else a = snd nb \<and> b = t" "set (L @ R) \<subseteq> set ls \<union> set rs"
      "gpage (snd nb) = (if length ls = 0 then internal_value_at (InternalNode (hpar ctx) (map gitem cs)) 1
         else internal_value_at (InternalNode (hpar ctx) (map gitem cs)) (length ls - 1))"
      by (rule neighbor_cases [OF cs_def w(11)])
    note run = walk_run [OF ready cs_def small n(6,2)]
    show ?thesis
    proof (cases "gsize t + gsize (snd nb) > gmax (th_header st) t")
      case True
      from walk_redistribute [OF ready cs_def n(1,3,2,5,4) True small] obtain st1 where
        "redistribute (gpage (snd nb)) (gpage t) p (length ls) st = (SUCCESS, st1)" "del_done st (gentries (plug ctx (GNode p cs))) st1" .
      with run True show ?thesis unfolding plug by simp
    next
      case False
      then have "gsize t + gsize (snd nb) \<le> gmax (th_header st) t" by simp
      from walk_coalesce [OF ready cs_def n(1,3,2,5,4) this] obtain st1 where
        st1: "coalesce (gpage (snd nb)) (gpage t) p (length ls) st = (SUCCESS, st1)" "th_header st1 = th_header st"
          "del_ready st1 ctx (GNode p (L @ (ka, merge a b) # R)) (Suc d)" .
      from Cons.IH [OF st1(3)] obtain st' where st': "coalesce_or_redistribute cmp p st1 = Some (SUCCESS, st')"
        "del_done st1 (gentries (plug ctx (GNode p (L @ (ka, merge a b) # R)))) st'" by auto
      have "alike a b" by (rule gkids_alike [OF walk_shape(1,2) [OF ready n(2,5,4)]])
      then have "gentries (plug ctx (GNode p (L @ (ka, merge a b) # R))) = gentries (plug ctx (GNode p cs))"
        by (simp add: gentries_plug n(1) gentries_merge)
      with run False st1(1,2) st' show ?thesis unfolding plug by (simp add: del_done_def)
    qed
  qed
qed

section \<open>Removing an entry from the leaf that was found\<close>

lemma remove_at_found:
  assumes "sorted_entries xs" "index_has cmp k xs"
  shows "remove_at (position k xs) (Suc 0) xs = filter (\<lambda>x. cmp (fst x) k \<noteq> 0) xs" "position k xs < length xs"
proof -
  from assms(2) obtain x where x: "x \<in> set xs" "cmp (fst x) k = 0" by (auto simp: index_has_def)
  from split_list [OF x(1)] obtain A B where xs: "xs = A @ x # B" by blast
  have "cmp (fst y) (fst x) < 0" if "y \<in> set A" for y using assms(1) that by (simp add: xs sorted_wrt_append)
  then have A: "cmp (fst y) k < 0" if "y \<in> set A" for y
    using that x(2) lt_le_trans [of "fst y" "fst x" k] by (simp add: lt_def le_def)
  have "cmp (fst x) (fst y) < 0" if "y \<in> set B" for y using assms(1) that by (simp add: xs sorted_wrt_append)
  then have "cmp k (fst y) < 0" if "y \<in> set B" for y
    using that x(2) cmp_zero_sym [of k "fst x"] le_lt_trans [of k "fst x" "fst y"] by (simp add: lt_def le_def)
  then have B: "cmp (fst y) k \<noteq> 0" if "y \<in> set B" for y using that cmp_flip [of k "fst y"] by fastforce
  have pos: "position k xs = length A" using A x(2) by (simp add: rank_def xs takeWhile_append2)
  have "filter (\<lambda>x. cmp (fst x) k \<noteq> 0) A = A" "filter (\<lambda>x. cmp (fst x) k \<noteq> 0) B = B"
    using A B by (simp_all add: filter_id_conv) (metis less_irrefl)
  with x(2) show "remove_at (position k xs) (Suc 0) xs = filter (\<lambda>x. cmp (fst x) k \<noteq> 0) xs" "position k xs < length xs"
    unfolding pos by (simp_all add: xs remove_at_def)
qed

lemma delete_from_leaf:
  assumes inv: "tree_inv cmp st (plug ctx (GLeaf p nx xs))" and has: "index_has cmp k xs" and sizes: "walk_sizes (th_header st)"
  obtains st' where "delete_entry_internal cmp p k st = Some (SUCCESS, st')"
    "del_done st (entries_left ctx @ filter (\<lambda>x. cmp (fst x) k \<noteq> 0) xs @ entries_right ctx) st'"
proof -
  note leaf = leaf_found [OF inv]
  let ?xs = "filter (\<lambda>x. cmp (fst x) k \<noteq> 0) xs"
  have sorted: "sorted_entries xs" using leaf(2) by simp
  note rem = remove_at_found [OF sorted has]
  define st1 where "st1 = leaf_remove p (position k xs) st"
  have P: "th_pages st1 = (th_pages st)(p \<mapsto> LeafNode (hpar ctx) nx ?xs)"
    using leaf(1) rem(1) by (simp add: st1_def page_ops item_count_def)
  have same: "th_pool st1 = th_pool st" "th_header st1 = th_header st" by (simp_all add: st1_def page_ops)
  have "length xs = Suc (length (remove_at (position k xs) (Suc 0) xs))" using rem(2) by (simp add: remove_at_def)
  then have len: "length xs = Suc (length ?xs)" unfolding rem(1) .
  have "p \<notin> set (cpages ctx)" using pool_ok_distinct [OF leaf(4)] by simp
  then have "stored (th_pages st1) (flat BP_INVALID_PAGE_NUM (plug ctx (GLeaf p nx ?xs)))"
    using leaf(3) by (simp add: stored_flat_plug P stored_fun_upd fst_cflat flip: set_map)
  moreover have "gord cmp None None (plug ctx (GLeaf p nx ?xs))"
  proof (rule gord_replace)
    show "gord cmp None None (plug ctx (GLeaf p nx xs))" using inv by (simp add: tree_inv_def)
    show "gord cmp (hlo ctx) (hhi ctx) (GLeaf p nx ?xs)" using leaf(2) by (auto intro: sorted_wrt_filter)
  qed
  moreover have "pool_ok st1 (gpages (plug ctx (GLeaf p nx ?xs)))"
    unfolding pool_ok_cong [OF same(1)] by (rule pool_ok_perm [OF leaf(4)]) (simp add: gpages_plug)
  moreover have "root_page (th_header st) = gpage (plug ctx (GLeaf p nx ?xs))" using inv by (simp add: tree_inv_def gpage_plug)
  moreover have "chained (gleaves (plug ctx (GLeaf p nx ?xs))) BP_INVALID_PAGE_NUM" using inv by (simp add: tree_inv_def gleaves_plug)
  moreover obtain d where "cshape (leaf_max_size (th_header st) div 2) (leaf_max_size (th_header st))
      (internal_max_size (th_header st) div 2) (internal_max_size (th_header st)) d ctx" "d = 0" "length xs \<le> leaf_max_size (th_header st)"
      "ctx \<noteq> [] \<longrightarrow> leaf_max_size (th_header st) div 2 \<le> length xs"
    using inv by (auto simp: tree_inv_def gshape_plug split: if_splits)
  ultimately have "del_ready st1 ctx (GLeaf p nx ?xs) 0" using sizes len by (simp add: del_ready_def same)
  from balance_done [OF this] obtain st' where
    st': "coalesce_or_redistribute cmp p st1 = Some (SUCCESS, st')" "del_done st1 (entries_left ctx @ ?xs @ entries_right ctx) st'"
    by (auto simp: gentries_plug)
  have stop: "coalesce_or_redistribute cmp p st1 = Some (SUCCESS, st1)"
    if "node_size (node_at st1 p) \<ge> min_size (th_header st1) (node_at st1 p)"
    by (subst coalesce_or_redistribute.simps) (use that in \<open>simp add: Let_def\<close>)
  have "leaf_remove_key cmp p k st = (1, st1)"
    using leaf(1) leaf(5) [of k] has by (simp add: leaf_remove_key_def st1_def)
  with st'(1) stop have "delete_entry_internal cmp p k st = Some (SUCCESS, st')" by (auto simp: delete_entry_internal_def Let_def)
  moreover have "del_done st (entries_left ctx @ ?xs @ entries_right ctx) st'" using st'(2) by (simp add: del_done_def same)
  ultimately show thesis by (rule that)
qed

lemma filter_beside:
  "(\<And>x. x \<in> set L \<Longrightarrow> cmp (fst x) k < 0) \<Longrightarrow> (\<And>x. x \<in> set R \<Longrightarrow> cmp k (fst x) < 0) \<Longrightarrow>
   filter (\<lambda>x. cmp (fst x) k \<noteq> 0) (L @ xs @ R) = L @ filter (\<lambda>x. cmp (fst x) k \<noteq> 0) xs @ R"
proof -
  assume a: "\<And>x. x \<in> set L \<Longrightarrow> cmp (fst x) k < 0" "\<And>x. x \<in> set R \<Longrightarrow> cmp k (fst x) < 0"
  have "cmp (fst x) k \<noteq> 0" if "x \<in> set L" for x using a(1) [OF that] by simp
  moreover have "cmp (fst x) k \<noteq> 0" if "x \<in> set R" for x using a(2) [OF that] cmp_flip [of k "fst x"] by simp
  ultimately show ?thesis by (simp add: filter_id_conv)
qed

lemma delete_entry_runs:
  assumes rep: "index_rep cmp st es" and sizes: "walk_sizes (th_header st)"
    and k: "k = make_key (attr_length (th_header st)) user_key r"
  shows "if index_has cmp k es
    then \<exists>st'. delete_entry cmp user_key r st = Some (SUCCESS, st') \<and> del_done st (filter (\<lambda>x. cmp (fst x) k \<noteq> 0) es) st'
    else delete_entry cmp user_key r st = Some (RECORD_NOT_EXIST, st)"
proof (cases "es = []")
  case True
  with rep have "is_empty st" by (simp add: index_rep_def is_empty_def)
  with True show ?thesis by (simp add: delete_entry_def find_leaf_def find_leaf_internal_def Let_def index_has_def)
next
  case False
  from index_rep_tree [OF rep False] obtain t where t: "tree_inv cmp st t" "gentries t = es" by blast
  from find_leaf_reaches [OF t(1), of k] obtain ctx p nx xs where
    f: "t = plug ctx (GLeaf p nx xs)" "find_leaf cmp k st = Some (SUCCESS, p)" "at_least cmp (hlo ctx) k" "strictly_below cmp (hhi ctx) k" .
  note inv = t(1) [unfolded f(1)]
  have "gord cmp None None (plug ctx (GLeaf p nx xs))" using inv by (simp add: tree_inv_def)
  note beside = entry_beside_leaf [OF this f(3,4)]
  have es: "es = entries_left ctx @ xs @ entries_right ctx" by (simp add: f(1) gentries_plug flip: t(2))
  have run: "delete_entry cmp user_key r st = delete_entry_internal cmp p k st"
    using f(2) by (simp add: delete_entry_def Let_def flip: k)
  show ?thesis
  proof (cases "index_has cmp k xs")
    case True
    from delete_from_leaf [OF inv True sizes] obtain st' where
      "delete_entry_internal cmp p k st = Some (SUCCESS, st')"
      "del_done st (entries_left ctx @ filter (\<lambda>x. cmp (fst x) k \<noteq> 0) xs @ entries_right ctx) st'" .
    with True index_has_around [OF beside] filter_beside [OF beside] run show ?thesis by (simp add: es)
  next
    case False
    with leaf_found(1) [OF inv] leaf_found(5) [OF inv, of k] have "delete_entry_internal cmp p k st = Some (RECORD_NOT_EXIST, st)"
      by (simp add: delete_entry_internal_def leaf_remove_key_def)
    with False index_has_around [OF beside] run show ?thesis by (simp add: es)
  qed
qed

end

section \<open>Histories of an index\<close>

text \<open>Insertions and deletions one after the other, up to the first insertion that finds the file full.\<close>

datatype tree_op = AddEntry "byte list" rid | RemoveEntry "byte list" rid

fun tree_run :: "(key \<Rightarrow> key \<Rightarrow> int) \<Rightarrow> tree_op list \<Rightarrow> tree_handler \<Rightarrow> (RC list \<times> tree_handler) option" where
  "tree_run cmp [] st = Some ([], st)"
| "tree_run cmp (c # cs) st =
    Option.bind (case c of AddEntry v r \<Rightarrow> insert_entry cmp v r st | RemoveEntry v r \<Rightarrow> delete_entry cmp v r st) (\<lambda>(rc, st1).
      if rc = BUFFERPOOL_NOBUF then Some ([rc], st1)
      else map_option (\<lambda>(rcs, st2). (rc # rcs, st2)) (tree_run cmp cs st1))"

text \<open>The same on a sorted list of entries; keys are built for attributes of length \<open>n\<close>.\<close>

fun list_run :: "(key \<Rightarrow> key \<Rightarrow> int) \<Rightarrow> nat \<Rightarrow> tree_op list \<Rightarrow> (key \<times> rid) list \<Rightarrow> RC list \<times> (key \<times> rid) list" where
  "list_run cmp n [] es = ([], es)"
| "list_run cmp n (AddEntry v r # cs) es =
    (let k = make_key n v r
     in if index_has cmp k es then let (rcs, es') = list_run cmp n cs es in (RECORD_DUPLICATE_KEY # rcs, es')
        else let (rcs, es') = list_run cmp n cs (index_add cmp (k, r) es) in (SUCCESS # rcs, es'))"
| "list_run cmp n (RemoveEntry v r # cs) es =
    (let k = make_key n v r
     in if index_has cmp k es
        then let (rcs, es') = list_run cmp n cs (filter (\<lambda>x. cmp (fst x) k \<noteq> 0) es) in (SUCCESS # rcs, es')
        else let (rcs, es') = list_run cmp n cs es in (RECORD_NOT_EXIST # rcs, es'))"

context index_order
begin

text \<open>One operation: it either follows the list, or it is an insertion into a full file.\<close>

lemma tree_run_list:
  assumes "index_rep cmp st es" "walk_sizes (th_header st)"
  shows "\<exists>rcs st'. tree_run cmp cs st = Some (rcs, st') \<and>
    (BUFFERPOOL_NOBUF \<in> set rcs \<and> live_pages (th_pool st') = {..<MAX_PAGE_NUM} \<or>
     rcs = fst (list_run cmp (attr_length (th_header st)) cs es) \<and>
     index_rep cmp st' (snd (list_run cmp (attr_length (th_header st)) cs es)))"
  using assms
proof (induction cs arbitrary: st es)
  case Nil
  then show ?case by simp
next
  case (Cons c cs)
  let ?n = "attr_length (th_header st)"
  have go: ?case if op: "(case c of AddEntry v r \<Rightarrow> insert_entry cmp v r st | RemoveEntry v r \<Rightarrow> delete_entry cmp v r st) = Some (rc, st1)"
    "index_rep cmp st1 es1" "\<exists>q. th_header st1 = (th_header st) \<lparr> root_page := q \<rparr>" "rc \<noteq> BUFFERPOOL_NOBUF"
    "list_run cmp ?n (c # cs) es = (rc # fst (list_run cmp ?n cs es1), snd (list_run cmp ?n cs es1))" for rc st1 es1
  proof -
    from op(3) Cons.prems(2) have h: "walk_sizes (th_header st1)" "attr_length (th_header st1) = ?n" by (auto simp: walk_sizes_def)
    from Cons.IH [OF op(2) h(1)] obtain rcs st' where "tree_run cmp cs st1 = Some (rcs, st')"
      "BUFFERPOOL_NOBUF \<in> set rcs \<and> live_pages (th_pool st') = {..<MAX_PAGE_NUM} \<or>
       rcs = fst (list_run cmp ?n cs es1) \<and> index_rep cmp st' (snd (list_run cmp ?n cs es1))" unfolding h(2) by blast
    then show ?thesis using op(1,4) unfolding op(5) by auto
  qed
  show ?case
  proof (cases c)
    case (AddEntry v r)
    let ?k = "make_key ?n v r"
    show ?thesis
    proof (cases "index_has cmp ?k es")
      case True
      show ?thesis
        by (rule go [of RECORD_DUPLICATE_KEY st es])
          (use AddEntry True insert_entry_duplicate [OF Cons.prems(1) True] Cons.prems(1) in
            \<open>auto simp: Let_def split: prod.split intro: exI [of _ "root_page (th_header st)"]\<close>)
    next
      case False
      from Cons.prems(1) False show ?thesis
      proof (cases rule: insert_entry_new)
        case (full st1)
        then show ?thesis by (simp add: AddEntry)
      next
        case (added st1)
        show ?thesis by (rule go [OF _ added(2,3)]) (use AddEntry False added(1) in \<open>auto simp: Let_def split: prod.split\<close>)
      qed
    qed
  next
    case (RemoveEntry v r)
    let ?k = "make_key ?n v r"
    note d = delete_entry_runs [OF Cons.prems refl, of v r]
    show ?thesis
    proof (cases "index_has cmp ?k es")
      case True
      with d obtain st1 where st1: "delete_entry cmp v r st = Some (SUCCESS, st1)"
        "del_done st (filter (\<lambda>x. cmp (fst x) ?k \<noteq> 0) es) st1" by auto
      show ?thesis
        by (rule go [OF _ conjunct1 [OF st1(2) [unfolded del_done_def]] conjunct2 [OF st1(2) [unfolded del_done_def]]])
          (use RemoveEntry True st1(1) in \<open>auto simp: Let_def split: prod.split\<close>)
    next
      case False
      show ?thesis
        by (rule go [of RECORD_NOT_EXIST st es])
          (use RemoveEntry False d Cons.prems(1) in
            \<open>auto simp: Let_def split: prod.split intro: exI [of _ "root_page (th_header st)"]\<close>)
    qed
  qed
qed

end

section \<open>Properties\<close>

text \<open>
  C2: delete_entry implements removal from a sorted list.  On an index file that represents the entries
  \<open>es\<close>, with nodes of at least four entries in a leaf and six children, it always returns: a key
  that is present is removed and the file afterwards represents the remaining entries (all B+
  tree invariants included), through any number of merged or rebalanced nodes, down to the empty
  index; a key that is not present gives RECORD_NOT_EXIST and nothing changes.
\<close>

theorem delete_entry_refines:
  assumes "attr_type (th_header st) \<in> {INTS, CHARS}" "index_rep (tree_comparator fcmp (th_header st)) st es"
    "4 \<le> leaf_max_size (th_header st)" "6 \<le> internal_max_size (th_header st)"
  shows "case delete_entry (tree_comparator fcmp (th_header st)) user_key r st of
      None \<Rightarrow> False
    | Some (rc, st') \<Rightarrow>
        let cmp = tree_comparator fcmp (th_header st);
            k = make_key (attr_length (th_header st)) user_key r
        in if index_has cmp k es then
             rc = SUCCESS \<and> index_rep (tree_comparator fcmp (th_header st')) st' (filter (\<lambda>x. cmp (fst x) k \<noteq> 0) es)
           else rc = RECORD_NOT_EXIST \<and> st' = st"
proof -
  let ?cmp = "tree_comparator fcmp (th_header st)"
  note io = tree_comparator_order [OF assms(1), of fcmp]
  have "walk_sizes (th_header st)" using assms(3,4) by (simp add: walk_sizes_def)
  from index_order.delete_entry_runs [OF io assms(2) this refl, of user_key r] show ?thesis
    by (auto simp: Let_def index_order.del_done_def [OF io] split: if_splits)
qed

text \<open>The only entry of an index is removed.\<close>

theorem delete_entry_refines_witness:
  "\<exists>st st'. th_header st = sample_header \<lparr> internal_max_size := 6 \<rparr> \<and>
    index_rep (tree_comparator (\<lambda>_ _ _. 0) (th_header st)) st
      [(Key [5, 0, 0, 0] \<lparr> rid_page_num = 1, rid_slot_num = 2 \<rparr>, \<lparr> rid_page_num = 1, rid_slot_num = 2 \<rparr>)] \<and>
    delete_entry (tree_comparator (\<lambda>_ _ _. 0) (th_header st)) [5, 0, 0, 0] \<lparr> rid_page_num = 1, rid_slot_num = 2 \<rparr> st = Some (SUCCESS, st') \<and>
    index_rep (tree_comparator (\<lambda>_ _ _. 0) (th_header st')) st' []"
proof -
  let ?h = "sample_header \<lparr> internal_max_size := 6 \<rparr>" and ?r = "\<lparr> rid_page_num = 1, rid_slot_num = 2 \<rparr>"
  obtain st where st: "th_header st = ?h" "index_rep (tree_comparator (\<lambda>_ _ _. 0) ?h) st [(Key [5, 0, 0, 0] ?r, ?r)]"
    by (rule sample_index_of [of ?h]) (simp_all add: sample_header_def)
  have "index_order (tree_comparator (\<lambda>_ _ _. 0) ?h)" by (rule tree_comparator_order) (simp add: sample_header_def)
  then have refl: "tree_comparator (\<lambda>_ _ _. 0) ?h k k = 0" for k
    by (intro key_order.cmp_refl) (simp add: index_order_def)
  have "attr_type (th_header st) \<in> {INTS, CHARS}" "4 \<le> leaf_max_size (th_header st)" "6 \<le> internal_max_size (th_header st)"
    by (simp_all add: st(1) sample_header_def)
  from delete_entry_refines [OF this(1) st(2) [folded st(1)] this(2,3), of "[5, 0, 0, 0]" ?r]
  obtain st' where "delete_entry (tree_comparator (\<lambda>_ _ _. 0) (th_header st)) [5, 0, 0, 0] ?r st = Some (SUCCESS, st')"
    "index_rep (tree_comparator (\<lambda>_ _ _. 0) (th_header st')) st' []"
    unfolding st(1) by (auto simp: index_has_def make_key_def Let_def sample_header_def refl [unfolded sample_header_def, simplified]
        split: option.splits prod.splits if_splits)
  with st show ?thesis by metis
qed

text \<open>
  C3: every sequence of insertions and deletions on an index file returns, and gives the codes and the
  entries of the same sequence on a sorted list, up to the first insertion that finds all pages
  of the file in use.
\<close>

theorem index_history:
  assumes "attr_type (th_header st) \<in> {INTS, CHARS}" "index_rep (tree_comparator fcmp (th_header st)) st es"
    "4 \<le> leaf_max_size (th_header st)" "6 \<le> internal_max_size (th_header st)" "cmp = tree_comparator fcmp (th_header st)"
  shows "\<exists>rcs st'. tree_run cmp cs st = Some (rcs, st') \<and>
    (BUFFERPOOL_NOBUF \<in> set rcs \<and> live_pages (th_pool st') = {..<MAX_PAGE_NUM} \<or>
     rcs = fst (list_run cmp (attr_length (th_header st)) cs es) \<and>
     index_rep cmp st' (snd (list_run cmp (attr_length (th_header st)) cs es)))"
proof -
  have "walk_sizes (th_header st)" using assms(3,4) by (simp add: walk_sizes_def)
  from index_order.tree_run_list [OF tree_comparator_order [OF assms(1)] assms(2) this] assms(5) show ?thesis by blast
qed

text \<open>A new index with nodes of the size of a page; two insertions and a deletion.\<close>

theorem index_history_witness:
  "\<exists>st rcs st'. tree_create (open_new_pool 7) INTS 4 (-1) (-1) = (SUCCESS, Some st) \<and>
    tree_run (tree_comparator (\<lambda>_ _ _. 0) (th_header st))
      [AddEntry [5, 0, 0, 0] \<lparr> rid_page_num = 1, rid_slot_num = 2 \<rparr>, AddEntry [5, 0, 0, 0] \<lparr> rid_page_num = 1, rid_slot_num = 2 \<rparr>,
       RemoveEntry [5, 0, 0, 0] \<lparr> rid_page_num = 1, rid_slot_num = 2 \<rparr>] st = Some (rcs, st') \<and>
    (BUFFERPOOL_NOBUF \<in> set rcs \<or>
     rcs = [SUCCESS, RECORD_DUPLICATE_KEY, SUCCESS] \<and> index_rep (tree_comparator (\<lambda>_ _ _. 0) (th_header st)) st' [])"
proof -
  let ?r = "\<lparr> rid_page_num = 1, rid_slot_num = 2 \<rparr>"
  let ?cs = "[AddEntry [5, 0, 0, 0] ?r, AddEntry [5, 0, 0, 0] ?r, RemoveEntry [5, 0, 0, 0] ?r]"
  have cap: "6 \<le> calc_internal_page_capacity 4" "4 \<le> calc_leaf_page_capacity 4"
    by (simp_all add: calc_internal_page_capacity_def calc_leaf_page_capacity_def BP_PAGE_DATA_SIZE_def
        BP_PAGE_SIZE_def RID_SIZE_def PAGE_NUM_SIZE_def INTERNAL_HEADER_SIZE_def LEAF_HEADER_SIZE_def)
  obtain st where st: "tree_create (open_new_pool 7) INTS 4 (-1) (-1) = (SUCCESS, Some st)"
    "index_rep (tree_comparator (\<lambda>_ _ _. 0) (th_header st)) st []" "attr_type (th_header st) = INTS" "attr_length (th_header st) = 4"
    by (rule tree_create_empty [OF open_new_pool_wf open_new_pool_live, of "-1" 4 "-1" 7 INTS
        "key_comparator (attr_comparator (\<lambda>_ _ _. 0) INTS 4)"]) (use cap in \<open>auto simp: tree_comparator_def\<close>)
  have sizes: "4 \<le> leaf_max_size (th_header st)" "6 \<le> internal_max_size (th_header st)"
    using st(1) cap by (auto simp: tree_create_def Let_def split: prod.splits option.splits if_splits)
  have ty: "attr_type (th_header st) \<in> {INTS, CHARS}" using st(3) by simp
  have "index_order (tree_comparator (\<lambda>_ _ _. 0) (th_header st))" by (rule tree_comparator_order [OF ty])
  then have self: "tree_comparator (\<lambda>_ _ _. 0) (th_header st) k k = 0" for k
    by (intro key_order.cmp_refl) (simp add: index_order_def)
  have "list_run (tree_comparator (\<lambda>_ _ _. 0) (th_header st)) 4 ?cs [] = ([SUCCESS, RECORD_DUPLICATE_KEY, SUCCESS], [])"
    by (simp add: Let_def index_has_def self)
  with index_history [OF ty st(2) sizes refl, of ?cs] st(1,4) show ?thesis by force
qed

end
