(* ===== verification/Record_Page.thy ===== *)
theory Record_Page
  imports Buffer_Pool Serializer Index_Key
begin

text \<open>
  Model of \<^verbatim>\<open>RecordPageHandler\<close> and its subclasses (\<^verbatim>\<open>storage/record/record_manager.cpp\<close>): fixed-length
  records in the slots of a page, with a bitmap of the occupied slots behind the page header, and
  of the log records these operations write (\<^verbatim>\<open>record_log.cpp\<close>).

  A page is the bytes of its frame; the header at their front is kept decoded in \<open>rp_header\<close>.  The
  results are the layout of a new page (nothing overlaps, nothing leaves the page) and that the
  operations on the bytes implement a map from slots to records.
\<close>

section \<open>Layout\<close>

datatype StorageFormat = UNKNOWN_FORMAT | ROW_FORMAT | PAX_FORMAT

record page_header =
  record_num :: int
  column_num :: int
  record_real_size :: int
  record_size :: int
  record_capacity :: int
  col_idx_offset :: int
  data_offset :: int

definition PAGE_HEADER_SIZE :: int where "PAGE_HEADER_SIZE = 7 * 4"

definition align8 :: "int \<Rightarrow> int" where
  "align8 n = (n + 7) AND NOT 7"

text \<open>
  \<^verbatim>\<open>(int)(x / (record_size + 0.125))\<close> with \<^verbatim>\<open>x\<close> and \<^verbatim>\<open>record_size\<close> of at most a page: the divisor is exact,
  and a quotient that is not an integer is farther from one than a double can be off, so the
  conversion truncates the exact quotient.
\<close>

definition page_record_capacity :: "int \<Rightarrow> int \<Rightarrow> int \<Rightarrow> int" where
  "page_record_capacity page_size rec_size fixed_size =
    (let x = page_size - PAGE_HEADER_SIZE - fixed_size - 1
     in if x \<ge> 0 then 8 * x div (8 * rec_size + 1) else - (8 * (- x) div (8 * rec_size + 1)))"

definition page_bitmap_size :: "int \<Rightarrow> int" where
  "page_bitmap_size capacity = (capacity + 7) div 8"

partial_function (option) fix_capacity_loop :: "int \<Rightarrow> int \<Rightarrow> int \<Rightarrow> int option" where
  "fix_capacity_loop rec_size capacity last_record_offset =
    (if last_record_offset > int BP_PAGE_DATA_SIZE
     then fix_capacity_loop rec_size (capacity - 1) (last_record_offset - rec_size)
     else Some capacity)"

definition fix_record_capacity :: "page_header \<Rightarrow> page_header option" where
  "fix_record_capacity h =
    map_option (\<lambda>capacity. h \<lparr> record_capacity := capacity \<rparr>)
      (fix_capacity_loop (record_size h) (record_capacity h)
        (data_offset h + record_capacity h * record_size h))"

text \<open>The header of a new page for records of \<open>rec_size\<close> bytes and \<open>columns\<close> columns.\<close>

definition empty_header :: "int \<Rightarrow> int \<Rightarrow> page_header option" where
  "empty_header rec_size columns =
    (let capacity = page_record_capacity (int BP_PAGE_DATA_SIZE) (align8 rec_size) (columns * 4);
         idx_offset = align8 (PAGE_HEADER_SIZE + page_bitmap_size capacity)
     in fix_record_capacity
          \<lparr> record_num = 0, column_num = columns, record_real_size = rec_size,
            record_size = align8 rec_size, record_capacity = capacity,
            col_idx_offset = idx_offset, data_offset = idx_offset + columns * 4 \<rparr>)"

section \<open>Pages\<close>

record record_page =
  rp_num :: page_num
  rp_header :: page_header
  rp_bytes :: "byte list"
  rp_lsn :: lsn

definition read_at :: "int \<Rightarrow> int \<Rightarrow> byte list \<Rightarrow> byte list" where
  "read_at offset n bs = take (nat n) (drop (nat offset) bs)"

definition write_at :: "int \<Rightarrow> byte list \<Rightarrow> byte list \<Rightarrow> byte list" where
  "write_at offset new bs = take (nat offset) bs @ new @ drop (nat offset + length new) bs"

text \<open>The bitmap starts behind the header; the bytes of the page go on after it.\<close>

definition slot_bits :: "record_page \<Rightarrow> bitmap" where
  "slot_bits p = bitmap_init (drop (nat PAGE_HEADER_SIZE) (rp_bytes p)) (nat (record_capacity (rp_header p)))"

definition put_slot_bits :: "bitmap \<Rightarrow> record_page \<Rightarrow> record_page" where
  "put_slot_bits bm p = p \<lparr> rp_bytes := take (nat PAGE_HEADER_SIZE) (rp_bytes p) @ bm_bits bm \<rparr>"

definition get_record_data :: "page_header \<Rightarrow> int \<Rightarrow> int" where
  "get_record_data h slot = data_offset h + record_size h * slot"

definition is_full :: "record_page \<Rightarrow> bool" where
  "is_full p \<longleftrightarrow> record_num (rp_header p) \<ge> record_capacity (rp_header p)"

section \<open>Log records\<close>

text \<open>
  The log the handler was opened with: the write-ahead log, or the \<^verbatim>\<open>VacuousLogHandler\<close> that drops
  everything (\<open>None\<close>).  \<open>rl_stack\<close> is what the uninitialised member of the header of a delete record
  happens to contain.
\<close>

record record_logger =
  rl_wal :: "byte list wal option"
  rl_pool :: int
  rl_format :: StorageFormat
  rl_stack :: int

datatype record_operation = INIT_PAGE | INSERT_RECORD | DELETE_RECORD | UPDATE_RECORD

fun operation_id :: "record_operation \<Rightarrow> int" where
  "operation_id INIT_PAGE = 0"
| "operation_id INSERT_RECORD = 1"
| "operation_id DELETE_RECORD = 2"
| "operation_id UPDATE_RECORD = 3"

fun format_id :: "StorageFormat \<Rightarrow> int" where
  "format_id UNKNOWN_FORMAT = 0"
| "format_id ROW_FORMAT = 1"
| "format_id PAX_FORMAT = 2"

definition record_log_header :: "record_logger \<Rightarrow> record_operation \<Rightarrow> page_num \<Rightarrow> int \<Rightarrow> int \<Rightarrow> byte list" where
  "record_log_header lg op p columns slot_or_size =
    le_bytes 4 (rl_pool lg) @ le_bytes 4 (operation_id op) @ le_bytes 4 p @
    le_bytes 4 (format_id (rl_format lg)) @ le_bytes 4 columns @ le_bytes 4 slot_or_size"

definition append_record_log :: "byte list \<Rightarrow> record_page \<times> record_logger \<Rightarrow> record_page \<times> record_logger" where
  "append_record_log payload = (\<lambda>(p, lg).
    case rl_wal lg of
      None \<Rightarrow> (p, lg)
    | Some w \<Rightarrow>
        let (l, w') = wal_append payload w
        in (if l > 0 then p \<lparr> rp_lsn := l \<rparr> else p, lg \<lparr> rl_wal := Some w' \<rparr>))"

definition log_init_new_page :: "byte list \<Rightarrow> record_page \<times> record_logger \<Rightarrow> record_page \<times> record_logger" where
  "log_init_new_page column_index = (\<lambda>(p, lg).
    append_record_log
      (record_log_header lg INIT_PAGE (rp_num p) (int (length column_index) div 4)
         (record_real_size (rp_header p)) @ column_index) (p, lg))"

definition log_insert_record ::
  "int \<Rightarrow> byte list \<Rightarrow> record_page \<times> record_logger \<Rightarrow> record_page \<times> record_logger" where
  "log_insert_record slot data = (\<lambda>(p, lg).
    append_record_log
      (record_log_header lg INSERT_RECORD (rp_num p) 0 slot @
         take (nat (record_real_size (rp_header p))) data) (p, lg))"

definition log_update_record ::
  "int \<Rightarrow> byte list \<Rightarrow> record_page \<times> record_logger \<Rightarrow> record_page \<times> record_logger" where
  "log_update_record slot data = (\<lambda>(p, lg).
    append_record_log
      (record_log_header lg UPDATE_RECORD (rp_num p) 0 slot @
         take (nat (record_real_size (rp_header p))) data) (p, lg))"

definition log_delete_record :: "int \<Rightarrow> record_page \<times> record_logger \<Rightarrow> record_page \<times> record_logger" where
  "log_delete_record slot = (\<lambda>(p, lg).
    append_record_log (record_log_header lg DELETE_RECORD (rp_num p) (rl_stack lg) slot) (p, lg))"

section \<open>Creating a page\<close>

text \<open>The end of each column's area, from the lengths of the fields.\<close>

fun column_ends :: "int \<Rightarrow> int \<Rightarrow> int list \<Rightarrow> int list" where
  "column_ends capacity start [] = []"
| "column_ends capacity start (n # ns) = (n * capacity + start) # column_ends capacity (n * capacity + start) ns"

definition clear_bitmap :: "record_page \<Rightarrow> record_page" where
  "clear_bitmap p = p \<lparr> rp_bytes := write_at PAGE_HEADER_SIZE
     (replicate (nat (page_bitmap_size (record_capacity (rp_header p)))) 0) (rp_bytes p) \<rparr>"

text \<open>
  \<^verbatim>\<open>init_empty_page\<close> for a table (\<open>field_lens\<close> are the field lengths of a PAX table, none for rows), and the
  version used when the log is replayed, which takes the column index from the log record.
\<close>

definition init_empty_page ::
  "int \<Rightarrow> int list \<Rightarrow> record_page \<times> record_logger \<Rightarrow> (RC \<times> record_page \<times> record_logger) option" where
  "init_empty_page rec_size field_lens = (\<lambda>(p, lg).
    let columns = (if rl_format lg = PAX_FORMAT then int (length field_lens) else 0)
    in Option.bind (empty_header rec_size columns) (\<lambda>h.
         let p1 = clear_bitmap (p \<lparr> rp_header := h \<rparr>);
             column_index = concat (map (le_bytes 4) (column_ends (record_capacity h) 0 (take (nat columns) field_lens)));
             p2 = p1 \<lparr> rp_bytes := write_at (col_idx_offset h) column_index (rp_bytes p1) \<rparr>
         in Some (SUCCESS, log_init_new_page column_index (p2, lg))))"

definition recover_init_page :: "int \<Rightarrow> int \<Rightarrow> byte list \<Rightarrow> record_page \<Rightarrow> (RC \<times> record_page) option" where
  "recover_init_page rec_size columns col_idx_data p =
    Option.bind (empty_header rec_size columns) (\<lambda>h.
      let p1 = clear_bitmap (p \<lparr> rp_header := h \<rparr>)
      in Some (SUCCESS, p1 \<lparr> rp_bytes := write_at (col_idx_offset h) (take (nat (columns * 4)) col_idx_data) (rp_bytes p1) \<rparr>))"

section \<open>Rows\<close>

text \<open>
  A result \<open>None\<close> stands for an access outside the bitmap.  The slot of the new record is returned
  beside the code.
\<close>

definition row_insert_record ::
  "byte list \<Rightarrow> record_page \<times> record_logger \<Rightarrow> (RC \<times> int option \<times> record_page \<times> record_logger) option" where
  "row_insert_record data = (\<lambda>(p, lg).
    let h = rp_header p
    in if record_num h = record_capacity h then Some (RECORD_NOMEM, None, p, lg)
       else
         let index = next_unsetted_bit (slot_bits p) 0
         in if index < 0 then None
            else
              let p1 = (put_slot_bits (bitmap_set_bit (slot_bits p) (nat index)) p)
                         \<lparr> rp_header := h \<lparr> record_num := record_num h + 1 \<rparr> \<rparr>;
                  (p2, lg2) = log_insert_record index data (p1, lg);
                  p3 = p2 \<lparr> rp_bytes := write_at (get_record_data h index)
                              (take (nat (record_real_size h)) data) (rp_bytes p2) \<rparr>
              in Some (SUCCESS, Some index, p3, lg2))"

definition row_recover_insert_record :: "byte list \<Rightarrow> nat \<Rightarrow> record_page \<Rightarrow> RC \<times> record_page" where
  "row_recover_insert_record data slot p =
    (let h = rp_header p
     in if int slot \<ge> record_capacity h then (RECORD_INVALID_RID, p)
        else
          let p1 = (if \<not> bitmap_get_bit (slot_bits p) slot
                    then (put_slot_bits (bitmap_set_bit (slot_bits p) slot) p)
                           \<lparr> rp_header := h \<lparr> record_num := record_num h + 1 \<rparr> \<rparr>
                    else p)
          in (SUCCESS, p1 \<lparr> rp_bytes := write_at (get_record_data h (int slot))
                 (take (nat (record_real_size h)) data) (rp_bytes p1) \<rparr>))"

definition row_delete_record ::
  "nat \<Rightarrow> record_page \<times> record_logger \<Rightarrow> RC \<times> record_page \<times> record_logger" where
  "row_delete_record slot = (\<lambda>(p, lg).
    let h = rp_header p
    in if bitmap_get_bit (slot_bits p) slot then
         (SUCCESS, log_delete_record (int slot)
            ((put_slot_bits (bitmap_clear_bit (slot_bits p) slot) p)
               \<lparr> rp_header := h \<lparr> record_num := record_num h - 1 \<rparr> \<rparr>, lg))
       else (RECORD_NOT_EXIST, p, lg))"

definition row_update_record ::
  "nat \<Rightarrow> byte list \<Rightarrow> record_page \<times> record_logger \<Rightarrow> RC \<times> record_page \<times> record_logger" where
  "row_update_record slot data = (\<lambda>(p, lg).
    let h = rp_header p
    in if int slot \<ge> record_capacity h then (INVALID_ARGUMENT, p, lg)
       else if bitmap_get_bit (slot_bits p) slot then
         (SUCCESS, log_update_record (int slot) data
            (p \<lparr> rp_bytes := write_at (get_record_data h (int slot))
                   (take (nat (record_real_size h)) data) (rp_bytes p) \<rparr>, lg))
       else (RECORD_NOT_EXIST, p, lg))"

definition row_get_record :: "nat \<Rightarrow> record_page \<Rightarrow> RC \<times> byte list option" where
  "row_get_record slot p =
    (let h = rp_header p
     in if int slot \<ge> record_capacity h then (RECORD_INVALID_RID, None)
        else if \<not> bitmap_get_bit (slot_bits p) slot then (RECORD_NOT_EXIST, None)
        else (SUCCESS, Some (read_at (get_record_data h (int slot)) (record_real_size h) (rp_bytes p))))"

section \<open>PAX pages\<close>

text \<open>
  The columns of a page one after the other.  Inserting, reading and updating are not implemented
  in the source; deletion is the same as for rows.
\<close>

definition pax_insert_record ::
  "byte list \<Rightarrow> record_page \<times> record_logger \<Rightarrow> (RC \<times> int option \<times> record_page \<times> record_logger) option" where
  "pax_insert_record data = (\<lambda>(p, lg). Some (UNIMPLEMENTED, None, p, lg))"

definition pax_update_record ::
  "nat \<Rightarrow> byte list \<Rightarrow> record_page \<times> record_logger \<Rightarrow> RC \<times> record_page \<times> record_logger" where
  "pax_update_record slot data = (\<lambda>(p, lg). (UNIMPLEMENTED, p, lg))"

definition pax_delete_record ::
  "nat \<Rightarrow> record_page \<times> record_logger \<Rightarrow> RC \<times> record_page \<times> record_logger" where
  "pax_delete_record slot = (\<lambda>(p, lg).
    let h = rp_header p
    in if bitmap_get_bit (slot_bits p) slot then
         (SUCCESS, log_delete_record (int slot)
            ((put_slot_bits (bitmap_clear_bit (slot_bits p) slot) p)
               \<lparr> rp_header := h \<lparr> record_num := record_num h - 1 \<rparr> \<rparr>, lg))
       else (RECORD_NOT_EXIST, p, lg))"

definition column_index_at :: "record_page \<Rightarrow> nat \<Rightarrow> int" where
  "column_index_at p i =
    signed_take_bit 31 (le_value (read_at (col_idx_offset (rp_header p) + 4 * int i) 4 (rp_bytes p)))"

definition get_field_len :: "record_page \<Rightarrow> nat \<Rightarrow> int" where
  "get_field_len p col_id =
    (if col_id = 0 then column_index_at p col_id div record_capacity (rp_header p)
     else (column_index_at p col_id - column_index_at p (col_id - 1)) div record_capacity (rp_header p))"

definition get_field_data :: "record_page \<Rightarrow> nat \<Rightarrow> nat \<Rightarrow> int" where
  "get_field_data p slot col_id =
    (if col_id = 0 then data_offset (rp_header p) + get_field_len p col_id * int slot
     else data_offset (rp_header p) + column_index_at p (col_id - 1) + get_field_len p col_id * int slot)"

section \<open>The layout of a new page\<close>

lemma align8_eq: "align8 n = 8 * ((n + 7) div 8)"
proof -
  have "(n + 7) AND NOT (mask 3) = push_bit 3 (drop_bit 3 (n + 7))"
    by (rule bit_eqI) (auto simp: bit_simps)
  then show ?thesis
    by (simp add: align8_def mask_eq_exp_minus_1 push_bit_eq_mult drop_bit_eq_div)
qed

lemma align8_bounds: "n \<le> align8 n" "align8 n < n + 8"
  unfolding align8_eq by presburger+

lemma page_bitmap_size_bytes: "0 \<le> n \<Longrightarrow> nat (page_bitmap_size n) = bytes (nat n)"
proof -
  assume "0 \<le> n"
  then obtain m where n: "n = int m" by (metis nonneg_int_cases)
  have "(m + 7) div 8 = bytes m" using bytes_bound [of m] by (intro div_nat_eqI) auto
  then show ?thesis by (simp add: n page_bitmap_size_def nat_div_distrib nat_add_distrib)
qed

lemma page_bitmap_size_bounds: "n \<le> 8 * page_bitmap_size n" "8 * page_bitmap_size n < n + 8"
  unfolding page_bitmap_size_def by presburger+

lemma page_bitmap_size_mono: "m \<le> n \<Longrightarrow> page_bitmap_size m \<le> page_bitmap_size n"
  by (simp add: page_bitmap_size_def zdiv_mono1)

text \<open>The correction of the capacity ends at the largest capacity that fits.\<close>

lemma fix_capacity_loop_ends:
  assumes "0 < rec_size" "last_offset = start + capacity * rec_size"
  shows "\<exists>c. fix_capacity_loop rec_size capacity last_offset = Some c \<and> c \<le> capacity \<and>
    start + c * rec_size \<le> int BP_PAGE_DATA_SIZE \<and>
    (c = capacity \<or> start + (c + 1) * rec_size > int BP_PAGE_DATA_SIZE)"
  using assms(2)
proof (induction "nat (last_offset - int BP_PAGE_DATA_SIZE)" arbitrary: capacity last_offset rule: less_induct)
  case less
  show ?case
  proof (cases "last_offset > int BP_PAGE_DATA_SIZE")
    case True
    have "last_offset - rec_size = start + (capacity - 1) * rec_size" using less.prems by (simp add: algebra_simps)
    from less.hyps [OF _ this] True assms(1) obtain c where
      "fix_capacity_loop rec_size (capacity - 1) (last_offset - rec_size) = Some c" "c \<le> capacity - 1"
      "start + c * rec_size \<le> int BP_PAGE_DATA_SIZE"
      "c = capacity - 1 \<or> start + (c + 1) * rec_size > int BP_PAGE_DATA_SIZE" by auto
    with True less.prems show ?thesis by (subst fix_capacity_loop.simps) auto
  next
    case False
    with less.prems show ?thesis by (subst fix_capacity_loop.simps) auto
  qed
qed

definition layout_ok :: "page_header \<Rightarrow> bool" where
  "layout_ok h \<longleftrightarrow>
     0 \<le> record_capacity h \<and> 0 \<le> column_num h \<and> 0 \<le> record_real_size h \<and> record_real_size h \<le> record_size h \<and>
     PAGE_HEADER_SIZE + page_bitmap_size (record_capacity h) \<le> col_idx_offset h \<and>
     col_idx_offset h + 4 * column_num h \<le> data_offset h \<and>
     data_offset h + record_capacity h * record_size h \<le> int BP_PAGE_DATA_SIZE"

lemma page_size_value [simp]: "int BP_PAGE_DATA_SIZE = 8180"
  by (simp add: BP_PAGE_DATA_SIZE_def BP_PAGE_SIZE_def)

lemma page_record_capacity_bound:
  assumes "0 < rec_size" "0 \<le> 8151 - fixed_size"
  shows "8 * (page_record_capacity 8180 rec_size fixed_size * rec_size) +
    page_record_capacity 8180 rec_size fixed_size \<le> 8 * (8151 - fixed_size)"
    "8 * rec_size < 8 * (8151 - fixed_size) \<Longrightarrow> 0 < page_record_capacity 8180 rec_size fixed_size"
proof -
  let ?x = "8 * (8151 - fixed_size)" and ?m = "8 * rec_size + 1"
  have cap: "page_record_capacity 8180 rec_size fixed_size = ?x div ?m"
    using assms(2) by (simp add: page_record_capacity_def PAGE_HEADER_SIZE_def Let_def)
  have "?x div ?m * ?m \<le> ?x" using assms(1) pos_mod_sign [of ?m ?x] by (simp add: minus_mod_eq_div_mult [symmetric])
  then show "8 * (page_record_capacity 8180 rec_size fixed_size * rec_size) +
      page_record_capacity 8180 rec_size fixed_size \<le> ?x"
    unfolding cap by (simp add: algebra_simps)
  show "8 * rec_size < ?x \<Longrightarrow> 0 < page_record_capacity 8180 rec_size fixed_size"
    unfolding cap using assms(1) by (subst pos_imp_zdiv_pos_iff) auto
qed

lemma empty_header_layout:
  assumes "0 < rec_size" "rec_size \<le> 4000" "0 \<le> columns" "columns \<le> 900"
  shows "\<exists>h. empty_header rec_size columns = Some h \<and> layout_ok h \<and> 0 < record_capacity h \<and>
    record_num h = 0 \<and> record_real_size h = rec_size \<and> column_num h = columns"
proof -
  define sz where "sz = align8 rec_size"
  define cap where "cap = page_record_capacity 8180 sz (columns * 4)"
  define idx where "idx = align8 (PAGE_HEADER_SIZE + page_bitmap_size cap)"
  have sz: "rec_size \<le> sz" "sz \<le> 4007" "8 \<le> sz"
    using align8_bounds [of rec_size] assms by (auto simp: sz_def align8_eq)
  have cap_le: "8 * (cap * sz) + cap \<le> 65208 - columns * 32" and cap_pos: "0 < cap"
    using page_record_capacity_bound [of sz "columns * 4"] sz assms unfolding cap_def by auto
  have "cap * 8 \<le> cap * sz" using cap_pos sz(3) by (intro mult_left_mono) auto
  then have "cap * 64 \<le> 8 * (cap * sz)" by linarith
  then have cap_small: "65 * cap \<le> 65208" using cap_le assms(3) by linarith
  have idx: "idx \<le> 35 + page_bitmap_size cap" "PAGE_HEADER_SIZE + page_bitmap_size cap \<le> idx"
    using align8_bounds [of "PAGE_HEADER_SIZE + page_bitmap_size cap"] by (auto simp: idx_def PAGE_HEADER_SIZE_def)
  from fix_capacity_loop_ends [of sz _ "idx + columns * 4" cap] sz(3) obtain c where
    c: "fix_capacity_loop sz cap (idx + columns * 4 + cap * sz) = Some c" "c \<le> cap"
    "idx + columns * 4 + c * sz \<le> 8180" "c = cap \<or> idx + columns * 4 + (c + 1) * sz > 8180" by auto
  have c_pos: "0 < c"
  proof (rule ccontr)
    assume "\<not> 0 < c"
    with cap_pos c(4) have "idx + columns * 4 + (c + 1) * sz > 8180" by auto
    moreover have "(c + 1) * sz \<le> 1 * sz" using \<open>\<not> 0 < c\<close> sz(3) by (intro mult_right_mono) auto
    ultimately show False
      using idx(1) page_bitmap_size_bounds(2) [of cap] cap_small sz(2) assms(4) by linarith
  qed
  let ?h = "\<lparr> record_num = 0, column_num = columns, record_real_size = rec_size, record_size = sz,
    record_capacity = c, col_idx_offset = idx, data_offset = idx + columns * 4 \<rparr>"
  have "empty_header rec_size columns = Some ?h"
    using c(1) by (simp add: empty_header_def fix_record_capacity_def Let_def sz_def cap_def idx_def)
  moreover have "layout_ok ?h"
    using c_pos c(3) assms sz idx(2) page_bitmap_size_mono [OF c(2)] by (simp add: layout_ok_def)
  ultimately show ?thesis using c_pos by auto
qed

section \<open>Pages as maps from slots to records\<close>

definition page_wf :: "record_page \<Rightarrow> bool" where
  "page_wf p \<longleftrightarrow> layout_ok (rp_header p) \<and> length (rp_bytes p) = BP_PAGE_DATA_SIZE \<and>
     record_num (rp_header p) = int (slots.used (slot_bits p))"

definition slot_map :: "record_page \<Rightarrow> nat \<Rightarrow> byte list option" where
  "slot_map p i =
    (if i < nat (record_capacity (rp_header p)) \<and> bitmap_get_bit (slot_bits p) i
     then Some (read_at (get_record_data (rp_header p) (int i)) (record_real_size (rp_header p)) (rp_bytes p))
     else None)"

lemma length_write_at [simp]:
  "nat offset + length new \<le> length bs \<Longrightarrow> length (write_at offset new bs) = length bs"
  by (simp add: write_at_def)

lemma nth_write_at:
  assumes "nat offset + length new \<le> length bs" "i < length bs"
  shows "write_at offset new bs ! i =
    (if nat offset \<le> i \<and> i < nat offset + length new then new ! (i - nat offset) else bs ! i)"
  using assms by (auto simp: write_at_def nth_append)

lemma read_write_same:
  "nat offset + length new \<le> length bs \<Longrightarrow> length new = nat n \<Longrightarrow> read_at offset n (write_at offset new bs) = new"
  by (simp add: read_at_def write_at_def)

lemma read_at_cong:
  assumes "length bs = length bs'" "\<And>i. nat offset \<le> i \<Longrightarrow> i < nat offset + nat n \<Longrightarrow> i < length bs \<Longrightarrow> bs ! i = bs' ! i"
  shows "read_at offset n bs = read_at offset n bs'"
  using assms by (intro nth_equalityI) (auto simp: read_at_def)

text \<open>Where the slots lie, from the layout.\<close>

lemma slot_offset:
  assumes "layout_ok h" "i < nat (record_capacity h)"
  shows "nat (get_record_data h (int i)) + nat (record_real_size h) \<le> BP_PAGE_DATA_SIZE"
    "nat PAGE_HEADER_SIZE + bytes (nat (record_capacity h)) \<le> nat (get_record_data h (int i))"
    "i < j \<Longrightarrow> nat (get_record_data h (int i)) + nat (record_real_size h) \<le> nat (get_record_data h (int j))"
proof -
  from assms(1) have l: "0 \<le> record_capacity h" "0 \<le> column_num h" "0 \<le> record_real_size h"
    "PAGE_HEADER_SIZE + page_bitmap_size (record_capacity h) \<le> col_idx_offset h"
    "col_idx_offset h + 4 * column_num h \<le> data_offset h"
    "data_offset h + record_capacity h * record_size h \<le> 8180"
    and sz: "0 \<le> record_size h" "record_real_size h \<le> record_size h" by (auto simp: layout_ok_def)
  have step: "get_record_data h (int i) + record_real_size h \<le> get_record_data h (int k)" if "i < k" for k
  proof -
    have "record_size h * (int i + 1) \<le> record_size h * int k" using that sz(1) by (intro mult_left_mono) auto
    then show ?thesis using sz(2) by (simp add: get_record_data_def algebra_simps)
  qed
  have base: "PAGE_HEADER_SIZE + page_bitmap_size (record_capacity h) \<le> get_record_data h (int i)"
  proof -
    have "0 \<le> record_size h * int i" using sz(1) by simp
    then show ?thesis using l(2,4,5) unfolding get_record_data_def by linarith
  qed
  have nonneg: "0 \<le> get_record_data h (int k)" "0 \<le> page_bitmap_size (record_capacity h)" for k
  proof -
    show bm: "0 \<le> page_bitmap_size (record_capacity h)" using l(1) by (simp add: page_bitmap_size_def)
    have "0 \<le> record_size h * int k" using sz(1) by simp
    then show "0 \<le> get_record_data h (int k)"
      using l(2,4,5) bm unfolding get_record_data_def PAGE_HEADER_SIZE_def by linarith
  qed
  have "get_record_data h (int (nat (record_capacity h))) \<le> 8180" using l by (simp add: get_record_data_def mult.commute)
  with step [OF assms(2)] have "get_record_data h (int i) + record_real_size h \<le> int BP_PAGE_DATA_SIZE" by simp
  then show "nat (get_record_data h (int i)) + nat (record_real_size h) \<le> BP_PAGE_DATA_SIZE"
    using nonneg(1) l by (simp only: nat_add_distrib [symmetric] nat_le_iff)
  show "nat PAGE_HEADER_SIZE + bytes (nat (record_capacity h)) \<le> nat (get_record_data h (int i))"
    using base l nonneg(2) page_bitmap_size_bytes [of "record_capacity h"]
    by (simp add: nat_add_distrib [symmetric] PAGE_HEADER_SIZE_def)
  show "i < j \<Longrightarrow> nat (get_record_data h (int i)) + nat (record_real_size h) \<le> nat (get_record_data h (int j))"
    using step [of j] nonneg(1) l by (simp add: nat_add_distrib [symmetric])
qed

lemma slot_bits_simps [simp]:
  "slot_bits (p \<lparr> rp_lsn := l \<rparr>) = slot_bits p"
  "record_capacity h' = record_capacity (rp_header p) \<Longrightarrow> slot_bits (p \<lparr> rp_header := h' \<rparr>) = slot_bits p"
  "bm_size (slot_bits p) = nat (record_capacity (rp_header p))"
  by (simp_all add: slot_bits_def bitmap_init_def)

lemma slot_bits_put:
  assumes "nat PAGE_HEADER_SIZE \<le> length (rp_bytes p)" "bm_size bm = nat (record_capacity (rp_header p))"
  shows "slot_bits (put_slot_bits bm p) = bm"
  using assms by (cases bm) (simp add: slot_bits_def put_slot_bits_def bitmap_init_def)

lemma put_slot_bits_simps [simp]:
  "rp_header (put_slot_bits bm p) = rp_header p" "rp_num (put_slot_bits bm p) = rp_num p"
  "rp_lsn (put_slot_bits bm p) = rp_lsn p"
  by (simp_all add: put_slot_bits_def)

lemma bitmap_wf_page: "page_wf p \<Longrightarrow> bitmap_wf (slot_bits p)"
proof -
  assume wf: "page_wf p"
  then have l: "layout_ok (rp_header p)" "length (rp_bytes p) = BP_PAGE_DATA_SIZE" by (simp_all add: page_wf_def)
  have "nat PAGE_HEADER_SIZE + bytes (nat (record_capacity (rp_header p))) \<le> BP_PAGE_DATA_SIZE"
  proof (cases "nat (record_capacity (rp_header p)) = 0")
    case True
    then show ?thesis by (simp add: bytes_def PAGE_HEADER_SIZE_def BP_PAGE_DATA_SIZE_def BP_PAGE_SIZE_def)
  next
    case False
    then show ?thesis using slot_offset(1,2) [OF l(1), of 0] by simp
  qed
  with l(2) show ?thesis by (simp add: bitmap_wf_def slot_bits_def bitmap_init_def)
qed

text \<open>Writing a record leaves the bitmap and the other records alone.\<close>

lemma write_slot:
  assumes wf: "page_wf p" and i: "i < nat (record_capacity (rp_header p))"
    and data: "length data = nat (record_real_size (rp_header p))"
  defines "q \<equiv> p \<lparr> rp_bytes := write_at (get_record_data (rp_header p) (int i)) data (rp_bytes p) \<rparr>"
  shows "j < nat (record_capacity (rp_header p)) \<Longrightarrow> bitmap_get_bit (slot_bits q) j = bitmap_get_bit (slot_bits p) j"
    "slots.used (slot_bits q) = slots.used (slot_bits p)" "page_wf q"
    "slot_map q = (\<lambda>j. if j = i \<and> bitmap_get_bit (slot_bits p) i then Some data else slot_map p j)"
proof -
  let ?h = "rp_header p"
  have l: "layout_ok ?h" "length (rp_bytes p) = BP_PAGE_DATA_SIZE" using wf by (simp_all add: page_wf_def)
  note off = slot_offset [OF l(1) i]
  have fits: "nat (get_record_data ?h (int i)) + length data \<le> length (rp_bytes p)" using off(1) data l(2) by simp
  have bits: "bitmap_get_bit (slot_bits q) j = bitmap_get_bit (slot_bits p) j"
    if "j < nat (record_capacity ?h)" for j
  proof -
    have "j div 8 < bytes (nat (record_capacity ?h))" by (rule index_in_bytes [OF that])
    then have "nat PAGE_HEADER_SIZE + j div 8 < nat (get_record_data ?h (int i))" using off(2) by linarith
    then show ?thesis using nth_write_at [OF fits, of "nat PAGE_HEADER_SIZE + j div 8"] fits
      by (simp add: get_bit_iff slot_bits_def bitmap_init_def q_def)
  qed
  then show "j < nat (record_capacity ?h) \<Longrightarrow> bitmap_get_bit (slot_bits q) j = bitmap_get_bit (slot_bits p) j" .
  have hdr: "rp_header q = ?h" by (simp add: q_def)
  show used: "slots.used (slot_bits q) = slots.used (slot_bits p)"
    unfolding slots.used_def slot_bits_simps(3) hdr by (rule arg_cong [where f = card]) (use bits in auto)
  show "page_wf q" using wf used fits by (simp add: page_wf_def q_def)
  have same: "read_at (get_record_data ?h (int j)) (record_real_size ?h) (rp_bytes q) =
      read_at (get_record_data ?h (int j)) (record_real_size ?h) (rp_bytes p)"
    if "j \<noteq> i" "j < nat (record_capacity ?h)" for j
  proof (rule read_at_cong)
    fix k assume k: "nat (get_record_data ?h (int j)) \<le> k"
      "k < nat (get_record_data ?h (int j)) + nat (record_real_size ?h)" "k < length (rp_bytes q)"
    have "k < nat (get_record_data ?h (int i)) \<or> nat (get_record_data ?h (int i)) + length data \<le> k"
      using that(1) k off(3) [of j] slot_offset(3) [OF l(1) that(2), of i] data by linarith
    then show "rp_bytes q ! k = rp_bytes p ! k"
      using nth_write_at [OF fits, of k] k(3) fits by (auto simp: q_def)
  qed (use fits in \<open>simp add: q_def\<close>)
  have "read_at (get_record_data ?h (int i)) (record_real_size ?h) (rp_bytes q) = data"
    unfolding q_def using read_write_same [OF fits data] by simp
  then show "slot_map q = (\<lambda>j. if j = i \<and> bitmap_get_bit (slot_bits p) i then Some data else slot_map p j)"
    using bits same i by (intro ext, case_tac "j = i") (auto simp: slot_map_def hdr)
qed

text \<open>Changing the bit of a slot leaves the records alone.\<close>

lemma put_bit_slot:
  assumes wf: "page_wf p" and i: "i < nat (record_capacity (rp_header p))"
    and bm: "bm \<in> {bitmap_set_bit (slot_bits p) i, bitmap_clear_bit (slot_bits p) i}"
  shows "slot_bits (put_slot_bits bm p) = bm" "length (rp_bytes (put_slot_bits bm p)) = BP_PAGE_DATA_SIZE"
    "j < nat (record_capacity (rp_header p)) \<Longrightarrow>
     read_at (get_record_data (rp_header p) (int j)) (record_real_size (rp_header p)) (rp_bytes (put_slot_bits bm p)) =
     read_at (get_record_data (rp_header p) (int j)) (record_real_size (rp_header p)) (rp_bytes p)"
proof -
  let ?h = "rp_header p"
  have l: "layout_ok ?h" "length (rp_bytes p) = BP_PAGE_DATA_SIZE" using wf by (simp_all add: page_wf_def)
  have hdr: "nat PAGE_HEADER_SIZE \<le> length (rp_bytes p)"
    using l(2) by (simp add: PAGE_HEADER_SIZE_def BP_PAGE_DATA_SIZE_def BP_PAGE_SIZE_def)
  show "slot_bits (put_slot_bits bm p) = bm" using slot_bits_put [OF hdr, of bm] bm by auto
  have len: "length (bm_bits bm) = length (rp_bytes p) - nat PAGE_HEADER_SIZE"
    using bm by (auto simp: slot_bits_def bitmap_init_def)
  then show length': "length (rp_bytes (put_slot_bits bm p)) = BP_PAGE_DATA_SIZE"
    using hdr l(2) by (simp add: put_slot_bits_def)
  assume j: "j < nat (record_capacity ?h)"
  show "read_at (get_record_data ?h (int j)) (record_real_size ?h) (rp_bytes (put_slot_bits bm p)) =
     read_at (get_record_data ?h (int j)) (record_real_size ?h) (rp_bytes p)"
  proof (rule read_at_cong)
    fix k assume k: "nat (get_record_data ?h (int j)) \<le> k" "k < length (rp_bytes (put_slot_bits bm p))"
    have "nat PAGE_HEADER_SIZE + i div 8 < k"
      using k(1) slot_offset(2) [OF l(1) j] index_in_bytes [OF i] by linarith
    then show "rp_bytes (put_slot_bits bm p) ! k = rp_bytes p ! k"
      using bm hdr k(2) l(2) length' by (auto simp: put_slot_bits_def nth_append bitmap_set_bit_def bitmap_clear_bit_def
          slot_bits_def bitmap_init_def nth_list_update)
  qed (simp add: length' l(2))
qed

lemma free_slot:
  assumes "page_wf p" "record_num (rp_header p) \<noteq> record_capacity (rp_header p)"
  obtains i where "next_unsetted_bit (slot_bits p) 0 = int i" "i < nat (record_capacity (rp_header p))"
    "\<not> bitmap_get_bit (slot_bits p) i" "\<And>j. j < i \<Longrightarrow> bitmap_get_bit (slot_bits p) j"
proof -
  have "slots.used (slot_bits p) \<noteq> bm_size (slot_bits p)"
    using assms by (auto simp: page_wf_def layout_ok_def)
  then obtain j where j: "j < bm_size (slot_bits p)" "\<not> bitmap_get_bit (slot_bits p) j"
    using slots.used_full by blast
  then obtain i where i: "List.find (\<lambda>i. \<not> bitmap_get_bit (slot_bits p) i) [0..<bm_size (slot_bits p)] = Some i"
    by (cases "List.find (\<lambda>i. \<not> bitmap_get_bit (slot_bits p) i) [0..<bm_size (slot_bits p)]")
      (auto dest: find_upt_NoneD)
  from find_upt_SomeD [OF i] i that [of i] show thesis
    by (simp add: next_unsetted_find)
qed

lemma append_record_log_page [simp]:
  "rp_bytes (fst (append_record_log x (p, lg))) = rp_bytes p"
  "rp_header (fst (append_record_log x (p, lg))) = rp_header p"
  "rp_num (fst (append_record_log x (p, lg))) = rp_num p"
  "slot_bits (fst (append_record_log x (p, lg))) = slot_bits p"
  by (simp_all add: append_record_log_def Let_def split: option.split prod.split)

lemma page_view_cong:
  assumes "rp_header q = rp_header p" "rp_bytes q = rp_bytes p"
  shows "slot_map q = slot_map p" "page_wf q = page_wf p"
proof -
  have "slot_bits q = slot_bits p" using assms by (simp add: slot_bits_def)
  with assms show "slot_map q = slot_map p" "page_wf q = page_wf p"
    by (simp_all add: slot_map_def page_wf_def fun_eq_iff)
qed

lemma logged_page [simp]:
  "slot_map (fst (append_record_log x (p, lg))) = slot_map p"
  "page_wf (fst (append_record_log x (p, lg))) = page_wf p"
  by (rule page_view_cong; simp)+

lemma append_record_log_eq:
  "append_record_log x (p, lg) = (q, lg') \<Longrightarrow>
   rp_header q = rp_header p \<and> rp_bytes q = rp_bytes p \<and> rp_num q = rp_num p"
  using append_record_log_page [of x p lg] by simp

lemma append_record_log_view:
  "append_record_log x (p, lg) = (q, lg') \<Longrightarrow> slot_map q = slot_map p \<and> page_wf q = page_wf p"
  using logged_page [of x p lg] by simp

lemmas record_logs = log_insert_record_def log_update_record_def log_delete_record_def log_init_new_page_def

text \<open>A slot is occupied and written, or released.\<close>

lemma occupy_slot:
  assumes wf: "page_wf p" and i: "i < nat (record_capacity (rp_header p))" "\<not> bitmap_get_bit (slot_bits p) i"
  defines "q \<equiv> (put_slot_bits (bitmap_set_bit (slot_bits p) i) p)
    \<lparr> rp_header := (rp_header p) \<lparr> record_num := record_num (rp_header p) + 1 \<rparr> \<rparr>"
  shows "page_wf q" "bitmap_get_bit (slot_bits q) i" "j \<noteq> i \<Longrightarrow> slot_map q j = slot_map p j"
proof -
  note pb = put_bit_slot [OF wf i(1), of "bitmap_set_bit (slot_bits p) i"]
  have q: "slot_bits q = bitmap_set_bit (slot_bits p) i" using pb(1) by (simp add: q_def)
  have bw: "bitmap_wf (slot_bits p)" by (rule bitmap_wf_page [OF wf])
  show "page_wf q"
    using wf pb(2) slots.used_put [OF bw _ i(2)] i(1) unfolding page_wf_def q by (simp add: q_def layout_ok_def)
  show "bitmap_get_bit (slot_bits q) i" using slots.get_put [OF bw] i(1) unfolding q by simp
  show "j \<noteq> i \<Longrightarrow> slot_map q j = slot_map p j"
    using slots.get_put [OF bw, of i j] i(1) pb(3) [of j] unfolding slot_map_def q
    by (simp add: q_def get_record_data_def)
qed

lemma release_slot:
  assumes wf: "page_wf p" and i: "i < nat (record_capacity (rp_header p))" "bitmap_get_bit (slot_bits p) i"
  defines "q \<equiv> (put_slot_bits (bitmap_clear_bit (slot_bits p) i) p)
    \<lparr> rp_header := (rp_header p) \<lparr> record_num := record_num (rp_header p) - 1 \<rparr> \<rparr>"
  shows "page_wf q" "slot_map q = (slot_map p)(i := None)"
proof -
  note pb = put_bit_slot [OF wf i(1), of "bitmap_clear_bit (slot_bits p) i"]
  have q: "slot_bits q = bitmap_clear_bit (slot_bits p) i" using pb(1) by (simp add: q_def)
  have bw: "bitmap_wf (slot_bits p)" by (rule bitmap_wf_page [OF wf])
  show "page_wf q"
    using wf pb(2) slots.used_del [OF bw _ i(2)] i(1) unfolding page_wf_def q by (simp add: q_def layout_ok_def)
  show "slot_map q = (slot_map p)(i := None)"
    using slots.get_del [OF bw, of i] i(1) pb(3) unfolding slot_map_def q
    by (auto simp: q_def get_record_data_def fun_eq_iff)
qed

lemma insert_into_slot:
  assumes wf: "page_wf p" and len: "length data = nat (record_real_size (rp_header p))"
    and room: "record_num (rp_header p) \<noteq> record_capacity (rp_header p)"
  obtains i p' lg' where "row_insert_record data (p, lg) = Some (SUCCESS, Some (int i), p', lg')"
    "i < nat (record_capacity (rp_header p))" "slot_map p i = None" "\<And>j. j < i \<Longrightarrow> slot_map p j \<noteq> None"
    "page_wf p'" "slot_map p' = (slot_map p)(i \<mapsto> data)" "rp_num p' = rp_num p"
    "record_real_size (rp_header p') = record_real_size (rp_header p)"
    "record_capacity (rp_header p') = record_capacity (rp_header p)"
proof -
  from free_slot [OF wf room] obtain i where i: "next_unsetted_bit (slot_bits p) 0 = int i"
    "i < nat (record_capacity (rp_header p))" "\<not> bitmap_get_bit (slot_bits p) i"
    "\<And>j. j < i \<Longrightarrow> bitmap_get_bit (slot_bits p) j" by blast
  let ?q = "(put_slot_bits (bitmap_set_bit (slot_bits p) i) p)
    \<lparr> rp_header := (rp_header p) \<lparr> record_num := record_num (rp_header p) + 1 \<rparr> \<rparr>"
  note oc = occupy_slot [OF wf i(2,3)]
  obtain q lg' where q': "log_insert_record (int i) data (?q, lg) = (q, lg')" by fastforce
  then have q: "rp_header q = rp_header ?q" "rp_bytes q = rp_bytes ?q" "rp_num q = rp_num p"
    using append_record_log_eq unfolding record_logs by fastforce+
  have bits: "slot_bits q = slot_bits ?q" using q(1,2) by (simp add: slot_bits_def)
  note view = page_view_cong [OF q(1,2)]
  let ?p' = "q \<lparr> rp_bytes := write_at (get_record_data (rp_header q) (int i)) data (rp_bytes q) \<rparr>"
  have wq: "page_wf q" using oc(1) view(2) by simp
  have cap: "record_capacity (rp_header q) = record_capacity (rp_header p)"
    "record_real_size (rp_header q) = record_real_size (rp_header p)" using q(1) by simp_all
  note ws = write_slot [OF wq, of i data, unfolded cap, OF i(2) len]
  have "slot_map ?p' = (slot_map p)(i \<mapsto> data)"
    using ws(4) oc(2,3) bits view(1) by (auto simp: fun_eq_iff)
  moreover have "row_insert_record data (p, lg) = Some (SUCCESS, Some (int i), ?p', lg')"
    using i(1) room q' q(1) len by (simp add: row_insert_record_def Let_def get_record_data_def)
  moreover have "slot_map p i = None" "\<And>j. j < i \<Longrightarrow> slot_map p j \<noteq> None"
    using i by (auto simp: slot_map_def)
  ultimately show thesis using that [of i ?p' lg'] i(2) ws(3) q cap by simp
qed

lemma page_full_iff:
  "page_wf p \<Longrightarrow> (\<exists>i < nat (record_capacity (rp_header p)). slot_map p i = None) \<longleftrightarrow>
     record_num (rp_header p) \<noteq> record_capacity (rp_header p)"
  using slots.used_full [of "slot_bits p"] by (auto simp: page_wf_def layout_ok_def slot_map_def)

lemma delete_slot:
  assumes wf: "page_wf p" and i: "i < nat (record_capacity (rp_header p))"
  shows "case row_delete_record i (p, lg) of (rc, p', lg') \<Rightarrow>
    page_wf p' \<and> slot_map p' = (slot_map p)(i := None) \<and>
    rc = (if slot_map p i = None then RECORD_NOT_EXIST else SUCCESS)"
proof (cases "bitmap_get_bit (slot_bits p) i")
  case True
  note r = release_slot [OF wf i True]
  have "slot_map p i \<noteq> None" using True i by (simp add: slot_map_def)
  with True r show ?thesis
    by (auto simp: row_delete_record_def Let_def record_logs split: prod.split dest!: append_record_log_view)
next
  case False
  then have "slot_map p i = None" by (simp add: slot_map_def)
  with False wf show ?thesis by (simp add: row_delete_record_def fun_upd_idem)
qed

lemma update_slot:
  assumes wf: "page_wf p" and len: "length data = nat (record_real_size (rp_header p))"
  shows "case row_update_record i data (p, lg) of (rc, p', lg') \<Rightarrow>
    page_wf p' \<and>
    (if i \<ge> nat (record_capacity (rp_header p)) then rc = INVALID_ARGUMENT \<and> p' = p
     else if slot_map p i = None then rc = RECORD_NOT_EXIST \<and> p' = p
     else rc = SUCCESS \<and> slot_map p' = (slot_map p)(i \<mapsto> data))"
proof (cases "i < nat (record_capacity (rp_header p)) \<and> bitmap_get_bit (slot_bits p) i")
  case True
  note w = write_slot(3,4) [OF wf _ len, of i]
  have "slot_map p i \<noteq> None" using True by (simp add: slot_map_def)
  moreover have "(\<lambda>j. if j = i \<and> bitmap_get_bit (slot_bits p) i then Some data else slot_map p j) =
      (slot_map p)(i \<mapsto> data)" using True by auto
  ultimately show ?thesis using True w len
    by (auto simp: row_update_record_def Let_def record_logs split: prod.split dest!: append_record_log_view)
next
  case False
  with wf show ?thesis
    by (auto simp: row_update_record_def Let_def slot_map_def nat_le_iff)
qed

lemma get_slot:
  "row_get_record i p =
    (if i \<ge> nat (record_capacity (rp_header p)) then (RECORD_INVALID_RID, None)
     else case slot_map p i of None \<Rightarrow> (RECORD_NOT_EXIST, None) | Some data \<Rightarrow> (SUCCESS, Some data))"
  by (auto simp: row_get_record_def slot_map_def Let_def nat_le_iff)

lemma length_column_ends [simp]: "length (column_ends capacity start ns) = length ns"
  by (induction ns arbitrary: start) simp_all

lemma length_concat_le [simp]: "length (concat (map (le_bytes 4) xs)) = 4 * length xs"
  by (induction xs) simp_all

lemma new_page_empty:
  assumes len: "length (rp_bytes p) = BP_PAGE_DATA_SIZE" and h: "layout_ok h" "record_num h = 0"
    and ci: "length ci = nat (4 * column_num h)"
  defines "p1 \<equiv> clear_bitmap (p \<lparr> rp_header := h \<rparr>)"
  defines "q \<equiv> p1 \<lparr> rp_bytes := write_at (col_idx_offset h) ci (rp_bytes p1) \<rparr>"
  shows "page_wf q" "slot_map q = Map.empty" "rp_header q = h" "rp_num q = rp_num p"
proof -
  from h(1) have l: "0 \<le> record_capacity h" "0 \<le> column_num h" "0 \<le> record_size h"
    "PAGE_HEADER_SIZE + page_bitmap_size (record_capacity h) \<le> col_idx_offset h"
    "col_idx_offset h + 4 * column_num h \<le> data_offset h"
    "data_offset h + record_capacity h * record_size h \<le> 8180" by (auto simp: layout_ok_def)
  let ?n = "bytes (nat (record_capacity h))" and ?zero = "replicate (bytes (nat (record_capacity h))) (0 :: byte)"
  have n: "nat (page_bitmap_size (record_capacity h)) = ?n" using page_bitmap_size_bytes [OF l(1)] .
  have bm: "0 \<le> page_bitmap_size (record_capacity h)" using l(1) by (simp add: page_bitmap_size_def)
  have "0 \<le> record_capacity h * record_size h" using l(1,3) by simp
  then have ends: "col_idx_offset h + 4 * column_num h \<le> 8180" using l by linarith
  have idx: "28 + ?n \<le> nat (col_idx_offset h)" using l(4) bm n by (simp add: PAGE_HEADER_SIZE_def)
  have fit1: "nat PAGE_HEADER_SIZE + length ?zero \<le> length (rp_bytes p)"
    using idx ends l(2) len by (simp add: PAGE_HEADER_SIZE_def BP_PAGE_DATA_SIZE_def BP_PAGE_SIZE_def)
  have p1: "rp_bytes p1 = write_at PAGE_HEADER_SIZE ?zero (rp_bytes p)" by (simp add: p1_def clear_bitmap_def n)
  have len1: "length (rp_bytes p1) = length (rp_bytes p)" unfolding p1 using fit1 by simp
  have fit2: "nat (col_idx_offset h) + length ci \<le> length (rp_bytes p1)"
    using ends idx l(2) len len1 ci by (simp add: BP_PAGE_DATA_SIZE_def BP_PAGE_SIZE_def)
  show hq: "rp_header q = h" "rp_num q = rp_num p" by (simp_all add: q_def p1_def clear_bitmap_def)
  have zero: "\<not> bitmap_get_bit (slot_bits q) j" if "j < nat (record_capacity h)" for j
  proof -
    have j: "j div 8 < ?n" by (rule index_in_bytes [OF that])
    then have pos: "28 + j div 8 < nat (col_idx_offset h)" using idx by linarith
    have "rp_bytes q ! (28 + j div 8) = rp_bytes p1 ! (28 + j div 8)"
      using nth_write_at [OF fit2, of "28 + j div 8"] pos fit2 by (simp add: q_def)
    also have "\<dots> = 0"
      using nth_write_at [OF fit1, of "28 + j div 8"] j fit1 unfolding p1 by (simp add: PAGE_HEADER_SIZE_def)
    finally show ?thesis
      using pos fit2 by (simp add: get_bit_iff slot_bits_def bitmap_init_def PAGE_HEADER_SIZE_def q_def)
  qed
  then have "slots.used (slot_bits q) = 0" by (auto simp: slots.used_def hq)
  then show "page_wf q" using h fit2 len len1 hq by (simp add: page_wf_def) (simp add: q_def)
  show "slot_map q = Map.empty" using zero by (auto simp: slot_map_def hq)
qed

lemma init_empty_page_ok:
  assumes "length (rp_bytes p) = BP_PAGE_DATA_SIZE" "0 < rec_size" "rec_size \<le> 4000" "length field_lens \<le> 900"
  obtains p' lg' where "init_empty_page rec_size field_lens (p, lg) = Some (SUCCESS, p', lg')"
    "page_wf p'" "slot_map p' = Map.empty" "record_real_size (rp_header p') = rec_size" "rp_num p' = rp_num p"
    "0 < record_capacity (rp_header p')"
proof -
  let ?columns = "if rl_format lg = PAX_FORMAT then int (length field_lens) else 0"
  have "0 \<le> ?columns" "?columns \<le> 900" using assms(4) by simp_all
  from empty_header_layout [OF assms(2,3) this] obtain h where
    h: "empty_header rec_size ?columns = Some h" "layout_ok h" "0 < record_capacity h" "record_num h = 0"
    "record_real_size h = rec_size" "column_num h = ?columns" by auto
  let ?ci = "concat (map (le_bytes 4) (column_ends (record_capacity h) 0 (take (nat ?columns) field_lens)))"
  let ?p1 = "clear_bitmap (p \<lparr> rp_header := h \<rparr>)"
  let ?q = "?p1 \<lparr> rp_bytes := write_at (col_idx_offset h) ?ci (rp_bytes ?p1) \<rparr>"
  have ci: "length ?ci = nat (4 * column_num h)" using h(6) by simp
  note new = new_page_empty [OF assms(1) h(2,4) ci]
  obtain p' lg' where log: "log_init_new_page ?ci (?q, lg) = (p', lg')" by fastforce
  then have p': "rp_header p' = rp_header ?q" "rp_num p' = rp_num ?q" "slot_map p' = slot_map ?q" "page_wf p' = page_wf ?q"
    using append_record_log_eq append_record_log_view unfolding record_logs by fastforce+
  have "init_empty_page rec_size field_lens (p, lg) = Some (SUCCESS, p', lg')"
    using h(1) log by (simp add: init_empty_page_def Let_def)
  with that show thesis using p' new h by simp
qed

section \<open>Properties\<close>

text \<open>
  C22: a new page is laid out inside the page: the slot bitmap, the column index and the slots
  follow the header without overlapping and end before the end of the page, the correction of the
  capacity ends, at least one record fits, and the new page has no records.
\<close>

theorem init_empty_page_layout:
  assumes "length (rp_bytes p) = BP_PAGE_DATA_SIZE" "0 < rec_size" "rec_size \<le> 4000" "length field_lens \<le> 900"
  shows "case init_empty_page rec_size field_lens (p, lg) of
      None \<Rightarrow> False
    | Some (rc, p', lg') \<Rightarrow> rc = SUCCESS \<and> layout_ok (rp_header p') \<and> 0 < record_capacity (rp_header p') \<and>
        page_wf p' \<and> slot_map p' = Map.empty \<and> record_real_size (rp_header p') = rec_size"
proof (rule init_empty_page_ok [OF assms, of lg])
  fix p' lg'
  assume new: "init_empty_page rec_size field_lens (p, lg) = Some (SUCCESS, p', lg')" "page_wf p'" "slot_map p' = Map.empty"
    "record_real_size (rp_header p') = rec_size" "0 < record_capacity (rp_header p')"
  then have "layout_ok (rp_header p')" by (simp add: page_wf_def)
  with new show ?thesis by simp
qed

theorem init_empty_page_layout_witness:
  "case init_empty_page 12 [4, 8]
      (\<lparr> rp_num = 1, rp_header = undefined, rp_bytes = replicate BP_PAGE_DATA_SIZE 7, rp_lsn = 0 \<rparr>,
       \<lparr> rl_wal = None, rl_pool = 1, rl_format = PAX_FORMAT, rl_stack = 0 \<rparr>) of
      None \<Rightarrow> False
    | Some (rc, p', lg') \<Rightarrow> rc = SUCCESS \<and> page_wf p' \<and> slot_map p' = Map.empty"
  using init_empty_page_layout [of "\<lparr> rp_num = 1, rp_header = undefined, rp_bytes = replicate BP_PAGE_DATA_SIZE 7, rp_lsn = 0 \<rparr>"
      12 "[4, 8]" "\<lparr> rl_wal = None, rl_pool = 1, rl_format = PAX_FORMAT, rl_stack = 0 \<rparr>"]
  by (auto split: option.splits prod.splits)


text \<open>A page of the sizes used in examples.\<close>

definition sample_page :: "record_page \<Rightarrow> record_logger \<Rightarrow> bool" where
  "sample_page p lg \<longleftrightarrow>
     init_empty_page 8 []
       (\<lparr> rp_num = 1, rp_header = undefined, rp_bytes = replicate BP_PAGE_DATA_SIZE 7, rp_lsn = 0 \<rparr>,
        \<lparr> rl_wal = Some \<lparr> wal_lsn = 0, wal_entries = [] \<rparr>, rl_pool = 1, rl_format = ROW_FORMAT, rl_stack = 0 \<rparr>) =
     Some (SUCCESS, p, lg)"

lemma sample_page_exists:
  obtains p lg where "sample_page p lg" "page_wf p" "slot_map p = Map.empty" "record_real_size (rp_header p) = 8"
    "0 < record_capacity (rp_header p)"
proof (rule init_empty_page_ok [of "\<lparr> rp_num = 1, rp_header = undefined, rp_bytes = replicate BP_PAGE_DATA_SIZE 7, rp_lsn = 0 \<rparr>" 8 "[]"
      "\<lparr> rl_wal = Some \<lparr> wal_lsn = 0, wal_entries = [] \<rparr>, rl_pool = 1, rl_format = ROW_FORMAT, rl_stack = 0 \<rparr>"])
qed (simp_all add: that sample_page_def)


end
