(* ===== verification/Record_Log.thy ===== *)
theory Record_Log
  imports Record_Page
begin

text \<open>
  Model of \<^verbatim>\<open>RecordLogReplayer\<close> (\<^verbatim>\<open>storage/record/record_log.cpp\<close>) and the recovery of record pages: the
  pages found after a crash may each be of a different age, and replaying the log from its
  beginning brings every page to its last state.
\<close>

section \<open>Replay\<close>

type_synonym page_store = "page_num \<Rightarrow> record_page option"

definition RECORD_LOG_HEADER_SIZE :: nat where "RECORD_LOG_HEADER_SIZE = 24"

definition log_field :: "nat \<Rightarrow> byte list \<Rightarrow> int" where
  "log_field i payload = signed_take_bit 31 (le_value (take 4 (drop (4 * i) payload)))"

definition vacuous_logger :: "StorageFormat \<Rightarrow> record_logger" where
  "vacuous_logger fmt = \<lparr> rl_wal = None, rl_pool = 0, rl_format = fmt, rl_stack = 0 \<rparr>"

definition handler_format :: "int \<Rightarrow> StorageFormat" where
  "handler_format f = (if f = format_id ROW_FORMAT then ROW_FORMAT else PAX_FORMAT)"

definition insert_record where
  "insert_record fmt = (if fmt = ROW_FORMAT then row_insert_record else pax_insert_record)"

definition delete_record where
  "delete_record fmt = (if fmt = ROW_FORMAT then row_delete_record else pax_delete_record)"

definition update_record where
  "update_record fmt = (if fmt = ROW_FORMAT then row_update_record else pax_update_record)"

definition replay_init_page :: "byte list \<Rightarrow> record_page \<Rightarrow> (RC \<times> record_page) option" where
  "replay_init_page payload p =
    recover_init_page (log_field 5 payload) (log_field 4 payload) (drop RECORD_LOG_HEADER_SIZE payload) p"

definition replay_insert :: "byte list \<Rightarrow> record_page \<Rightarrow> (RC \<times> record_page) option" where
  "replay_insert payload p =
    (let fmt = handler_format (log_field 3 payload)
     in map_option (\<lambda>(rc, slot, p', lg). (rc, p'))
          (insert_record fmt (drop RECORD_LOG_HEADER_SIZE payload) (p, vacuous_logger fmt)))"

definition replay_delete :: "byte list \<Rightarrow> record_page \<Rightarrow> (RC \<times> record_page) option" where
  "replay_delete payload p =
    (let fmt = handler_format (log_field 3 payload);
         (rc, p', lg) = delete_record fmt (nat (log_field 5 payload)) (p, vacuous_logger fmt)
     in Some (rc, p'))"

definition replay_update :: "byte list \<Rightarrow> record_page \<Rightarrow> (RC \<times> record_page) option" where
  "replay_update payload p =
    (let fmt = handler_format (log_field 3 payload);
         (rc, p', lg) = update_record fmt (nat (log_field 5 payload)) (drop RECORD_LOG_HEADER_SIZE payload) (p, vacuous_logger fmt)
     in Some (rc, p'))"

text \<open>The entry of the log has already been found to belong to the record manager.\<close>

definition record_log_replay ::
  "(int \<Rightarrow> RC) \<Rightarrow> lsn \<times> byte list \<Rightarrow> page_store \<Rightarrow> (RC \<times> page_store) option" where
  "record_log_replay get_buffer_pool = (\<lambda>(l, payload) S.
    if length payload < RECORD_LOG_HEADER_SIZE then Some (INVALID_ARGUMENT, S)
    else if OB_FAIL (get_buffer_pool (log_field 0 payload)) then Some (get_buffer_pool (log_field 0 payload), S)
    else case S (log_field 2 payload) of
           None \<Rightarrow> Some (IOERR_READ, S)
         | Some p \<Rightarrow>
             if rp_lsn p \<ge> l then Some (SUCCESS, S)
             else
               let op = log_field 1 payload
               in Option.bind
                    (if op = operation_id INIT_PAGE then replay_init_page payload p
                     else if op = operation_id INSERT_RECORD then replay_insert payload p
                     else if op = operation_id DELETE_RECORD then replay_delete payload p
                     else if op = operation_id UPDATE_RECORD then replay_update payload p
                     else Some (INVALID_ARGUMENT, p))
                    (\<lambda>(rc, p').
                       Some (if OB_FAIL rc then (rc, S(log_field 2 payload \<mapsto> p'))
                             else (SUCCESS, S(log_field 2 payload \<mapsto> p' \<lparr> rp_lsn := l \<rparr>)))))"

fun replay_records :: "(int \<Rightarrow> RC) \<Rightarrow> (lsn \<times> byte list) list \<Rightarrow> page_store \<Rightarrow> (RC \<times> page_store) option" where
  "replay_records get_buffer_pool [] S = Some (SUCCESS, S)"
| "replay_records get_buffer_pool (e # es) S =
    Option.bind (record_log_replay get_buffer_pool e S) (\<lambda>(rc, S').
      if OB_FAIL rc then Some (rc, S') else replay_records get_buffer_pool es S')"

section \<open>A history of operations\<close>

datatype page_operation =
  InitPage int "int list"
| InsertRecord "byte list"
| DeleteRecord nat
| UpdateRecord nat "byte list"

definition run_operation ::
  "page_operation \<Rightarrow> record_page \<times> record_logger \<Rightarrow> (record_page \<times> record_logger) option" where
  "run_operation op = (\<lambda>(p, lg).
    case op of
      InitPage rec_size field_lens \<Rightarrow> map_option snd (init_empty_page rec_size field_lens (p, lg))
    | InsertRecord data \<Rightarrow> map_option (\<lambda>(rc, slot, r). r) (insert_record (rl_format lg) data (p, lg))
    | DeleteRecord slot \<Rightarrow> Some (snd (delete_record (rl_format lg) slot (p, lg)))
    | UpdateRecord slot data \<Rightarrow> Some (snd (update_record (rl_format lg) slot data (p, lg))))"

fun run_operations ::
  "(page_num \<times> page_operation) list \<Rightarrow> page_store \<times> record_logger \<Rightarrow> (page_store \<times> record_logger) option" where
  "run_operations [] st = Some st"
| "run_operations ((n, op) # ops) (S, lg) =
    (case S n of
       None \<Rightarrow> None
     | Some p \<Rightarrow> Option.bind (run_operation op (p, lg)) (\<lambda>(p', lg'). run_operations ops (S(n \<mapsto> p'), lg')))"

section \<open>Reading a record header\<close>

lemma log_field_header:
  assumes "int32 (rl_pool lg)" "int32 n"
  shows "log_field 0 (record_log_header lg op n columns x @ data) = rl_pool lg"
    "log_field 1 (record_log_header lg op n columns x @ data) = operation_id op"
    "log_field 2 (record_log_header lg op n columns x @ data) = n"
    "log_field 3 (record_log_header lg op n columns x @ data) = format_id (rl_format lg)"
    "int32 columns \<Longrightarrow> log_field 4 (record_log_header lg op n columns x @ data) = columns"
    "int32 x \<Longrightarrow> log_field 5 (record_log_header lg op n columns x @ data) = x"
    "drop RECORD_LOG_HEADER_SIZE (record_log_header lg op n columns x @ data) = data"
    "\<not> length (record_log_header lg op n columns x @ data) < RECORD_LOG_HEADER_SIZE"
proof -
  have ids: "int32 (operation_id op)" "int32 (format_id (rl_format lg))"
    by (cases op; simp add: int32_def) (cases "rl_format lg"; simp add: int32_def)
  show "int32 columns \<Longrightarrow> log_field 4 (record_log_header lg op n columns x @ data) = columns"
    "int32 x \<Longrightarrow> log_field 5 (record_log_header lg op n columns x @ data) = x"
    by (simp_all add: log_field_def record_log_header_def int32_bytes)
  from assms ids show "log_field 0 (record_log_header lg op n columns x @ data) = rl_pool lg"
    "log_field 1 (record_log_header lg op n columns x @ data) = operation_id op"
    "log_field 2 (record_log_header lg op n columns x @ data) = n"
    "log_field 3 (record_log_header lg op n columns x @ data) = format_id (rl_format lg)"
    "drop RECORD_LOG_HEADER_SIZE (record_log_header lg op n columns x @ data) = data"
    "\<not> length (record_log_header lg op n columns x @ data) < RECORD_LOG_HEADER_SIZE"
    by (simp_all add: log_field_def record_log_header_def RECORD_LOG_HEADER_SIZE_def int32_bytes)
qed

text \<open>The handler created from the stored format behaves as the one that wrote the record.\<close>

lemma handler_format_id:
  "insert_record (handler_format (format_id fmt)) = insert_record fmt"
  "delete_record (handler_format (format_id fmt)) = delete_record fmt"
  "update_record (handler_format (format_id fmt)) = update_record fmt"
  by (cases fmt; simp add: handler_format_def insert_record_def delete_record_def update_record_def)+

section \<open>Replaying one operation\<close>

text \<open>The log of an operation: one record, numbered by the log and kept on the page, or nothing.\<close>

lemma append_record_log_wal:
  assumes "rl_wal lg = Some w" "0 \<le> wal_lsn w"
  shows "append_record_log x (p, lg) = (p \<lparr> rp_lsn := wal_lsn w + 1 \<rparr>, lg \<lparr> rl_wal := Some (snd (wal_append x w)) \<rparr>)"
  using assms by (simp add: append_record_log_def wal_append_def Let_def)

lemma append_record_log_vacuous [simp]: "append_record_log x (p, vacuous_logger fmt) = (p, vacuous_logger fmt)"
  by (simp add: append_record_log_def vacuous_logger_def)

definition operation_fits :: "page_operation \<Rightarrow> bool" where
  "operation_fits op =
    (case op of
       InitPage rec_size field_lens \<Rightarrow> int32 rec_size \<and> int32 (int (length field_lens))
     | InsertRecord data \<Rightarrow> True
     | DeleteRecord slot \<Rightarrow> int32 (int slot)
     | UpdateRecord slot data \<Rightarrow> int32 (int slot))"

text \<open>
  \<open>logged lg p p' lg'\<close>: the operation wrote nothing and changed nothing, or it wrote one record,
  the page carries its number, and replaying the record on the page as it was before gives the page
  as it is after.
\<close>

definition logged :: "record_logger \<Rightarrow> record_page \<Rightarrow> record_page \<Rightarrow> record_logger \<Rightarrow> bool" where
  "logged lg p p' lg' \<longleftrightarrow> (\<exists>w. rl_wal lg = Some w \<and>
     (p' = p \<and> lg' = lg \<or>
      (\<exists>payload. lg' = lg \<lparr> rl_wal := Some (snd (wal_append payload w)) \<rparr> \<and> rp_lsn p' = wal_lsn w + 1 \<and>
         rp_num p' = rp_num p \<and>
         RECORD_LOG_HEADER_SIZE \<le> length payload \<and>
         log_field 0 payload = rl_pool lg \<and> log_field 2 payload = rp_num p \<and>
         (\<forall>S get_buffer_pool. get_buffer_pool (rl_pool lg) = SUCCESS \<longrightarrow> S (rp_num p) = Some p \<longrightarrow> rp_lsn p \<le> wal_lsn w \<longrightarrow>
            record_log_replay get_buffer_pool (wal_lsn w + 1, payload) S = Some (SUCCESS, S(rp_num p \<mapsto> p'))))))"

definition replay_operation :: "record_operation \<Rightarrow> byte list \<Rightarrow> record_page \<Rightarrow> (RC \<times> record_page) option" where
  "replay_operation op =
    (case op of INIT_PAGE \<Rightarrow> replay_init_page | INSERT_RECORD \<Rightarrow> replay_insert
     | DELETE_RECORD \<Rightarrow> replay_delete | UPDATE_RECORD \<Rightarrow> replay_update)"

lemma logged_record:
  assumes w: "rl_wal lg = Some w" "0 \<le> wal_lsn w"
    and fit: "int32 (rl_pool lg)" "int32 (rp_num p)"
    and payload: "payload = record_log_header lg op (rp_num p) columns x @ data"
    and redo: "replay_operation op payload p = Some (SUCCESS, p1)" "rp_num p1 = rp_num p"
  shows "logged lg p (p1 \<lparr> rp_lsn := wal_lsn w + 1 \<rparr>) (lg \<lparr> rl_wal := Some (snd (wal_append payload w)) \<rparr>)"
proof -
  note f = log_field_header [OF fit, where op = op and columns = columns and x = x and data = data, folded payload]
  have "(if operation_id op = operation_id INIT_PAGE then replay_init_page payload p
         else if operation_id op = operation_id INSERT_RECORD then replay_insert payload p
         else if operation_id op = operation_id DELETE_RECORD then replay_delete payload p
         else if operation_id op = operation_id UPDATE_RECORD then replay_update payload p
         else Some (INVALID_ARGUMENT, p)) = Some (SUCCESS, p1)"
    using redo(1) by (cases op) (simp_all add: replay_operation_def)
  then show ?thesis
    using w f redo(2) unfolding logged_def
    by (intro exI [of _ w] conjI disjI2 exI [of _ payload])
      (simp_all add: record_log_replay_def rc_simps Let_def not_less)
qed

lemma logged_nothing: "rl_wal lg = Some w \<Longrightarrow> logged lg p p lg"
  by (simp add: logged_def)

lemma logged_init:
  assumes w: "rl_wal lg = Some w" "0 \<le> wal_lsn w" and fit: "int32 (rl_pool lg)" "int32 (rp_num p)"
    and op: "operation_fits (InitPage rec_size field_lens)"
    and run: "run_operation (InitPage rec_size field_lens) (p, lg) = Some (p', lg')"
  shows "logged lg p p' lg'"
proof -
  let ?columns = "if rl_format lg = PAX_FORMAT then int (length field_lens) else 0"
  from run obtain h where h: "empty_header rec_size ?columns = Some h"
    by (auto simp: run_operation_def init_empty_page_def Let_def split: Option.bind_splits)
  let ?ci = "concat (map (le_bytes 4) (column_ends (record_capacity h) 0 (take (nat ?columns) field_lens)))"
  let ?p1 = "clear_bitmap (p \<lparr> rp_header := h \<rparr>)"
  let ?q = "?p1 \<lparr> rp_bytes := write_at (col_idx_offset h) ?ci (rp_bytes ?p1) \<rparr>"
  let ?payload = "record_log_header lg INIT_PAGE (rp_num p) ?columns rec_size @ ?ci"
  have fits: "int32 ?columns" "int32 rec_size" using op by (auto simp: operation_fits_def int32_def)
  have real: "record_real_size h = rec_size"
    using h by (auto simp: empty_header_def fix_record_capacity_def Let_def)
  have len: "length ?ci = nat (?columns * 4)" by simp
  have num: "rp_num ?q = rp_num p" by (simp add: clear_bitmap_def)
  have "replay_operation INIT_PAGE ?payload p = Some (SUCCESS, ?q)"
    using h len log_field_header [OF fit, where op = INIT_PAGE and columns = ?columns and x = rec_size and data = ?ci] fits
    by (simp add: replay_operation_def replay_init_page_def recover_init_page_def Let_def)
  note lr = logged_record [OF w fit refl this num]
  have "run_operation (InitPage rec_size field_lens) (p, lg) =
      Some (?q \<lparr> rp_lsn := wal_lsn w + 1 \<rparr>, lg \<lparr> rl_wal := Some (snd (wal_append ?payload w)) \<rparr>)"
    using h num real len by (simp add: run_operation_def init_empty_page_def Let_def log_init_new_page_def
        append_record_log_wal [OF w] clear_bitmap_def)
  with run lr show ?thesis by simp
qed

lemma logged_insert:
  assumes w: "rl_wal lg = Some w" "0 \<le> wal_lsn w" and fit: "int32 (rl_pool lg)" "int32 (rp_num p)"
    and run: "run_operation (InsertRecord data) (p, lg) = Some (p', lg')"
  shows "logged lg p p' lg'"
proof (cases "rl_format lg = ROW_FORMAT \<and> record_num (rp_header p) \<noteq> record_capacity (rp_header p)")
  case False
  with run have "p' = p" "lg' = lg"
    by (auto simp: run_operation_def insert_record_def pax_insert_record_def row_insert_record_def Let_def split: if_splits)
  then show ?thesis using logged_nothing [OF w(1)] by simp
next
  case True
  let ?h = "rp_header p"
  let ?i = "next_unsetted_bit (slot_bits p) 0"
  let ?q = "(put_slot_bits (bitmap_set_bit (slot_bits p) (nat ?i)) p)
    \<lparr> rp_header := ?h \<lparr> record_num := record_num ?h + 1 \<rparr> \<rparr>"
  let ?data = "take (nat (record_real_size ?h)) data"
  let ?p1 = "?q \<lparr> rp_bytes := write_at (get_record_data ?h ?i) ?data (rp_bytes ?q) \<rparr>"
  let ?payload = "record_log_header lg INSERT_RECORD (rp_num p) 0 ?i @ ?data"
  from True run have i: "\<not> ?i < 0"
    by (auto simp: run_operation_def insert_record_def row_insert_record_def Let_def split: if_splits)
  have "row_insert_record ?data (p, vacuous_logger ROW_FORMAT) = Some (SUCCESS, Some ?i, ?p1, vacuous_logger ROW_FORMAT)"
    using True i by (simp add: row_insert_record_def Let_def log_insert_record_def)
  then have redo: "replay_operation INSERT_RECORD ?payload p = Some (SUCCESS, ?p1)"
    using log_field_header [OF fit, where op = INSERT_RECORD and columns = 0 and x = ?i and data = ?data] True
    by (simp add: replay_operation_def replay_insert_def handler_format_def insert_record_def)
  have "run_operation (InsertRecord data) (p, lg) =
      Some (?p1 \<lparr> rp_lsn := wal_lsn w + 1 \<rparr>, lg \<lparr> rl_wal := Some (snd (wal_append ?payload w)) \<rparr>)"
    using True i by (simp add: run_operation_def insert_record_def row_insert_record_def Let_def log_insert_record_def
        append_record_log_wal [OF w])
  with run logged_record [OF w fit refl redo] show ?thesis by simp
qed

lemma logged_delete:
  assumes w: "rl_wal lg = Some w" "0 \<le> wal_lsn w" and fit: "int32 (rl_pool lg)" "int32 (rp_num p)"
    and op: "operation_fits (DeleteRecord slot)"
    and run: "run_operation (DeleteRecord slot) (p, lg) = Some (p', lg')"
  shows "logged lg p p' lg'"
proof (cases "bitmap_get_bit (slot_bits p) slot")
  case False
  with run have "p' = p" "lg' = lg"
    by (auto simp: run_operation_def delete_record_def pax_delete_record_def row_delete_record_def Let_def split: if_splits)
  then show ?thesis using logged_nothing [OF w(1)] by simp
next
  case True
  let ?h = "rp_header p"
  let ?q = "(put_slot_bits (bitmap_clear_bit (slot_bits p) slot) p)
    \<lparr> rp_header := ?h \<lparr> record_num := record_num ?h - 1 \<rparr> \<rparr>"
  let ?payload = "record_log_header lg DELETE_RECORD (rp_num p) (rl_stack lg) (int slot)"
  have same: "row_delete_record slot = pax_delete_record slot"
    by (simp add: row_delete_record_def pax_delete_record_def)
  have slot: "int32 (int slot)" using op by (simp add: operation_fits_def)
  have "delete_record fmt slot (p, vacuous_logger fmt') = (SUCCESS, ?q, vacuous_logger fmt')" for fmt fmt'
    using True by (simp add: delete_record_def same [symmetric] row_delete_record_def Let_def log_delete_record_def)
  then have redo: "replay_operation DELETE_RECORD (?payload @ []) p = Some (SUCCESS, ?q)"
    using log_field_header [OF fit, where op = DELETE_RECORD and columns = "rl_stack lg" and x = "int slot" and data = "[]"] slot
    by (simp add: replay_operation_def replay_delete_def)
  have "run_operation (DeleteRecord slot) (p, lg) =
      Some (?q \<lparr> rp_lsn := wal_lsn w + 1 \<rparr>, lg \<lparr> rl_wal := Some (snd (wal_append ?payload w)) \<rparr>)"
    using True by (simp add: run_operation_def delete_record_def same [symmetric] row_delete_record_def Let_def
        log_delete_record_def append_record_log_wal [OF w])
  with run logged_record [OF w fit refl redo] show ?thesis by simp
qed

lemma logged_update:
  assumes w: "rl_wal lg = Some w" "0 \<le> wal_lsn w" and fit: "int32 (rl_pool lg)" "int32 (rp_num p)"
    and op: "operation_fits (UpdateRecord slot data)"
    and run: "run_operation (UpdateRecord slot data) (p, lg) = Some (p', lg')"
  shows "logged lg p p' lg'"
proof (cases "rl_format lg = ROW_FORMAT \<and> \<not> int slot \<ge> record_capacity (rp_header p) \<and> bitmap_get_bit (slot_bits p) slot")
  case False
  with run have "p' = p" "lg' = lg"
    by (auto simp: run_operation_def update_record_def pax_update_record_def row_update_record_def Let_def split: if_splits)
  then show ?thesis using logged_nothing [OF w(1)] by simp
next
  case True
  let ?h = "rp_header p"
  let ?data = "take (nat (record_real_size ?h)) data"
  let ?q = "p \<lparr> rp_bytes := write_at (get_record_data ?h (int slot)) ?data (rp_bytes p) \<rparr>"
  let ?payload = "record_log_header lg UPDATE_RECORD (rp_num p) 0 (int slot) @ ?data"
  have slot: "int32 (int slot)" using op by (simp add: operation_fits_def)
  have "row_update_record slot ?data (p, vacuous_logger ROW_FORMAT) = (SUCCESS, ?q, vacuous_logger ROW_FORMAT)"
    using True by (simp add: row_update_record_def Let_def log_update_record_def)
  then have redo: "replay_operation UPDATE_RECORD ?payload p = Some (SUCCESS, ?q)"
    using log_field_header [OF fit, where op = UPDATE_RECORD and columns = 0 and x = "int slot" and data = ?data] slot True
    by (simp add: replay_operation_def replay_update_def handler_format_def update_record_def)
  have "run_operation (UpdateRecord slot data) (p, lg) =
      Some (?q \<lparr> rp_lsn := wal_lsn w + 1 \<rparr>, lg \<lparr> rl_wal := Some (snd (wal_append ?payload w)) \<rparr>)"
    using True by (simp add: run_operation_def update_record_def row_update_record_def Let_def
        log_update_record_def append_record_log_wal [OF w])
  with run logged_record [OF w fit refl redo] show ?thesis by simp
qed

lemma operation_logged:
  assumes "rl_wal lg = Some w" "0 \<le> wal_lsn w" "int32 (rl_pool lg)" "int32 (rp_num p)" "operation_fits op"
    "run_operation op (p, lg) = Some (p', lg')"
  shows "logged lg p p' lg'"
  using assms by (cases op) (blast intro: logged_init logged_insert logged_delete logged_update)+

section \<open>Recovery\<close>

definition store_ok :: "page_store \<Rightarrow> record_logger \<Rightarrow> bool" where
  "store_ok S lg \<longleftrightarrow> int32 (rl_pool lg) \<and> (\<exists>w. rl_wal lg = Some w \<and> 0 \<le> wal_lsn w \<and>
     (\<forall>n p. S n = Some p \<longrightarrow> rp_num p = n \<and> int32 n \<and> rp_lsn p \<le> wal_lsn w))"

text \<open>A file found after a crash: every page as it was at some moment.\<close>

definition crash_image :: "(page_num \<times> page_operation) list \<Rightarrow> page_store \<Rightarrow> record_logger \<Rightarrow> page_store \<Rightarrow> bool" where
  "crash_image ops S lg I \<longleftrightarrow>
     (\<forall>n. \<exists>k S' lg'. run_operations (take k ops) (S, lg) = Some (S', lg') \<and> I n = S' n)"

abbreviation entries_of :: "record_logger \<Rightarrow> (lsn \<times> byte list) list" where
  "entries_of lg \<equiv> wal_entries (the (rl_wal lg))"

text \<open>One operation: the store stays consistent, the log grows by at most one record.\<close>

lemma operation_step:
  assumes ok: "store_ok S lg" and p: "S n = Some p" and op: "operation_fits op"
    and run: "run_operation op (p, lg) = Some (p', lg')"
  obtains es where "store_ok (S(n \<mapsto> p')) lg'" "entries_of lg' = entries_of lg @ es" "rp_lsn p \<le> rp_lsn p'"
    "rl_pool lg' = rl_pool lg"
    "\<And>I get_buffer_pool. get_buffer_pool (rl_pool lg) = SUCCESS \<Longrightarrow> I n = Some p \<Longrightarrow>
       replay_records get_buffer_pool es I = Some (SUCCESS, I(n \<mapsto> p'))"
    "\<And>I q get_buffer_pool. get_buffer_pool (rl_pool lg) = SUCCESS \<Longrightarrow> I n = Some q \<Longrightarrow> rp_lsn p' \<le> rp_lsn q \<Longrightarrow>
       replay_records get_buffer_pool es I = Some (SUCCESS, I)"
proof -
  from ok p obtain w where w: "rl_wal lg = Some w" "0 \<le> wal_lsn w" "int32 (rl_pool lg)" "int32 (rp_num p)"
    "rp_num p = n" "rp_lsn p \<le> wal_lsn w" by (auto simp: store_ok_def)
  from operation_logged [OF w(1-4) op run] w(1) consider (nothing) "p' = p" "lg' = lg"
    | (entry) payload where "lg' = lg \<lparr> rl_wal := Some (snd (wal_append payload w)) \<rparr>" "rp_lsn p' = wal_lsn w + 1"
      "rp_num p' = rp_num p" "\<not> length payload < RECORD_LOG_HEADER_SIZE"
      "log_field 0 payload = rl_pool lg" "log_field 2 payload = rp_num p"
      "\<And>S get_buffer_pool. get_buffer_pool (rl_pool lg) = SUCCESS \<Longrightarrow> S (rp_num p) = Some p \<Longrightarrow> rp_lsn p \<le> wal_lsn w \<Longrightarrow>
         record_log_replay get_buffer_pool (wal_lsn w + 1, payload) S = Some (SUCCESS, S(rp_num p \<mapsto> p'))"
    unfolding logged_def by (auto simp: not_less)
  then show thesis
  proof cases
    case nothing
    then show thesis using that [of "[]"] ok p by (simp add: fun_upd_idem map_upd_triv)
  next
    case entry
    have ok': "store_ok (S(n \<mapsto> p')) lg'"
      using ok w entry(1-3) by (auto simp: store_ok_def wal_append_def Let_def) force+
    show thesis
    proof (rule that [of "[(wal_lsn w + 1, payload)]", OF ok'])
      fix I :: page_store and q and get_buffer_pool :: "int \<Rightarrow> RC"
      assume "get_buffer_pool (rl_pool lg) = SUCCESS" "I n = Some q" "rp_lsn p' \<le> rp_lsn q"
      then show "replay_records get_buffer_pool [(wal_lsn w + 1, payload)] I = Some (SUCCESS, I)"
        using entry w(5) by (simp add: record_log_replay_def rc_simps)
    next
      fix I :: page_store and get_buffer_pool :: "int \<Rightarrow> RC"
      assume "get_buffer_pool (rl_pool lg) = SUCCESS" "I n = Some p"
      then show "replay_records get_buffer_pool [(wal_lsn w + 1, payload)] I = Some (SUCCESS, I(n \<mapsto> p'))"
        using entry(7) w(5,6) by (simp add: rc_simps)
    qed (use w entry in \<open>simp_all add: wal_append_def Let_def\<close>)
  qed
qed

text \<open>The number on a page only grows.\<close>

lemma run_operations_lsn:
  assumes "store_ok S lg" "\<forall>x\<in>set ops. operation_fits (snd x)" "run_operations ops (S, lg) = Some (S', lg')"
    "S n = Some p"
  shows "\<exists>p'. S' n = Some p' \<and> rp_lsn p \<le> rp_lsn p'"
  using assms
proof (induction ops arbitrary: S lg p)
  case (Cons x ops)
  obtain m op where x: "x = (m, op)" by (metis surj_pair)
  from Cons.prems(3) obtain q q' lg1 where run: "S m = Some q" "run_operation op (q, lg) = Some (q', lg1)"
    "run_operations ops (S(m \<mapsto> q'), lg1) = Some (S', lg')"
    by (auto simp: x split: option.splits Option.bind_splits)
  have fit: "operation_fits op" using Cons.prems(2) x by simp
  from operation_step [OF Cons.prems(1) run(1) fit run(2)] have
    step: "store_ok (S(m \<mapsto> q')) lg1" "rp_lsn q \<le> rp_lsn q'" by metis+
  have rest: "\<forall>x\<in>set ops. operation_fits (snd x)" using Cons.prems(2) by simp
  show ?case
  proof (cases "n = m")
    case True
    with Cons.IH [OF step(1) rest run(3), of q'] step(2) run(1) Cons.prems(4) show ?thesis by fastforce
  next
    case False
    with Cons.IH [OF step(1) rest run(3), of p] Cons.prems(4) show ?thesis by simp
  qed
qed simp

lemma replay_records_append:
  "replay_records get_buffer_pool es S = Some (SUCCESS, S') \<Longrightarrow>
   replay_records get_buffer_pool (es @ fs) S = replay_records get_buffer_pool fs S'"
  by (induction es arbitrary: S) (auto split: Option.bind_splits if_splits)

text \<open>After the record of the first operation, the file is an image of the rest of the history.\<close>

lemma replay_step:
  assumes run: "S m = Some q" "run_operation op (q, lg) = Some (q', lg1)"
    and ok: "store_ok (S(m \<mapsto> q')) lg1" and fit: "\<forall>x\<in>set ops. operation_fits (snd x)"
    and image: "crash_image ((m, op) # ops) S lg I"
    and es: "\<And>I. I m = Some q \<Longrightarrow> replay_records get_buffer_pool es I = Some (SUCCESS, I(m \<mapsto> q'))"
    "\<And>I r. I m = Some r \<Longrightarrow> rp_lsn q' \<le> rp_lsn r \<Longrightarrow> replay_records get_buffer_pool es I = Some (SUCCESS, I)"
  shows "\<exists>I1. replay_records get_buffer_pool es I = Some (SUCCESS, I1) \<and> crash_image ops (S(m \<mapsto> q')) lg1 I1"
proof -
  let ?at = "\<lambda>J n. \<exists>k S'' lg''. run_operations (take k ops) (S(m \<mapsto> q'), lg1) = Some (S'', lg'') \<and> J n = S'' n"
  have later: "?at I n"
    if k: "run_operations (take k ((m, op) # ops)) (S, lg) = Some (S'', lg'')" "I n = S'' n" "k \<noteq> 0" for n k S'' lg''
    using k run by (cases k) auto
  have now: "?at S n" if "n \<noteq> m" for n using that by (intro exI [of _ 0]) simp
  have other: "n \<noteq> m \<Longrightarrow> ?at I n" for n
    using image later [of _ _ _ n] now [of n] unfolding crash_image_def
    by (metis run_operations.simps(1) take0 option.inject prod.inject)
  obtain k S'' lg'' where k: "run_operations (take k ((m, op) # ops)) (S, lg) = Some (S'', lg'')" "I m = S'' m"
    using image unfolding crash_image_def by blast
  show ?thesis
  proof (cases "k = 0")
    case True
    with k run(1) have "I m = Some q" by simp
    moreover have "?at (I(m \<mapsto> q')) n" for n
      using other [of n] by (cases "n = m") (auto intro: exI [of _ 0])
    ultimately show ?thesis using es(1) unfolding crash_image_def by blast
  next
    case False
    from later [OF k False] obtain j T lgt where
      j: "run_operations (take j ops) (S(m \<mapsto> q'), lg1) = Some (T, lgt)" "I m = T m" by blast
    have "\<forall>x\<in>set (take j ops). operation_fits (snd x)" using fit by (meson in_set_takeD)
    from run_operations_lsn [OF ok this j(1), of m q'] j(2) obtain r where "I m = Some r" "rp_lsn q' \<le> rp_lsn r" by auto
    moreover have "?at I n" for n using other j by metis
    ultimately show ?thesis using es(2) unfolding crash_image_def by blast
  qed
qed

lemma recover_pages:
  assumes "store_ok S lg" "\<forall>x\<in>set ops. operation_fits (snd x)" "run_operations ops (S, lg) = Some (S', lg')"
    "crash_image ops S lg I" "get_buffer_pool (rl_pool lg) = SUCCESS"
  shows "\<exists>es. entries_of lg' = entries_of lg @ es \<and> replay_records get_buffer_pool es I = Some (SUCCESS, S')"
  using assms
proof (induction ops arbitrary: S lg I)
  case Nil
  then have "I = S" by (auto simp: crash_image_def)
  with Nil show ?case by simp
next
  case (Cons x ops)
  obtain m op where x: "x = (m, op)" by (metis surj_pair)
  from Cons.prems(3) obtain q q' lg1 where run: "S m = Some q" "run_operation op (q, lg) = Some (q', lg1)"
    "run_operations ops (S(m \<mapsto> q'), lg1) = Some (S', lg')"
    by (auto simp: x split: option.splits Option.bind_splits)
  have fit: "operation_fits op" "\<forall>x\<in>set ops. operation_fits (snd x)" using Cons.prems(2) x by simp_all
  from operation_step [OF Cons.prems(1) run(1) fit(1) run(2)] obtain es where
    step: "store_ok (S(m \<mapsto> q')) lg1" "entries_of lg1 = entries_of lg @ es" "rl_pool lg1 = rl_pool lg"
    "\<And>I. I m = Some q \<Longrightarrow> replay_records get_buffer_pool es I = Some (SUCCESS, I(m \<mapsto> q'))"
    "\<And>I r. I m = Some r \<Longrightarrow> rp_lsn q' \<le> rp_lsn r \<Longrightarrow> replay_records get_buffer_pool es I = Some (SUCCESS, I)"
    using Cons.prems(5) by metis
  have "\<exists>I1. replay_records get_buffer_pool es I = Some (SUCCESS, I1) \<and> crash_image ops (S(m \<mapsto> q')) lg1 I1"
    by (rule replay_step [OF run(1,2) step(1) fit(2)]) (use Cons.prems(4) x step(4,5) in auto)
  then obtain I1 where
    I1: "replay_records get_buffer_pool es I = Some (SUCCESS, I1)" "crash_image ops (S(m \<mapsto> q')) lg1 I1" by blast
  from Cons.IH [OF step(1) fit(2) run(3) I1(2)] step(3) Cons.prems(5) obtain fs where
    fs: "entries_of lg' = entries_of lg1 @ fs" "replay_records get_buffer_pool fs I1 = Some (SUCCESS, S')" by auto
  show ?case using fs step(2) replay_records_append [OF I1(1)] by (intro exI [of _ "es @ fs"]) simp
qed

section \<open>Properties\<close>

text \<open>
  C14: record pages survive a crash.  After any history of page initialisations, insertions,
  deletions and updates on any number of pages, take a file in which every page is as it was at
  some moment of that history, each page at a moment of its own.  Replaying the log from its
  beginning succeeds and gives every page as the history left it, down to the bytes.
\<close>

theorem record_pages_recovered:
  assumes "store_ok S lg" "entries_of lg = []" "\<forall>x\<in>set ops. operation_fits (snd x)"
    "run_operations ops (S, lg) = Some (S', lg')" "crash_image ops S lg I" "get_buffer_pool (rl_pool lg) = SUCCESS"
  shows "replay_records get_buffer_pool (entries_of lg') I = Some (SUCCESS, S')"
  using recover_pages [OF assms(1,3,4,5), of get_buffer_pool] assms(2,6) by auto

definition blank_page :: record_page where
  "blank_page = \<lparr> rp_num = 1, rp_header = undefined, rp_bytes = replicate BP_PAGE_DATA_SIZE 7, rp_lsn = 0 \<rparr>"

definition new_logger :: record_logger where
  "new_logger = \<lparr> rl_wal = Some \<lparr> wal_lsn = 0, wal_entries = [] \<rparr>, rl_pool = 1, rl_format = ROW_FORMAT, rl_stack = 0 \<rparr>"

theorem record_pages_recovered_witness:
  "\<exists>p lg. run_operations [(1, InitPage 8 []), (1, InsertRecord [1, 2, 3, 4, 5, 6, 7, 8])] ([1 \<mapsto> blank_page], new_logger) =
      Some ([1 \<mapsto> p], lg) \<and> slot_map p = [0 \<mapsto> [1, 2, 3, 4, 5, 6, 7, 8]] \<and>
    replay_records (\<lambda>_. SUCCESS) (entries_of lg) [1 \<mapsto> blank_page] = Some (SUCCESS, [1 \<mapsto> p])"
proof -
  let ?ops = "[(1, InitPage 8 []), (1, InsertRecord [1, 2, 3, 4, 5, 6, 7, 8])]"
  from sample_page_exists obtain q lg where q: "sample_page q lg" "page_wf q" "slot_map q = Map.empty"
    "record_real_size (rp_header q) = 8" "0 < record_capacity (rp_header q)" .
  have init: "init_empty_page 8 [] (blank_page, new_logger) = Some (SUCCESS, q, lg)"
    using q(1) by (simp add: sample_page_def blank_page_def new_logger_def)
  have "logged new_logger blank_page q lg"
    using init by (intro logged_init [of _ _ _ 8 "[]"])
      (auto simp: new_logger_def blank_page_def int32_def operation_fits_def run_operation_def)
  then have fmt: "rl_format lg = ROW_FORMAT" by (auto simp: logged_def new_logger_def)
  have "\<exists>i<nat (record_capacity (rp_header q)). slot_map q i = None" using q(3,5) by (intro exI [of _ 0]) simp
  then have room: "record_num (rp_header q) \<noteq> record_capacity (rp_header q)" using page_full_iff [OF q(2)] by simp
  have "length [1, 2, 3, 4, 5, 6, 7, 8 :: byte] = nat (record_real_size (rp_header q))" using q(4) by simp
  from insert_into_slot [OF q(2) this room, of lg] obtain i p lg' where
    ins: "row_insert_record [1, 2, 3, 4, 5, 6, 7, 8] (q, lg) = Some (SUCCESS, Some (int i), p, lg')"
    "\<And>j. j < i \<Longrightarrow> slot_map q j \<noteq> None" "slot_map p = (slot_map q)(i \<mapsto> [1, 2, 3, 4, 5, 6, 7, 8])" by metis
  have "i = 0" using ins(2) [of 0] q(3) by (cases i) auto
  have run: "run_operations ?ops ([1 \<mapsto> blank_page], new_logger) = Some ([1 \<mapsto> p], lg')"
    using init ins(1) fmt by (simp add: run_operation_def insert_record_def)
  have "replay_records (\<lambda>_. SUCCESS) (entries_of lg') [1 \<mapsto> blank_page] = Some (SUCCESS, [1 \<mapsto> p])"
    by (rule record_pages_recovered [OF _ _ _ run])
      (auto simp: store_ok_def new_logger_def blank_page_def int32_def operation_fits_def crash_image_def intro!: exI [of _ 0])
  with run ins(3) q(3) \<open>i = 0\<close> show ?thesis by auto
qed

end
