(* ===== verification/Record_File.thy ===== *)
theory Record_File
  imports Record_Log
begin

text \<open>
  Model of \<^verbatim>\<open>RecordFileHandler\<close> (\<^verbatim>\<open>storage/record/record_manager.cpp\<close>) and of the scan over a record
  file (\<^verbatim>\<open>heap_record_scanner.cpp\<close>, \<^verbatim>\<open>RecordPageIterator\<close>): the file is a buffer pool with its pages, and
  a set of pages that may have room.  For row pages the file implements a map from RIDs to
  records, and a scan returns every record once.
\<close>

section \<open>The file\<close>

text \<open>
  The set of free pages is an \<^verbatim>\<open>unordered_set\<close>, here the list of its elements in the order of iteration.
  Where a new element goes, and how the others are rearranged, is up to the library: a parameter
  \<open>place\<close>, of which \<open>set_insertion\<close> says that the element is added and nothing else.  Erasing keeps
  the order of the other elements.
\<close>

type_synonym set_place = "page_num \<Rightarrow> page_num list \<Rightarrow> page_num list"

definition set_insertion :: "set_place \<Rightarrow> bool" where
  "set_insertion place \<longleftrightarrow> (\<forall>n ns. set (place n ns) = insert n (set ns))"

record record_file =
  rf_open :: bool
  rf_pool :: disk_buffer_pool
  rf_pages :: page_store
  rf_free :: "page_num list"
  rf_logger :: record_logger
  rf_fields :: "int list"

definition free_insert :: "set_place \<Rightarrow> page_num \<Rightarrow> page_num list \<Rightarrow> page_num list" where
  "free_insert place n ns = (if n \<in> set ns then ns else place n ns)"

text \<open>A page that extends the file is cleared, a page that was used before keeps its contents.\<close>

text \<open>What loading a page that the file does not have returns: the seek or the read fails.\<close>

definition load_page_rc :: "page_num \<Rightarrow> RC" where
  "load_page_rc n = (if n < 0 then IOERR_SEEK else IOERR_READ)"

definition zero_header :: page_header where
  "zero_header = \<lparr> record_num = 0, column_num = 0, record_real_size = 0, record_size = 0, record_capacity = 0,
     col_idx_offset = 0, data_offset = 0 \<rparr>"

definition allocated_frame :: "page_num \<Rightarrow> page_store \<Rightarrow> record_page" where
  "allocated_frame n S =
    (case S n of
       None \<Rightarrow> \<lparr> rp_num = n, rp_header = zero_header, rp_bytes = replicate BP_PAGE_DATA_SIZE 0, rp_lsn = 0 \<rparr>
     | Some p \<Rightarrow> p)"

section \<open>Opening\<close>

fun collect_free_pages :: "set_place \<Rightarrow> page_num list \<Rightarrow> page_store \<Rightarrow> page_num list \<Rightarrow> RC \<times> page_num list" where
  "collect_free_pages place [] S free = (SUCCESS, free)"
| "collect_free_pages place (n # ns) S free =
    (case S n of
       None \<Rightarrow> (load_page_rc n, free)
     | Some p \<Rightarrow> collect_free_pages place ns S (if \<not> is_full p then free_insert place n free else free))"

definition init_free_pages :: "set_place \<Rightarrow> record_file \<Rightarrow> RC \<times> record_file" where
  "init_free_pages place rf =
    (let (rc, free) = collect_free_pages place (bp_iterate (bp_iterator_init (rf_pool rf) 1)) (rf_pages rf) (rf_free rf)
     in (rc, rf \<lparr> rf_free := free \<rparr>))"

definition record_file_init :: "set_place \<Rightarrow> record_file \<Rightarrow> RC \<times> record_file" where
  "record_file_init place rf =
    (if rf_open rf then (RECORD_OPENNED, rf) else (SUCCESS, snd (init_free_pages place (rf \<lparr> rf_open := True \<rparr>))))"

definition record_file_close :: "record_file \<Rightarrow> record_file" where
  "record_file_close rf = (if rf_open rf then rf \<lparr> rf_open := False, rf_free := [] \<rparr> else rf)"

section \<open>Records\<close>

fun find_page_with_room :: "page_num list \<Rightarrow> page_store \<Rightarrow> RC \<times> page_num option \<times> page_num list" where
  "find_page_with_room [] S = (SUCCESS, None, [])"
| "find_page_with_room (n # ns) S =
    (case S n of
       None \<Rightarrow> (load_page_rc n, None, n # ns)
     | Some p \<Rightarrow> if \<not> is_full p then (SUCCESS, Some n, n # ns) else find_page_with_room ns S)"

definition insert_into_page ::
  "byte list \<Rightarrow> page_num \<Rightarrow> record_page \<Rightarrow> record_file \<Rightarrow> (RC \<times> rid option \<times> record_file) option" where
  "insert_into_page data n p rf =
    Option.bind (insert_record (rl_format (rf_logger rf)) data (p, rf_logger rf)) (\<lambda>(rc, slot, p', lg).
      Some (rc, map_option (\<lambda>i. \<lparr> rid_page_num = n, rid_slot_num = i \<rparr>) slot,
            rf \<lparr> rf_pages := (rf_pages rf)(n \<mapsto> p'), rf_logger := lg \<rparr>))"

definition file_insert_record ::
  "set_place \<Rightarrow> byte list \<Rightarrow> int \<Rightarrow> record_file \<Rightarrow> (RC \<times> rid option \<times> record_file) option" where
  "file_insert_record place data rec_size rf =
    (let (rc, found, free) = find_page_with_room (rf_free rf) (rf_pages rf);
         rf1 = rf \<lparr> rf_free := free \<rparr>
     in if OB_FAIL rc then Some (rc, None, rf1)
        else case found of
               Some n \<Rightarrow> insert_into_page data n (the (rf_pages rf n)) rf1
             | None \<Rightarrow>
                 (case allocate_page (\<lambda>_. SUCCESS) (rf_pool rf1) of
                    (rc, None, bp) \<Rightarrow> Some (rc, None, rf1 \<lparr> rf_pool := bp \<rparr>)
                  | (rc, Some i, bp) \<Rightarrow>
                      let n = int i; frame = allocated_frame n (rf_pages rf1)
                      in Option.bind (init_empty_page rec_size (rf_fields rf1) (frame, rf_logger rf1)) (\<lambda>(rc, p, lg).
                           let rf2 = rf1 \<lparr> rf_pool := bp, rf_pages := (rf_pages rf1)(n \<mapsto> p), rf_logger := lg \<rparr>
                           in if OB_FAIL rc then Some (rc, None, rf2)
                              else insert_into_page data n p (rf2 \<lparr> rf_free := free_insert place n (rf_free rf2) \<rparr>))))"

text \<open>
  The operations below take the slot from the caller.  \<open>None\<close> stands for an access to the bitmap
  outside its bytes: the source checks the upper end of the range for reading and updating only, and
  the lower end nowhere.
\<close>

definition recover_insert_record :: "StorageFormat \<Rightarrow> byte list \<Rightarrow> nat \<Rightarrow> record_page \<Rightarrow> RC \<times> record_page" where
  "recover_insert_record fmt data slot p =
    (if fmt = ROW_FORMAT then row_recover_insert_record data slot p else (UNIMPLEMENTED, p))"

definition get_record :: "StorageFormat \<Rightarrow> nat \<Rightarrow> record_page \<Rightarrow> RC \<times> byte list option" where
  "get_record fmt slot p = (if fmt = ROW_FORMAT then row_get_record slot p else (UNIMPLEMENTED, None))"

definition file_recover_insert_record :: "byte list \<Rightarrow> rid \<Rightarrow> record_file \<Rightarrow> (RC \<times> record_file) option" where
  "file_recover_insert_record data r rf =
    (case rf_pages rf (rid_page_num r) of
       None \<Rightarrow> Some (load_page_rc (rid_page_num r), rf)
     | Some p \<Rightarrow>
         if rid_slot_num r < 0 then None
         else
           let bp = snd (recover_page (nat (rid_page_num r)) (rf_pool rf));
               (rc, p') = recover_insert_record (rl_format (rf_logger rf)) data (nat (rid_slot_num r)) p
           in Some (rc, rf \<lparr> rf_pool := bp, rf_pages := (rf_pages rf)(rid_page_num r \<mapsto> p') \<rparr>))"

definition file_delete_record :: "set_place \<Rightarrow> rid \<Rightarrow> record_file \<Rightarrow> (RC \<times> record_file) option" where
  "file_delete_record place r rf =
    (case rf_pages rf (rid_page_num r) of
       None \<Rightarrow> Some (load_page_rc (rid_page_num r), rf)
     | Some p \<Rightarrow>
         if rid_slot_num r < 0 \<or> rid_slot_num r \<ge> record_capacity (rp_header p) then None
         else
           let (rc, p', lg) = delete_record (rl_format (rf_logger rf)) (nat (rid_slot_num r)) (p, rf_logger rf);
               rf1 = rf \<lparr> rf_pages := (rf_pages rf)(rid_page_num r \<mapsto> p'), rf_logger := lg \<rparr>
           in Some (rc, if OB_SUCC rc then rf1 \<lparr> rf_free := free_insert place (rid_page_num r) (rf_free rf1) \<rparr> else rf1))"

definition file_get_record :: "rid \<Rightarrow> record_file \<Rightarrow> (RC \<times> byte list option) option" where
  "file_get_record r rf =
    (case rf_pages rf (rid_page_num r) of
       None \<Rightarrow> Some (load_page_rc (rid_page_num r), None)
     | Some p \<Rightarrow>
         if rid_slot_num r < 0 then None
         else Some (get_record (rl_format (rf_logger rf)) (nat (rid_slot_num r)) p))"

text \<open>The updater gets a copy of the record and says whether it changed it.\<close>

definition file_visit_record ::
  "rid \<Rightarrow> (byte list \<Rightarrow> bool \<times> byte list) \<Rightarrow> record_file \<Rightarrow> (RC \<times> record_file) option" where
  "file_visit_record r updater rf =
    (case rf_pages rf (rid_page_num r) of
       None \<Rightarrow> Some (load_page_rc (rid_page_num r), rf)
     | Some p \<Rightarrow>
         if rid_slot_num r < 0 then None
         else
           (case get_record (rl_format (rf_logger rf)) (nat (rid_slot_num r)) p of
              (rc, None) \<Rightarrow> Some (rc, rf)
            | (rc, Some data) \<Rightarrow>
                let (updated, data') = updater data
                in if updated then
                     let (rc, p', lg) = update_record (rl_format (rf_logger rf)) (nat (rid_slot_num r)) data' (p, rf_logger rf)
                     in Some (rc, rf \<lparr> rf_pages := (rf_pages rf)(rid_page_num r \<mapsto> p'), rf_logger := lg \<rparr>)
                   else Some (rc, rf)))"

section \<open>Scanning\<close>

record page_iterator =
  pi_page :: record_page
  pi_format :: StorageFormat
  pi_next :: int

definition page_iterator_init :: "StorageFormat \<Rightarrow> nat \<Rightarrow> record_page \<Rightarrow> page_iterator" where
  "page_iterator_init fmt start p = \<lparr> pi_page = p, pi_format = fmt, pi_next = next_setted_bit (slot_bits p) start \<rparr>"

definition page_iterator_has_next :: "page_iterator \<Rightarrow> bool" where
  "page_iterator_has_next it \<longleftrightarrow> pi_next it \<noteq> - 1"

text \<open>
  The record variable of the scanner holds the previous record (\<open>None\<close>: slot number \<open>- 1\<close>); a failed
  read leaves it as it is.
\<close>

type_synonym scan_record = "(rid \<times> byte list) option"

definition page_iterator_next :: "page_iterator \<Rightarrow> scan_record \<Rightarrow> RC \<times> scan_record \<times> page_iterator" where
  "page_iterator_next it old =
    (let rec = (case get_record (pi_format it) (nat (pi_next it)) (pi_page it) of
                  (rc, Some data) \<Rightarrow> Some (\<lparr> rid_page_num = rp_num (pi_page it), rid_slot_num = pi_next it \<rparr>, data)
                | (rc, None) \<Rightarrow> old);
         it' = (if pi_next it \<ge> 0
                then it \<lparr> pi_next := next_setted_bit (slot_bits (pi_page it)) (nat (pi_next it + 1)) \<rparr> else it)
     in (if rec \<noteq> None then SUCCESS else RECORD_EOF, rec, it'))"

text \<open>
  The condition filter is a predicate (true when there is none).  A transaction, if there is one,
  says of each record whether it is visible.
\<close>

partial_function (option) fetch_next_record_in_page ::
  "(rid \<Rightarrow> byte list \<Rightarrow> bool) \<Rightarrow> (rid \<Rightarrow> byte list \<Rightarrow> RC) option \<Rightarrow> page_iterator \<Rightarrow> scan_record \<Rightarrow>
   (RC \<times> scan_record \<times> page_iterator) option" where
  "fetch_next_record_in_page filt visit it old =
    (if page_iterator_has_next it then
       case page_iterator_next it old of (rc, rec, it') \<Rightarrow>
         if rc \<noteq> SUCCESS then Some (rc, rec, it')
         else if \<not> filt (fst (the rec)) (snd (the rec)) then fetch_next_record_in_page filt visit it' rec
         else if visit = None then Some (rc, rec, it')
         else if the visit (fst (the rec)) (snd (the rec)) = RECORD_INVISIBLE
         then fetch_next_record_in_page filt visit it' rec
         else Some (the visit (fst (the rec)) (snd (the rec)), rec, it')
     else Some (RECORD_EOF, None, it))"

record heap_scanner =
  hs_pages :: bp_iterator
  hs_format :: StorageFormat
  hs_iter :: "page_iterator option"
  hs_record :: scan_record

text \<open>\<open>old\<close> is what the record variable holds before the first record is read.\<close>

definition open_scan :: "StorageFormat \<Rightarrow> scan_record \<Rightarrow> record_file \<Rightarrow> heap_scanner" where
  "open_scan fmt old rf =
    \<lparr> hs_pages = bp_iterator_init (rf_pool rf) 1, hs_format = fmt, hs_iter = None, hs_record = old \<rparr>"

partial_function (option) fetch_from_pages ::
  "(rid \<Rightarrow> byte list \<Rightarrow> bool) \<Rightarrow> (rid \<Rightarrow> byte list \<Rightarrow> RC) option \<Rightarrow> page_store \<Rightarrow> heap_scanner \<Rightarrow>
   (RC \<times> heap_scanner) option" where
  "fetch_from_pages filt visit S hs =
    (if bp_iterator_has_next (hs_pages hs) then
       case bp_iterator_next (hs_pages hs) of (n, pages) \<Rightarrow>
         (case S n of
            None \<Rightarrow> Some (load_page_rc n, hs \<lparr> hs_pages := pages \<rparr>)
          | Some p \<Rightarrow>
              Option.bind (fetch_next_record_in_page filt visit (page_iterator_init (hs_format hs) 0 p) (hs_record hs))
                (\<lambda>(rc, rec, it).
                   if rc = SUCCESS \<or> rc \<noteq> RECORD_EOF
                   then Some (rc, hs \<lparr> hs_pages := pages, hs_iter := Some it, hs_record := rec \<rparr>)
                   else fetch_from_pages filt visit S (hs \<lparr> hs_pages := pages, hs_iter := Some it, hs_record := rec \<rparr>)))
     else Some (RECORD_EOF, hs \<lparr> hs_record := None \<rparr>))"

definition fetch_next_record ::
  "(rid \<Rightarrow> byte list \<Rightarrow> bool) \<Rightarrow> (rid \<Rightarrow> byte list \<Rightarrow> RC) option \<Rightarrow> page_store \<Rightarrow> heap_scanner \<Rightarrow>
   (RC \<times> heap_scanner) option" where
  "fetch_next_record filt visit S hs =
    (case hs_iter hs of
       None \<Rightarrow> fetch_from_pages filt visit S hs
     | Some it \<Rightarrow>
         Option.bind (fetch_next_record_in_page filt visit it (hs_record hs)) (\<lambda>(rc, rec, it').
           let hs' = hs \<lparr> hs_iter := Some it', hs_record := rec \<rparr>
           in if rc = SUCCESS \<or> rc \<noteq> RECORD_EOF then Some (rc, hs') else fetch_from_pages filt visit S hs'))"

definition scanner_next ::
  "(rid \<Rightarrow> byte list \<Rightarrow> bool) \<Rightarrow> (rid \<Rightarrow> byte list \<Rightarrow> RC) option \<Rightarrow> page_store \<Rightarrow> heap_scanner \<Rightarrow>
   (RC \<times> scan_record \<times> heap_scanner) option" where
  "scanner_next filt visit S hs =
    Option.bind (fetch_next_record filt visit S hs) (\<lambda>(rc, hs').
      Some (if OB_FAIL rc then (rc, None, hs') else (SUCCESS, hs_record hs', hs')))"

text \<open>The loop of a caller that reads the scan to its end.\<close>

partial_function (option) scan_records ::
  "(rid \<Rightarrow> byte list \<Rightarrow> bool) \<Rightarrow> (rid \<Rightarrow> byte list \<Rightarrow> RC) option \<Rightarrow> page_store \<Rightarrow> heap_scanner \<Rightarrow>
   (RC \<times> (rid \<times> byte list) list) option" where
  "scan_records filt visit S hs =
    Option.bind (scanner_next filt visit S hs) (\<lambda>(rc, rec, hs').
      if OB_FAIL rc then Some (rc, [])
      else Option.bind (scan_records filt visit S hs') (\<lambda>(rc', rs). Some (rc', the rec # rs)))"

section \<open>What a scan returns\<close>

text \<open>The records of a page from a slot on, in slot order, and those of a list of pages.\<close>

definition slot_record :: "record_page \<Rightarrow> nat \<Rightarrow> (rid \<times> byte list) list" where
  "slot_record p i =
    (case slot_map p i of None \<Rightarrow> [] | Some data \<Rightarrow> [(\<lparr> rid_page_num = rp_num p, rid_slot_num = int i \<rparr>, data)])"

definition records_from :: "record_page \<Rightarrow> nat \<Rightarrow> (rid \<times> byte list) list" where
  "records_from p s = concat (map (slot_record p) [s..<nat (record_capacity (rp_header p))])"

definition records_of :: "page_store \<Rightarrow> page_num list \<Rightarrow> (rid \<times> byte list) list" where
  "records_of S ns = concat (map (\<lambda>n. records_from (the (S n)) 0) ns)"

definition selected :: "(rid \<Rightarrow> byte list \<Rightarrow> bool) \<Rightarrow> (rid \<Rightarrow> byte list \<Rightarrow> RC) option \<Rightarrow> rid \<times> byte list \<Rightarrow> bool" where
  "selected filt visit r \<longleftrightarrow> filt (fst r) (snd r) \<and> (visit = None \<or> the visit (fst r) (snd r) \<noteq> RECORD_INVISIBLE)"

definition visit_rc :: "(rid \<Rightarrow> byte list \<Rightarrow> RC) option \<Rightarrow> rid \<times> byte list \<Rightarrow> RC" where
  "visit_rc visit r = (if visit = None then SUCCESS else the visit (fst r) (snd r))"

lemma records_from_skip:
  assumes "s \<le> t" "t \<le> nat (record_capacity (rp_header p))" "\<And>j. s \<le> j \<Longrightarrow> j < t \<Longrightarrow> slot_map p j = None"
  shows "records_from p s = records_from p t"
proof -
  have "[s..<nat (record_capacity (rp_header p))] = [s..<t] @ [t..<nat (record_capacity (rp_header p))]"
    using assms(1,2) by (metis le_add_diff_inverse upt_add_eq_append)
  moreover have "concat (map (slot_record p) [s..<t]) = []" using assms(3) by (auto simp: slot_record_def)
  ultimately show ?thesis by (simp add: records_from_def)
qed

text \<open>An iterator that stands at the first record from slot \<open>s\<close> on.\<close>

abbreviation iterator_at :: "record_page \<Rightarrow> nat \<Rightarrow> page_iterator" where
  "iterator_at p s \<equiv> page_iterator_init ROW_FORMAT s p"

lemma iterator_end:
  assumes "\<not> page_iterator_has_next (iterator_at p s)"
  shows "records_from p s = []"
proof -
  have "List.find (bitmap_get_bit (slot_bits p)) [s..<nat (record_capacity (rp_header p))] = None"
    using assms by (cases "List.find (bitmap_get_bit (slot_bits p)) [s..<nat (record_capacity (rp_header p))]")
      (simp_all add: page_iterator_has_next_def page_iterator_init_def next_setted_find)
  then show ?thesis by (auto simp: records_from_def slot_record_def slot_map_def find_None_iff)
qed

lemma iterator_step:
  assumes "page_iterator_has_next (iterator_at p s)"
  obtains i data where "s \<le> i" "i < nat (record_capacity (rp_header p))"
    "page_iterator_next (iterator_at p s) old =
       (SUCCESS, Some (\<lparr> rid_page_num = rp_num p, rid_slot_num = int i \<rparr>, data), iterator_at p (Suc i))"
    "records_from p s = (\<lparr> rid_page_num = rp_num p, rid_slot_num = int i \<rparr>, data) # records_from p (Suc i)"
proof -
  let ?n = "nat (record_capacity (rp_header p))"
  obtain i where find: "List.find (bitmap_get_bit (slot_bits p)) [s..<?n] = Some i"
    using assms by (cases "List.find (bitmap_get_bit (slot_bits p)) [s..<?n]")
      (simp_all add: page_iterator_has_next_def page_iterator_init_def next_setted_find)
  from find_upt_SomeD [OF find] have i: "s \<le> i" "i < ?n" "bitmap_get_bit (slot_bits p) i"
    "\<And>j. s \<le> j \<Longrightarrow> j < i \<Longrightarrow> \<not> bitmap_get_bit (slot_bits p) j" by auto
  then obtain data where data: "slot_map p i = Some data" by (simp add: slot_map_def)
  have first: "next_setted_bit (slot_bits p) s = int i" using find by (simp add: next_setted_find)
  have "nat (int i + 1) = Suc i" by simp
  then have "page_iterator_next (iterator_at p s) old =
       (SUCCESS, Some (\<lparr> rid_page_num = rp_num p, rid_slot_num = int i \<rparr>, data), iterator_at p (Suc i))"
    using data i(2) get_slot [of i p] first
    by (simp add: page_iterator_next_def page_iterator_init_def get_record_def Let_def)
  moreover have "records_from p s = records_from p i"
    using i by (intro records_from_skip) (auto simp: slot_map_def)
  moreover have "records_from p i = slot_record p i @ records_from p (Suc i)"
    using i(2) by (simp add: records_from_def upt_conv_Cons)
  ultimately show thesis using that [of i data] i(1,2) data by (simp add: slot_record_def)
qed

text \<open>The loop over a page stops at the first selected record, or at the end of the page.\<close>

lemma fetch_in_page:
  "(\<exists>s'. records_from p s' = [] \<and> filter (selected filt visit) (records_from p s) = [] \<and>
      fetch_next_record_in_page filt visit (iterator_at p s) old = Some (RECORD_EOF, None, iterator_at p s')) \<or>
   (\<exists>s' r. filter (selected filt visit) (records_from p s) = r # filter (selected filt visit) (records_from p s') \<and>
      fetch_next_record_in_page filt visit (iterator_at p s) old = Some (visit_rc visit r, Some r, iterator_at p s'))"
proof (induction "nat (record_capacity (rp_header p)) - s" arbitrary: s old rule: less_induct)
  case less
  note unfold = fetch_next_record_in_page.simps [of filt visit "iterator_at p s" old]
  show ?case
  proof (cases "page_iterator_has_next (iterator_at p s)")
    case False
    with iterator_end [OF False] show ?thesis by (intro disjI1 exI [of _ s]) (simp add: unfold)
  next
    case True
    from iterator_step [OF True, of old] obtain i data where i: "s \<le> i" "i < nat (record_capacity (rp_header p))"
      "page_iterator_next (iterator_at p s) old =
         (SUCCESS, Some (\<lparr> rid_page_num = rp_num p, rid_slot_num = int i \<rparr>, data), iterator_at p (Suc i))"
      "records_from p s = (\<lparr> rid_page_num = rp_num p, rid_slot_num = int i \<rparr>, data) # records_from p (Suc i)" .
    let ?r = "(\<lparr> rid_page_num = rp_num p, rid_slot_num = int i \<rparr>, data)"
    show ?thesis
    proof (cases "selected filt visit ?r")
      case True
      then have "fetch_next_record_in_page filt visit (iterator_at p s) old =
          Some (visit_rc visit ?r, Some ?r, iterator_at p (Suc i))"
        using \<open>page_iterator_has_next _\<close> i(3) by (auto simp: unfold selected_def visit_rc_def)
      then show ?thesis using True i(4) by auto
    next
      case False
      then have "fetch_next_record_in_page filt visit (iterator_at p s) old =
          fetch_next_record_in_page filt visit (iterator_at p (Suc i)) (Some ?r)"
        using \<open>page_iterator_has_next _\<close> i(3) by (auto simp: unfold selected_def)
      moreover have "nat (record_capacity (rp_header p)) - Suc i < nat (record_capacity (rp_header p)) - s"
        using i(1,2) by simp
      ultimately show ?thesis using less [of "Suc i" "Some ?r"] False i(4) by simp
    qed
  qed
qed

text \<open>\<open>scan_at S hs rs\<close>: the scanner has the records \<open>rs\<close> still before it.\<close>

definition scan_at :: "page_store \<Rightarrow> heap_scanner \<Rightarrow> (rid \<times> byte list) list \<Rightarrow> bool" where
  "scan_at S hs rs \<longleftrightarrow> hs_format hs = ROW_FORMAT \<and> (\<forall>n \<in> set (bp_iterate (hs_pages hs)). S n \<noteq> None) \<and>
     (hs_iter hs = None \<and> rs = records_of S (bp_iterate (hs_pages hs)) \<or>
      (\<exists>p s. hs_iter hs = Some (iterator_at p s) \<and> rs = records_from p s @ records_of S (bp_iterate (hs_pages hs))))"

text \<open>\<open>fetched\<close>: a call returned the first selected record of \<open>rs\<close>, or none is left.\<close>

definition fetched ::
  "(rid \<Rightarrow> byte list \<Rightarrow> bool) \<Rightarrow> (rid \<Rightarrow> byte list \<Rightarrow> RC) option \<Rightarrow> page_store \<Rightarrow> (rid \<times> byte list) list \<Rightarrow>
   (RC \<times> heap_scanner) option \<Rightarrow> bool" where
  "fetched filt visit S rs res \<longleftrightarrow>
     filter (selected filt visit) rs = [] \<and> (\<exists>hs'. res = Some (RECORD_EOF, hs')) \<or>
     (\<exists>r rs' hs'. filter (selected filt visit) rs = r # filter (selected filt visit) rs' \<and>
        res = Some (visit_rc visit r, hs') \<and> hs_record hs' = Some r \<and> scan_at S hs' rs')"

lemma bp_iterate_cases:
  "bp_iterate it = [] \<Longrightarrow> \<not> bp_iterator_has_next it"
  "bp_iterate it = n # ns \<Longrightarrow> bp_iterator_has_next it \<and> (\<exists>it'. bp_iterator_next it = (n, it') \<and> bp_iterate it' = ns)"
  by (simp_all add: bp_iterate.simps [of it] split: if_splits prod.splits)

lemma fetch_from_pages_fetched:
  assumes "hs_format hs = ROW_FORMAT" "\<forall>n \<in> set (bp_iterate (hs_pages hs)). S n \<noteq> None"
    and "\<And>r. visit_rc visit r \<noteq> RECORD_EOF"
  shows "fetched filt visit S (records_of S (bp_iterate (hs_pages hs))) (fetch_from_pages filt visit S hs)"
  using assms(1,2)
proof (induction "bp_iterate (hs_pages hs)" arbitrary: hs)
  case Nil
  then show ?case
    using bp_iterate_cases(1) [of "hs_pages hs"]
    by (simp add: fetched_def records_of_def fetch_from_pages.simps [of _ _ _ hs])
next
  case (Cons n ns)
  from bp_iterate_cases(2) [OF Cons.hyps(2) [symmetric]] obtain it' where it: "bp_iterator_has_next (hs_pages hs)"
    "bp_iterator_next (hs_pages hs) = (n, it')" "bp_iterate it' = ns" by blast
  from Cons.prems(2) Cons.hyps(2) [symmetric] obtain p where p: "S n = Some p" and rest: "\<forall>m \<in> set ns. S m \<noteq> None" by auto
  have recs: "records_of S (bp_iterate (hs_pages hs)) = records_from p 0 @ records_of S ns"
    by (simp add: Cons.hyps(2) [symmetric] records_of_def p)
  note unfold = fetch_from_pages.simps [of filt visit S hs]
  from fetch_in_page [of p filt visit 0 "hs_record hs"] show ?case
  proof (elim disjE exE conjE)
    fix s'
    assume page: "filter (selected filt visit) (records_from p 0) = []"
      "fetch_next_record_in_page filt visit (iterator_at p 0) (hs_record hs) = Some (RECORD_EOF, None, iterator_at p s')"
    let ?hs = "hs \<lparr> hs_pages := it', hs_iter := Some (iterator_at p s'), hs_record := None \<rparr>"
    have "fetch_from_pages filt visit S hs = fetch_from_pages filt visit S ?hs"
      using it p page(2) Cons.prems(1) by (simp add: unfold)
    moreover have "fetched filt visit S (records_of S ns) (fetch_from_pages filt visit S ?hs)"
      using Cons.hyps(1) [of ?hs] Cons.prems(1) it(3) rest by simp
    ultimately show ?thesis unfolding recs fetched_def by (simp add: page(1))
  next
    fix s' r
    assume page: "filter (selected filt visit) (records_from p 0) = r # filter (selected filt visit) (records_from p s')"
      "fetch_next_record_in_page filt visit (iterator_at p 0) (hs_record hs) = Some (visit_rc visit r, Some r, iterator_at p s')"
    let ?hs = "hs \<lparr> hs_pages := it', hs_iter := Some (iterator_at p s'), hs_record := Some r \<rparr>"
    have "fetch_from_pages filt visit S hs = Some (visit_rc visit r, ?hs)"
      using it p page(2) Cons.prems(1) assms(3) [of r] by (simp add: unfold)
    moreover have "scan_at S ?hs (records_from p s' @ records_of S ns)"
      using Cons.prems(1) it(3) rest by (auto simp: scan_at_def)
    ultimately show ?thesis unfolding recs fetched_def
      by (intro disjI2 exI [of _ r] exI [of _ "records_from p s' @ records_of S ns"] exI [of _ ?hs]) (simp add: page(1))
  qed
qed

lemma fetch_next_record_fetched:
  assumes at: "scan_at S hs rs" and eof: "\<And>r. visit_rc visit r \<noteq> RECORD_EOF"
  shows "fetched filt visit S rs (fetch_next_record filt visit S hs)"
proof (cases "hs_iter hs")
  case None
  with at fetch_from_pages_fetched [of hs S visit filt, OF _ _ eof] show ?thesis
    by (simp add: scan_at_def fetch_next_record_def)
next
  case (Some it)
  with at obtain p s where it: "it = iterator_at p s" and rs: "rs = records_from p s @ records_of S (bp_iterate (hs_pages hs))"
    and row: "hs_format hs = ROW_FORMAT" and pages: "\<forall>n \<in> set (bp_iterate (hs_pages hs)). S n \<noteq> None"
    by (auto simp: scan_at_def)
  from fetch_in_page [of p filt visit s "hs_record hs"] show ?thesis
  proof (elim disjE exE conjE)
    fix s'
    assume page: "filter (selected filt visit) (records_from p s) = []"
      "fetch_next_record_in_page filt visit (iterator_at p s) (hs_record hs) = Some (RECORD_EOF, None, iterator_at p s')"
    let ?hs = "hs \<lparr> hs_iter := Some (iterator_at p s'), hs_record := None \<rparr>"
    have "fetch_next_record filt visit S hs = fetch_from_pages filt visit S ?hs"
      using page(2) by (simp add: fetch_next_record_def Some it Let_def)
    with fetch_from_pages_fetched [of ?hs S visit filt, OF _ _ eof] row pages page(1) show ?thesis
      by (simp add: rs fetched_def)
  next
    fix s' r
    assume page: "filter (selected filt visit) (records_from p s) = r # filter (selected filt visit) (records_from p s')"
      "fetch_next_record_in_page filt visit (iterator_at p s) (hs_record hs) = Some (visit_rc visit r, Some r, iterator_at p s')"
    let ?rs = "records_from p s' @ records_of S (bp_iterate (hs_pages hs))"
    let ?hs = "hs \<lparr> hs_iter := Some (iterator_at p s'), hs_record := Some r \<rparr>"
    have "fetch_next_record filt visit S hs = Some (visit_rc visit r, ?hs)"
      using page(2) eof [of r] by (simp add: fetch_next_record_def Some it Let_def)
    moreover have "scan_at S ?hs ?rs" using row pages by (auto simp: scan_at_def)
    ultimately show ?thesis unfolding rs fetched_def
      by (intro disjI2 exI [of _ r] exI [of _ ?rs] exI [of _ ?hs]) (simp add: page(1))
  qed
qed

text \<open>
  A scan returns the selected records up to the first one whose visit fails; the code of that visit
  ends it, and \<open>RECORD_EOF\<close> when there is none.
\<close>

lemma scan_records_eq:
  assumes "scan_at S hs rs" and eof: "\<And>r. visit_rc visit r \<noteq> RECORD_EOF"
  shows "scan_records filt visit S hs =
    (let sel = filter (selected filt visit) rs; good = (\<lambda>r. visit_rc visit r = SUCCESS)
     in Some (case dropWhile good sel of [] \<Rightarrow> RECORD_EOF | r # _ \<Rightarrow> visit_rc visit r, takeWhile good sel))"
  using assms(1)
proof (induction "length (filter (selected filt visit) rs)" arbitrary: hs rs rule: less_induct)
  case less
  note unfold = scan_records.simps [of filt visit S hs] scanner_next_def
  from fetch_next_record_fetched [OF less.prems eof, of filt] show ?case unfolding fetched_def
  proof (elim disjE exE conjE)
    fix hs' assume "filter (selected filt visit) rs = []" "fetch_next_record filt visit S hs = Some (RECORD_EOF, hs')"
    then show ?thesis by (simp add: unfold rc_simps)
  next
    fix r rs' hs'
    assume f: "filter (selected filt visit) rs = r # filter (selected filt visit) rs'"
      "fetch_next_record filt visit S hs = Some (visit_rc visit r, hs')" "hs_record hs' = Some r" "scan_at S hs' rs'"
    show ?thesis
    proof (cases "visit_rc visit r = SUCCESS")
      case True
      with f less.hyps [of rs' hs'] show ?thesis by (simp add: unfold rc_simps Let_def)
    next
      case False
      with f show ?thesis by (simp add: unfold rc_simps Let_def)
    qed
  qed
qed

section \<open>The file as a map\<close>

definition file_map :: "record_file \<Rightarrow> rid \<Rightarrow> byte list option" where
  "file_map rf r =
    (case rf_pages rf (rid_page_num r) of
       None \<Rightarrow> None
     | Some p \<Rightarrow> if rid_slot_num r < 0 then None else slot_map p (nat (rid_slot_num r)))"

definition record_page_ok :: "int \<Rightarrow> page_num \<Rightarrow> record_page \<Rightarrow> bool" where
  "record_page_ok sz n p \<longleftrightarrow> rp_num p = n \<and> page_wf p \<and> record_real_size (rp_header p) = sz"

text \<open>
  The pages of the file are the allocated pages of the pool, page 0 apart, and every page with room
  is in the set of free pages.
\<close>

definition file_wf :: "int \<Rightarrow> record_file \<Rightarrow> bool" where
  "file_wf sz rf \<longleftrightarrow> bp_wf (rf_pool rf) \<and> rl_format (rf_logger rf) = ROW_FORMAT \<and>
     0 < sz \<and> sz \<le> 4000 \<and> length (rf_fields rf) \<le> 900 \<and>
     dom (rf_pages rf) = int ` (live_pages (rf_pool rf) - {0}) \<and>
     (\<forall>n p. rf_pages rf n = Some p \<longrightarrow> record_page_ok sz n p) \<and>
     set (rf_free rf) \<subseteq> dom (rf_pages rf) \<and>
     (\<forall>n p. rf_pages rf n = Some p \<longrightarrow> \<not> is_full p \<longrightarrow> n \<in> set (rf_free rf))"

lemma set_free_insert [simp]: "set_insertion place \<Longrightarrow> set (free_insert place n ns) = insert n (set ns)"
  by (auto simp: free_insert_def set_insertion_def)

lemma append_record_log_format [simp]: "rl_format (snd (append_record_log x (p, lg))) = rl_format lg"
  by (simp add: append_record_log_def Let_def split: option.split prod.split)

lemma append_record_log_fmt: "append_record_log x (p, lg) = (q, lg') \<Longrightarrow> rl_format lg' = rl_format lg"
  using append_record_log_format [of x p lg] by simp

lemma row_ops_keep:
  "row_insert_record data (p, lg) = Some (rc, slot, p', lg') \<Longrightarrow> rl_format lg' = rl_format lg"
  "row_delete_record i (p, lg) = (rc, p', lg') \<Longrightarrow> rl_format lg' = rl_format lg \<and> rp_num p' = rp_num p \<and>
     record_real_size (rp_header p') = record_real_size (rp_header p)"
  "row_update_record i data (p, lg) = (rc, p', lg') \<Longrightarrow> rl_format lg' = rl_format lg \<and> rp_num p' = rp_num p \<and>
     rp_header p' = rp_header p"
  by (auto simp: row_insert_record_def row_delete_record_def row_update_record_def record_logs Let_def
      split: if_splits prod.splits dest: append_record_log_fmt append_record_log_eq)

lemma init_empty_page_keep:
  "init_empty_page rec_size field_lens (p, lg) = Some (rc, p', lg') \<Longrightarrow> rl_format lg' = rl_format lg"
  by (auto simp: init_empty_page_def record_logs Let_def split: Option.bind_splits dest: append_record_log_fmt)

lemma slot_map_length:
  assumes wf: "page_wf p" and d: "slot_map p i = Some d"
  shows "length d = nat (record_real_size (rp_header p))"
proof -
  have i: "i < nat (record_capacity (rp_header p))" using d by (simp add: slot_map_def split: if_splits)
  have "layout_ok (rp_header p)" "length (rp_bytes p) = BP_PAGE_DATA_SIZE" using wf by (simp_all add: page_wf_def)
  with slot_offset(1) [OF _ i] d show ?thesis by (auto simp: slot_map_def read_at_def split: if_splits)
qed

lemma is_full_room: "page_wf p \<Longrightarrow> \<not> is_full p \<longleftrightarrow> record_num (rp_header p) \<noteq> record_capacity (rp_header p)"
  using slots.used_le [of "slot_bits p"] by (auto simp: page_wf_def layout_ok_def is_full_def)

text \<open>Replacing one page, or adding one.\<close>

lemma file_wf_put:
  assumes wf: "file_wf sz rf" and p: "record_page_ok sz n p" "n \<in> dom (rf_pages rf)"
    and room: "\<not> is_full p \<longrightarrow> n \<in> set (rf_free rf)" and fmt: "rl_format lg = ROW_FORMAT"
  shows "file_wf sz (rf \<lparr> rf_pages := (rf_pages rf)(n \<mapsto> p), rf_logger := lg \<rparr>)"
  using assms unfolding file_wf_def by (auto simp: insert_absorb)

lemma file_map_put:
  assumes p: "rf_pages rf n = Some p" and upd: "slot_map p' = (slot_map p)(i := v)"
  shows "file_map (rf \<lparr> rf_pages := (rf_pages rf)(n \<mapsto> p'), rf_logger := lg \<rparr>) =
    (file_map rf)(\<lparr> rid_page_num = n, rid_slot_num = int i \<rparr> := v)"
proof
  fix r :: rid
  obtain m s where r: "r = \<lparr> rid_page_num = m, rid_slot_num = s \<rparr>" by (cases r) auto
  show "file_map (rf \<lparr> rf_pages := (rf_pages rf)(n \<mapsto> p'), rf_logger := lg \<rparr>) r =
      ((file_map rf)(\<lparr> rid_page_num = n, rid_slot_num = int i \<rparr> := v)) r"
    using p by (auto simp: file_map_def r upd nat_eq_iff)
qed

lemma find_page_with_room_spec:
  assumes "set ns \<subseteq> dom S"
  shows "find_page_with_room ns S = (SUCCESS, None, []) \<and> (\<forall>n \<in> set ns. is_full (the (S n))) \<or>
    (\<exists>n p ms. find_page_with_room ns S = (SUCCESS, Some n, n # ms) \<and> S n = Some p \<and> \<not> is_full p \<and>
       set (n # ms) \<subseteq> set ns \<and> (\<forall>m \<in> set ns - set (n # ms). is_full (the (S m))))"
  using assms
proof (induction ns)
  case (Cons m ns)
  then obtain p where p: "S m = Some p" by auto
  show ?case
  proof (cases "is_full p")
    case True
    with p Cons show ?thesis by (auto 4 4)
  next
    case False
    with p show ?thesis by auto
  qed
qed simp

lemma insert_into_page_ok:
  assumes wf: "file_wf sz rf" and p: "rf_pages rf n = Some p" "\<not> is_full p" and len: "length data = nat sz"
    and n: "n \<in> set (rf_free rf)"
  obtains r rf' where "insert_into_page data n p rf = Some (SUCCESS, Some r, rf')" "file_wf sz rf'"
    "file_map rf r = None" "file_map rf' = (file_map rf)(r \<mapsto> data)"
proof -
  have ok: "page_wf p" "rp_num p = n" "record_real_size (rp_header p) = sz" and fmt: "rl_format (rf_logger rf) = ROW_FORMAT"
    using wf p(1) by (auto simp: file_wf_def record_page_ok_def)
  have room: "record_num (rp_header p) \<noteq> record_capacity (rp_header p)" using p(2) is_full_room [OF ok(1)] by simp
  from insert_into_slot [OF ok(1) _ room, of data "rf_logger rf"] len ok(3) obtain i p' lg' where
    ins: "row_insert_record data (p, rf_logger rf) = Some (SUCCESS, Some (int i), p', lg')" "slot_map p i = None"
      "page_wf p'" "slot_map p' = (slot_map p)(i \<mapsto> data)" "rp_num p' = rp_num p"
      "record_real_size (rp_header p') = record_real_size (rp_header p)" by metis
  let ?r = "\<lparr> rid_page_num = n, rid_slot_num = int i \<rparr>"
  let ?rf = "rf \<lparr> rf_pages := (rf_pages rf)(n \<mapsto> p'), rf_logger := lg' \<rparr>"
  have "insert_into_page data n p rf = Some (SUCCESS, Some ?r, ?rf)"
    using ins(1) fmt by (simp add: insert_into_page_def insert_record_def)
  moreover have "file_wf sz ?rf"
    using ins(3,5,6) ok p(1) n row_ops_keep(1) [OF ins(1)] fmt
    by (intro file_wf_put [OF wf]) (auto simp: record_page_ok_def)
  moreover have "file_map rf ?r = None" using p(1) ins(2) by (simp add: file_map_def)
  moreover have "file_map ?rf = (file_map rf)(?r \<mapsto> data)"
    by (rule file_map_put [OF p(1) ins(4)])
  ultimately show thesis by (rule that)
qed

text \<open>A page that extends the file.\<close>

lemma new_page_ok:
  assumes pl [simp]: "set_insertion place" and wf: "file_wf sz rf" and new: "allocate_page (\<lambda>_. SUCCESS) (rf_pool rf) = (rc, Some i, bp)"
  obtains p lg where "rc = SUCCESS"
    "init_empty_page sz (rf_fields rf) (allocated_frame (int i) (rf_pages rf), rf_logger rf) = Some (SUCCESS, p, lg)"
    "\<not> is_full p" "rl_format lg = ROW_FORMAT"
    "file_wf sz (rf \<lparr> rf_pool := bp, rf_pages := (rf_pages rf)(int i \<mapsto> p), rf_logger := lg,
                     rf_free := free_insert place (int i) (rf_free rf) \<rparr>)"
    "file_map (rf \<lparr> rf_pool := bp, rf_pages := (rf_pages rf)(int i \<mapsto> p), rf_logger := lg,
                    rf_free := free_insert place (int i) (rf_free rf) \<rparr>) = file_map rf"
proof -
  have bw: "bp_wf (rf_pool rf)" and dom: "dom (rf_pages rf) = int ` (live_pages (rf_pool rf) - {0})"
    and sz: "0 < sz" "sz \<le> 4000" "length (rf_fields rf) \<le> 900" and fmt: "rl_format (rf_logger rf) = ROW_FORMAT"
    using wf by (auto simp: file_wf_def)
  note a = bp_pages.alloc_some [OF bw new] and nz = bp_pages.alloc_nonzero [OF bw new]
  have fresh: "rf_pages rf (int i) = None"
  proof (rule ccontr)
    assume "rf_pages rf (int i) \<noteq> None"
    then have "int i \<in> int ` (live_pages (rf_pool rf) - {0})" using dom by blast
    with a show False by auto
  qed
  let ?f = "allocated_frame (int i) (rf_pages rf)"
  have f: "length (rp_bytes ?f) = BP_PAGE_DATA_SIZE" "rp_num ?f = int i" using fresh by (simp_all add: allocated_frame_def)
  from init_empty_page_ok [OF f(1) sz, of "rf_logger rf"] obtain p lg where
    p: "init_empty_page sz (rf_fields rf) (?f, rf_logger rf) = Some (SUCCESS, p, lg)" "page_wf p" "slot_map p = Map.empty"
      "record_real_size (rp_header p) = sz" "rp_num p = rp_num ?f" "0 < record_capacity (rp_header p)" .
  have lg: "rl_format lg = ROW_FORMAT" using init_empty_page_keep [OF p(1)] fmt by simp
  have "\<exists>j < nat (record_capacity (rp_header p)). slot_map p j = None" using p(3,6) by (intro exI [of _ 0]) simp
  then have room: "\<not> is_full p" using page_full_iff [OF p(2)] is_full_room [OF p(2)] by blast
  have ok: "record_page_ok sz (int i) p" using p f(2) by (simp add: record_page_ok_def)
  have wf': "file_wf sz (rf \<lparr> rf_pool := bp, rf_pages := (rf_pages rf)(int i \<mapsto> p), rf_logger := lg,
      rf_free := free_insert place (int i) (rf_free rf) \<rparr>)"
    using wf a ok lg nz unfolding file_wf_def by auto
  have map': "file_map (rf \<lparr> rf_pool := bp, rf_pages := (rf_pages rf)(int i \<mapsto> p), rf_logger := lg,
      rf_free := free_insert place (int i) (rf_free rf) \<rparr>) = file_map rf"
    using fresh p(3) by (auto simp: file_map_def fun_eq_iff)
  from that [OF _ p(1) room lg wf' map'] a show thesis by blast
qed

text \<open>Pages known to be full may leave the set of free pages.\<close>

lemma file_wf_free:
  assumes "file_wf sz rf" "set ns \<subseteq> set (rf_free rf)" "\<forall>m \<in> set (rf_free rf) - set ns. is_full (the (rf_pages rf m))"
  shows "file_wf sz (rf \<lparr> rf_free := ns \<rparr>)" "file_map (rf \<lparr> rf_free := ns \<rparr>) = file_map rf"
proof -
  have "n \<in> set ns" if "rf_pages rf n = Some p" "\<not> is_full p" for n p
  proof (rule ccontr)
    assume "n \<notin> set ns"
    moreover have "n \<in> set (rf_free rf)" using assms(1) that unfolding file_wf_def by blast
    ultimately show False using assms(3) that by (metis DiffI option.sel)
  qed
  moreover have "set ns \<subseteq> dom (rf_pages rf)" using assms(1,2) unfolding file_wf_def by (meson subset_trans)
  ultimately show "file_wf sz (rf \<lparr> rf_free := ns \<rparr>)" using assms(1) unfolding file_wf_def by simp
  show "file_map (rf \<lparr> rf_free := ns \<rparr>) = file_map rf" by (simp add: file_map_def fun_eq_iff)
qed

definition file_full :: "record_file \<Rightarrow> bool" where
  "file_full rf \<longleftrightarrow> live_pages (rf_pool rf) = {..<MAX_PAGE_NUM} \<and> (\<forall>p \<in> ran (rf_pages rf). is_full p)"

lemma file_insert_record_ok:
  assumes pl [simp]: "set_insertion place" and wf: "file_wf sz rf" and len: "length data = nat sz"
  shows "case file_insert_record place data sz rf of
      None \<Rightarrow> False
    | Some (rc, rid, rf') \<Rightarrow> file_wf sz rf' \<and>
        (if file_full rf then rc = BUFFERPOOL_NOBUF \<and> rid = None \<and> file_map rf' = file_map rf
         else rc = SUCCESS \<and> (\<exists>r. rid = Some r \<and> file_map rf r = None \<and> file_map rf' = (file_map rf)(r \<mapsto> data)))"
proof -
  have sub: "set (rf_free rf) \<subseteq> dom (rf_pages rf)" using wf unfolding file_wf_def by blast
  from find_page_with_room_spec [OF sub] show ?thesis
  proof (elim disjE exE conjE)
    fix n p ms
    assume found: "find_page_with_room (rf_free rf) (rf_pages rf) = (SUCCESS, Some n, n # ms)" "rf_pages rf n = Some p"
      "\<not> is_full p" "set (n # ms) \<subseteq> set (rf_free rf)" "\<forall>m \<in> set (rf_free rf) - set (n # ms). is_full (the (rf_pages rf m))"
    note fr = file_wf_free [OF wf found(4,5)]
    from insert_into_page_ok [OF fr(1) _ found(3) len] found(2) obtain r rf' where
      "insert_into_page data n p (rf \<lparr> rf_free := n # ms \<rparr>) = Some (SUCCESS, Some r, rf')" "file_wf sz rf'"
      "file_map rf r = None" "file_map rf' = (file_map rf)(r \<mapsto> data)" unfolding fr(2) by auto
    moreover have "\<not> file_full rf" using found(2,3) by (auto simp: file_full_def ran_def)
    ultimately show ?thesis using found(1,2) by (simp add: file_insert_record_def Let_def)
  next
    assume none: "find_page_with_room (rf_free rf) (rf_pages rf) = (SUCCESS, None, [])"
      and full: "\<forall>n \<in> set (rf_free rf). is_full (the (rf_pages rf n))"
    have all: "\<forall>p \<in> ran (rf_pages rf). is_full p" using wf full by (fastforce simp: file_wf_def ran_def)
    have fr: "file_wf sz (rf \<lparr> rf_free := [] \<rparr>)" "file_map (rf \<lparr> rf_free := [] \<rparr>) = file_map rf"
      using file_wf_free [OF wf, of "[]"] full by simp_all
    have bw: "bp_wf (rf_pool rf)" using wf by (simp add: file_wf_def)
    show ?thesis
    proof (cases "live_pages (rf_pool rf) = {..<MAX_PAGE_NUM}")
      case True
      then have "allocate_page (\<lambda>_. SUCCESS) (rf_pool rf) = (BUFFERPOOL_NOBUF, None, rf_pool rf)"
        by (simp add: allocate_page_eq [OF bw])
      then show ?thesis using none fr True all by (simp add: file_insert_record_def file_full_def Let_def)
    next
      case False
      then obtain i bp where new: "allocate_page (\<lambda>_. SUCCESS) (rf_pool (rf \<lparr> rf_free := [] \<rparr>)) = (SUCCESS, Some i, bp)"
        by (simp add: allocate_page_eq [OF bw])
      let ?e = "rf \<lparr> rf_free := [] \<rparr>"
      from new_page_ok [OF pl fr(1) new] obtain p lg where p':
        "init_empty_page sz (rf_fields ?e) (allocated_frame (int i) (rf_pages ?e), rf_logger ?e) = Some (SUCCESS, p, lg)"
        "\<not> is_full p" "file_wf sz (?e \<lparr> rf_pool := bp, rf_pages := (rf_pages ?e)(int i \<mapsto> p), rf_logger := lg,
            rf_free := free_insert place (int i) (rf_free ?e) \<rparr>)"
        "file_map (?e \<lparr> rf_pool := bp, rf_pages := (rf_pages ?e)(int i \<mapsto> p), rf_logger := lg,
            rf_free := free_insert place (int i) (rf_free ?e) \<rparr>) = file_map ?e" by blast
      note p = p'(1,2) [simplified] and wf2 = p'(3) [simplified] and map2 = p'(4) [unfolded fr(2), simplified]
      from insert_into_page_ok [OF wf2 _ p(2) len, of "int i"] obtain r rf' where
        "insert_into_page data (int i) p (rf \<lparr> rf_pool := bp, rf_pages := (rf_pages rf)(int i \<mapsto> p), rf_logger := lg,
            rf_free := free_insert place (int i) [] \<rparr>) = Some (SUCCESS, Some r, rf')" "file_wf sz rf'"
        "file_map rf r = None" "file_map rf' = (file_map rf)(r \<mapsto> data)" unfolding map2 by auto
      then show ?thesis using none new p False
        by (simp add: file_insert_record_def file_full_def Let_def)
    qed
  qed
qed

lemma file_page:
  assumes "file_wf sz rf" "rf_pages rf n = Some p"
  shows "page_wf p" "record_page_ok sz n p" "n \<in> dom (rf_pages rf)" "rl_format (rf_logger rf) = ROW_FORMAT"
    "\<not> is_full p \<Longrightarrow> n \<in> set (rf_free rf)"
  using assms by (auto simp: file_wf_def record_page_ok_def)

text \<open>\<open>rid_in_page\<close>: a RID that names a slot of a page of the file, occupied or not.\<close>

definition rid_in_page :: "record_file \<Rightarrow> rid \<Rightarrow> bool" where
  "rid_in_page rf r \<longleftrightarrow> (\<exists>p. rf_pages rf (rid_page_num r) = Some p \<and>
     0 \<le> rid_slot_num r \<and> rid_slot_num r < record_capacity (rp_header p))"

lemma rid_in_pageE:
  assumes "rid_in_page rf r"
  obtains n p i where "rf_pages rf n = Some p" "r = \<lparr> rid_page_num = n, rid_slot_num = int i \<rparr>"
    "i < nat (record_capacity (rp_header p))" "file_map rf r = slot_map p i"
proof -
  obtain n s where r: "r = \<lparr> rid_page_num = n, rid_slot_num = s \<rparr>" by (cases r) auto
  with assms obtain p where "rf_pages rf n = Some p" "0 \<le> s" "s < record_capacity (rp_header p)"
    by (auto simp: rid_in_page_def)
  then show thesis using that [of n p "nat s"] by (simp add: r file_map_def nat_less_iff)
qed

lemma file_delete_record_ok:
  assumes pl [simp]: "set_insertion place" and wf: "file_wf sz rf" and r: "rid_in_page rf r"
  shows "case file_delete_record place r rf of
      None \<Rightarrow> False
    | Some (rc, rf') \<Rightarrow> file_wf sz rf' \<and> file_map rf' = (file_map rf)(r := None) \<and>
        rc = (if file_map rf r = None then RECORD_NOT_EXIST else SUCCESS)"
proof -
  from r obtain n p i where p: "rf_pages rf n = Some p" and rid: "r = \<lparr> rid_page_num = n, rid_slot_num = int i \<rparr>"
    and i: "i < nat (record_capacity (rp_header p))" and m: "file_map rf r = slot_map p i" by (rule rid_in_pageE)
  note pg = file_page [OF wf p]
  obtain rc p' lg' where del: "row_delete_record i (p, rf_logger rf) = (rc, p', lg')" by (cases "row_delete_record i (p, rf_logger rf)")
  have d: "page_wf p'" "slot_map p' = (slot_map p)(i := None)" "rc = (if slot_map p i = None then RECORD_NOT_EXIST else SUCCESS)"
    using delete_slot [OF pg(1) i, of "rf_logger rf"] by (simp_all add: del)
  have same: "p' = p" if "rc \<noteq> SUCCESS" using del that by (auto simp: row_delete_record_def Let_def split: if_splits)
  have ok: "record_page_ok sz n p'" "rl_format lg' = ROW_FORMAT"
    using row_ops_keep(2) [OF del] pg d(1) by (simp_all add: record_page_ok_def)
  let ?free = "if rc = SUCCESS then free_insert place n (rf_free rf) else rf_free rf"
  let ?rf = "rf \<lparr> rf_pages := (rf_pages rf)(n \<mapsto> p'), rf_logger := lg', rf_free := ?free \<rparr>"
  have "file_delete_record place r rf = Some (rc, ?rf)"
    using i del pg(4) p by (simp add: file_delete_record_def rid delete_record_def Let_def)
  moreover have "file_wf sz ?rf"
  proof -
    have "file_wf sz (rf \<lparr> rf_free := ?free \<rparr>)" using wf pg(3) unfolding file_wf_def by auto
    then have "file_wf sz ((rf \<lparr> rf_free := ?free \<rparr>) \<lparr> rf_pages := (rf_pages (rf \<lparr> rf_free := ?free \<rparr>))(n \<mapsto> p'), rf_logger := lg' \<rparr>)"
      using pg(3,5) same by (intro file_wf_put ok) auto
    moreover have "(rf \<lparr> rf_free := ?free \<rparr>) \<lparr> rf_pages := (rf_pages (rf \<lparr> rf_free := ?free \<rparr>))(n \<mapsto> p'), rf_logger := lg' \<rparr> = ?rf"
      by (cases rf) simp
    ultimately show ?thesis by (rule back_subst)
  qed
  moreover have "file_map ?rf = (file_map rf)(r := None)"
    using file_map_put [OF p d(2), of lg'] by (simp add: rid file_map_def fun_eq_iff)
  ultimately show ?thesis using d(3) m by simp
qed

lemma file_visit_record_ok:
  assumes wf: "file_wf sz rf" and r: "rid_in_page rf r" and upd: "\<And>d. length d = nat sz \<Longrightarrow> length (snd (updater d)) = nat sz"
  shows "case file_visit_record r updater rf of
      None \<Rightarrow> False
    | Some (rc, rf') \<Rightarrow> file_wf sz rf' \<and>
        (case file_map rf r of
           None \<Rightarrow> rc = RECORD_NOT_EXIST \<and> rf' = rf
         | Some d \<Rightarrow> rc = SUCCESS \<and>
             file_map rf' = (if fst (updater d) then (file_map rf)(r \<mapsto> snd (updater d)) else file_map rf))"
proof -
  from r obtain n p i where p: "rf_pages rf n = Some p" and rid: "r = \<lparr> rid_page_num = n, rid_slot_num = int i \<rparr>"
    and i: "i < nat (record_capacity (rp_header p))" and m: "file_map rf r = slot_map p i" by (rule rid_in_pageE)
  note pg = file_page [OF wf p]
  have get: "get_record (rl_format (rf_logger rf)) i p =
      (case slot_map p i of None \<Rightarrow> (RECORD_NOT_EXIST, None) | Some d \<Rightarrow> (SUCCESS, Some d))"
    using i pg(4) by (simp add: get_record_def get_slot)
  show ?thesis
  proof (cases "slot_map p i")
    case None
    with get wf p m show ?thesis by (simp add: file_visit_record_def rid)
  next
    case (Some d)
    obtain u d' where ud: "updater d = (u, d')" by (cases "updater d")
    have real: "record_real_size (rp_header p) = sz" using pg(2) by (simp add: record_page_ok_def)
    have "length d = nat sz" using slot_map_length [OF pg(1) Some] real by simp
    with upd [of d] real have len: "length d' = nat (record_real_size (rp_header p))" by (simp add: ud)
    obtain rc p' lg' where up: "row_update_record i d' (p, rf_logger rf) = (rc, p', lg')"
      by (cases "row_update_record i d' (p, rf_logger rf)")
    have u: "page_wf p'" "rc = SUCCESS" "slot_map p' = (slot_map p)(i \<mapsto> d')"
      using update_slot [OF pg(1) len, of i "rf_logger rf"] i Some by (simp_all add: up)
    have keep: "rl_format lg' = ROW_FORMAT" "record_page_ok sz n p'" "is_full p' = is_full p"
      using row_ops_keep(3) [OF up] pg u(1) by (simp_all add: record_page_ok_def is_full_def)
    have wf': "file_wf sz (rf \<lparr> rf_pages := (rf_pages rf)(n \<mapsto> p'), rf_logger := lg' \<rparr>)"
      using keep pg(3,5) by (intro file_wf_put [OF wf]) auto
    show ?thesis
      using get Some p m ud up u(2) wf wf' pg(4) file_map_put [OF p u(3), of lg']
      by (simp add: file_visit_record_def rid update_record_def Let_def)
  qed
qed

lemma file_get_record_ok:
  assumes wf: "file_wf sz rf" and r: "rid_in_page rf r"
  shows "file_get_record r rf = Some (case file_map rf r of None \<Rightarrow> (RECORD_NOT_EXIST, None) | Some d \<Rightarrow> (SUCCESS, Some d))"
proof -
  from r obtain n p i where p: "rf_pages rf n = Some p" and rid: "r = \<lparr> rid_page_num = n, rid_slot_num = int i \<rparr>"
    and i: "i < nat (record_capacity (rp_header p))" and m: "file_map rf r = slot_map p i" by (rule rid_in_pageE)
  with file_page(4) [OF wf p] show ?thesis by (simp add: file_get_record_def get_record_def get_slot)
qed

text \<open>Every record of the file lies in a page and has the length of the records of the file.\<close>

lemma file_map_in_page:
  assumes wf: "file_wf sz rf" and d: "file_map rf r = Some d"
  shows "rid_in_page rf r" "length d = nat sz"
proof -
  from d obtain p where p: "rf_pages rf (rid_page_num r) = Some p" "0 \<le> rid_slot_num r"
    and slot: "slot_map p (nat (rid_slot_num r)) = Some d"
    by (auto simp: file_map_def split: option.splits if_splits)
  then show "rid_in_page rf r" by (auto simp: rid_in_page_def slot_map_def nat_less_iff split: if_splits)
  have "page_wf p" "record_real_size (rp_header p) = sz"
    using file_page(1,2) [OF wf p(1)] by (simp_all add: record_page_ok_def)
  with slot_map_length [OF _ slot] show "length d = nat sz" by simp
qed

section \<open>Opening and scanning a file\<close>

lemma file_pages:
  assumes wf: "file_wf sz rf"
  shows "set (bp_iterate (bp_iterator_init (rf_pool rf) 1)) = dom (rf_pages rf)"
    "sorted_wrt (<) (bp_iterate (bp_iterator_init (rf_pool rf) 1))"
proof -
  let ?l = "filter (\<lambda>i. i \<in> live_pages (rf_pool rf)) [1..<page_count (file_header (rf_pool rf))]"
  have "filter (bitmap_get_bit (bp_bits (file_header (rf_pool rf)))) [1..<page_count (file_header (rf_pool rf))] = ?l"
    by (rule filter_cong) (auto simp: live_pages_def page_allocated_def)
  then have eq: "bp_iterate (bp_iterator_init (rf_pool rf) 1) = map int ?l"
    by (subst bp_iterate_filter) (auto simp: bp_iterator_init_def)
  have "set ?l = live_pages (rf_pool rf) - {0}"
    by (auto simp: live_pages_def page_allocated_def)
  then show "set (bp_iterate (bp_iterator_init (rf_pool rf) 1)) = dom (rf_pages rf)"
    using wf unfolding eq file_wf_def by simp
  have "sorted_wrt (<) ?l" by (rule sorted_wrt_filter) simp
  then show "sorted_wrt (<) (bp_iterate (bp_iterator_init (rf_pool rf) 1))" unfolding eq by (simp add: sorted_wrt_map)
qed

lemma collect_free_pages_spec:
  assumes pl [simp]: "set_insertion place" and "set ns \<subseteq> dom S"
  shows "\<exists>free'. collect_free_pages place ns S free = (SUCCESS, free') \<and>
    set free' = set free \<union> {n \<in> set ns. \<not> is_full (the (S n))}"
  using assms(2)
proof (induction ns arbitrary: free)
  case (Cons n ns)
  then obtain p where p: "S n = Some p" by auto
  with Cons.IH [of "if \<not> is_full p then free_insert place n free else free"] Cons.prems show ?case by auto
qed simp

lemma record_file_reopen_ok:
  assumes pl [simp]: "set_insertion place" and wf: "file_wf sz rf"
  shows "case record_file_init place (record_file_close (rf \<lparr> rf_open := True \<rparr>)) of (rc, rf') \<Rightarrow>
    rc = SUCCESS \<and> file_wf sz rf' \<and> file_map rf' = file_map rf \<and> rf_pages rf' = rf_pages rf \<and>
    set (rf_free rf') = {n. \<exists>p. rf_pages rf n = Some p \<and> \<not> is_full p}"
proof -
  have sub: "set (bp_iterate (bp_iterator_init (rf_pool rf) 1)) \<subseteq> dom (rf_pages rf)" using file_pages(1) [OF wf] by simp
  have room: "{n \<in> dom (rf_pages rf). \<not> is_full (the (rf_pages rf n))} = {n. \<exists>p. rf_pages rf n = Some p \<and> \<not> is_full p}"
    by (auto simp: domIff)
  from collect_free_pages_spec [OF pl sub, of "[]"] obtain free where
    free: "collect_free_pages place (bp_iterate (bp_iterator_init (rf_pool rf) 1)) (rf_pages rf) [] = (SUCCESS, free)"
      "set free = {n. \<exists>p. rf_pages rf n = Some p \<and> \<not> is_full p}"
    unfolding file_pages(1) [OF wf] room by auto
  have init: "record_file_init place (record_file_close (rf \<lparr> rf_open := True \<rparr>)) =
      (SUCCESS, rf \<lparr> rf_open := True, rf_free := free \<rparr>)"
    using free(1) by (cases rf) (simp add: record_file_init_def record_file_close_def init_free_pages_def)
  have "file_wf sz (rf \<lparr> rf_open := True, rf_free := free \<rparr>)"
  proof -
    have "set free \<subseteq> dom (rf_pages rf)" unfolding free(2) by auto
    then show ?thesis using wf free(2) unfolding file_wf_def by simp
  qed
  moreover have "file_map (rf \<lparr> rf_open := True, rf_free := free \<rparr>) = file_map rf"
    by (simp add: file_map_def fun_eq_iff)
  ultimately show ?thesis using free(2) unfolding init by simp
qed

text \<open>The records of the file in the order of their RIDs.\<close>

abbreviation rid_sorted :: "(rid \<times> byte list) list \<Rightarrow> bool" where
  "rid_sorted rs \<equiv> sorted_wrt (\<lambda>a b. rid_compare (fst a) (fst b) < 0) rs"

lemma records_from_set:
  "set (records_from p s) = {(\<lparr> rid_page_num = rp_num p, rid_slot_num = int i \<rparr>, d) | i d. s \<le> i \<and> slot_map p i = Some d}"
proof -
  have slot: "set (slot_record p i) = {(\<lparr> rid_page_num = rp_num p, rid_slot_num = int i \<rparr>, d) | d. slot_map p i = Some d}" for i
    by (cases "slot_map p i") (simp_all add: slot_record_def)
  have cap: "i < nat (record_capacity (rp_header p))" if "slot_map p i = Some d" for i d
    using that by (simp add: slot_map_def split: if_splits)
  have "set (records_from p s) = (\<Union>i \<in> {s..<nat (record_capacity (rp_header p))}. set (slot_record p i))"
    by (simp add: records_from_def)
  also have "\<dots> = {(\<lparr> rid_page_num = rp_num p, rid_slot_num = int i \<rparr>, d) | i d. s \<le> i \<and> slot_map p i = Some d}"
    unfolding slot using cap by fastforce
  finally show ?thesis .
qed

lemma records_from_sorted: "rid_sorted (records_from p s)"
proof -
  have "rid_sorted (concat (map (slot_record p) is))" if "sorted_wrt (<) is" for "is"
    using that
    by (induction "is") (auto simp: sorted_wrt_append slot_record_def rid_compare_def Let_def split: option.splits)
  then show ?thesis by (simp add: records_from_def)
qed

lemma records_of_sorted:
  assumes "sorted_wrt (<) ns" "\<forall>n \<in> set ns. \<exists>p. S n = Some p \<and> rp_num p = n"
  shows "rid_sorted (records_of S ns)"
  using assms
proof (induction ns)
  case (Cons n ns)
  then obtain p where p: "S n = Some p" "rp_num p = n" by auto
  have page: "\<exists>m \<in> set ns. rid_page_num (fst b) = m" if "b \<in> set (records_of S ns)" for b
  proof -
    from that obtain m where m: "m \<in> set ns" "b \<in> set (records_from (the (S m)) 0)" by (auto simp: records_of_def)
    moreover from m(1) Cons.prems(2) have "rp_num (the (S m)) = m" by force
    ultimately show ?thesis by (auto simp: records_from_set)
  qed
  have "rid_compare (fst a) (fst b) < 0" if "a \<in> set (records_from p 0)" "b \<in> set (records_of S ns)" for a b
  proof -
    have "rid_page_num (fst a) = n" using that(1) p(2) by (auto simp: records_from_set)
    moreover have "n < rid_page_num (fst b)" using page [OF that(2)] Cons.prems(1) by auto
    ultimately show ?thesis by (simp add: rid_compare_def Let_def)
  qed
  moreover have "records_of S (n # ns) = records_from p 0 @ records_of S ns" by (simp add: records_of_def p(1))
  ultimately show ?case using Cons records_from_sorted [of p 0] by (simp add: sorted_wrt_append)
qed (simp add: records_of_def)

lemma records_of_file:
  assumes wf: "file_wf sz rf"
  defines "rs \<equiv> records_of (rf_pages rf) (bp_iterate (bp_iterator_init (rf_pool rf) 1))"
  shows "rid_sorted rs" "(r, d) \<in> set rs \<longleftrightarrow> file_map rf r = Some d"
proof -
  have num: "rp_num p = n" if "rf_pages rf n = Some p" for n p
    using file_page(2) [OF wf that] by (simp add: record_page_ok_def)
  with file_pages [OF wf] show "rid_sorted rs" unfolding rs_def by (intro records_of_sorted) (auto simp: domIff)
  have "(r, d) \<in> set rs \<longleftrightarrow> (\<exists>n \<in> dom (rf_pages rf). (r, d) \<in> set (records_from (the (rf_pages rf n)) 0))"
    unfolding rs_def records_of_def file_pages(1) [OF wf, symmetric] by simp
  also have "\<dots> \<longleftrightarrow> (\<exists>n p i. rf_pages rf n = Some p \<and> r = \<lparr> rid_page_num = n, rid_slot_num = int i \<rparr> \<and> slot_map p i = Some d)"
    using num by (auto simp: records_from_set) (metis option.sel domI)+
  also have "\<dots> \<longleftrightarrow> file_map rf r = Some d"
  proof -
    obtain n s where r: "r = \<lparr> rid_page_num = n, rid_slot_num = s \<rparr>" by (cases r) auto
    show ?thesis
      by (auto simp: file_map_def r split: option.splits if_splits intro!: exI [of _ "nat s"])
  qed
  finally show "(r, d) \<in> set rs \<longleftrightarrow> file_map rf r = Some d" .
qed

section \<open>Runs\<close>

definition new_file :: "int \<Rightarrow> int list \<Rightarrow> record_logger \<Rightarrow> record_file" where
  "new_file bpid field_lens lg =
    \<lparr> rf_open = True, rf_pool = open_new_pool bpid, rf_pages = Map.empty, rf_free = [], rf_logger = lg, rf_fields = field_lens \<rparr>"

inductive file_step :: "int \<Rightarrow> record_file \<Rightarrow> record_file \<Rightarrow> bool" for sz where
  step_insert: "set_insertion place \<Longrightarrow> length data = nat sz \<Longrightarrow> file_insert_record place data sz rf = Some (rc, rid, rf') \<Longrightarrow> file_step sz rf rf'"
| step_delete: "set_insertion place \<Longrightarrow> rid_in_page rf r \<Longrightarrow> file_delete_record place r rf = Some (rc, rf') \<Longrightarrow> file_step sz rf rf'"
| step_visit: "rid_in_page rf r \<Longrightarrow> (\<And>d. length d = nat sz \<Longrightarrow> length (snd (updater d)) = nat sz) \<Longrightarrow>
    file_visit_record r updater rf = Some (rc, rf') \<Longrightarrow> file_step sz rf rf'"
| step_reopen: "set_insertion place \<Longrightarrow> rf_open rf \<Longrightarrow> record_file_init place (record_file_close rf) = (rc, rf') \<Longrightarrow> file_step sz rf rf'"

lemma new_file_wf:
  assumes "0 < sz" "sz \<le> 4000" "length field_lens \<le> 900" "rl_format lg = ROW_FORMAT"
  shows "file_wf sz (new_file bpid field_lens lg)" "file_map (new_file bpid field_lens lg) = Map.empty"
  using assms
  by (simp_all add: file_wf_def new_file_def open_new_pool_wf open_new_pool_live file_map_def fun_eq_iff)

lemma file_step_wf:
  assumes "file_step sz rf rf'" "file_wf sz rf"
  shows "file_wf sz rf'"
  using assms
proof (cases rule: file_step.cases)
  case (step_insert place data rc rid)
  with file_insert_record_ok [OF step_insert(1) assms(2), of data] show ?thesis by simp
next
  case (step_delete place r rc)
  with file_delete_record_ok [OF step_delete(1) assms(2), of r] show ?thesis by simp
next
  case (step_visit r updater rc)
  with file_visit_record_ok [OF assms(2), of r updater] show ?thesis by simp
next
  case (step_reopen place rc)
  have "rf \<lparr> rf_open := True \<rparr> = rf" using step_reopen(2) by (cases rf) simp
  with record_file_reopen_ok [OF step_reopen(1) assms(2)] step_reopen(3) show ?thesis by simp
qed

lemma file_run_wf: "(file_step sz)\<^sup>*\<^sup>* rf rf' \<Longrightarrow> file_wf sz rf \<Longrightarrow> file_wf sz rf'"
  by (induction rule: rtranclp_induct) (auto intro: file_step_wf)

text \<open>A file of the sizes used in examples, with one record.\<close>

definition sample_logger :: record_logger where
  "sample_logger = \<lparr> rl_wal = None, rl_pool = 7, rl_format = ROW_FORMAT, rl_stack = 0 \<rparr>"

definition sample_data :: "byte list" where "sample_data = [1, 2, 3, 4, 5, 6, 7, 8]"

definition sample_place :: set_place where "sample_place n ns = ns @ [n]"

lemma sample_place: "set_insertion sample_place"
  by (simp add: set_insertion_def sample_place_def)

lemma sample_new_file:
  "file_wf 8 (new_file 7 [] sample_logger)" "file_map (new_file 7 [] sample_logger) = Map.empty"
  "length sample_data = nat 8" "\<not> file_full (new_file 7 [] sample_logger)"
proof -
  show "file_wf 8 (new_file 7 [] sample_logger)" "file_map (new_file 7 [] sample_logger) = Map.empty"
    using new_file_wf [of 8 "[]" sample_logger 7] by (simp_all add: sample_logger_def)
  show "length sample_data = nat 8" by (simp add: sample_data_def)
  have "(1::nat) \<in> {..<MAX_PAGE_NUM}" by (simp add: MAX_PAGE_NUM_def BP_PAGE_DATA_SIZE_def BP_PAGE_SIZE_def)
  then show "\<not> file_full (new_file 7 [] sample_logger)" by (auto simp: file_full_def new_file_def open_new_pool_live)
qed

lemma sample_file_exists:
  obtains rf r where "file_insert_record sample_place sample_data 8 (new_file 7 [] sample_logger) = Some (SUCCESS, Some r, rf)"
    "file_wf 8 rf" "file_map rf = [r \<mapsto> sample_data]" "rid_in_page rf r"
proof -
  from file_insert_record_ok [OF sample_place sample_new_file(1,3)] sample_new_file(2,4) obtain rf r where
    rf: "file_insert_record sample_place sample_data 8 (new_file 7 [] sample_logger) = Some (SUCCESS, Some r, rf)"
      "file_wf 8 rf" "file_map rf = [r \<mapsto> sample_data]" by (auto split: option.splits prod.splits)
  then have "file_map rf r = Some sample_data" by simp
  then have "rid_in_page rf r"
    by (auto simp: file_map_def rid_in_page_def slot_map_def split: option.splits if_splits)
  with rf show thesis by (rule that)
qed

section \<open>Properties\<close>

text \<open>
  C17: inserting into a record file finds a page with room, or extends the file, and stores the
  record under a RID that was not in use; no other record changes.  It is refused only when every
  page is full and the file has its maximal number of pages.
\<close>

theorem file_insert_fresh:
  assumes "set_insertion place" "file_wf sz rf" "length data = nat sz"
  shows "case file_insert_record place data sz rf of
      None \<Rightarrow> False
    | Some (rc, rid, rf') \<Rightarrow> file_wf sz rf' \<and>
        (if file_full rf then rc = BUFFERPOOL_NOBUF \<and> rid = None \<and> file_map rf' = file_map rf
         else rc = SUCCESS \<and> (\<exists>r. rid = Some r \<and> file_map rf r = None \<and> file_map rf' = (file_map rf)(r \<mapsto> data)))"
  by (rule file_insert_record_ok [OF assms])

theorem file_insert_fresh_witness:
  "\<exists>r rf'. file_insert_record sample_place sample_data 8 (new_file 7 [] sample_logger) = Some (SUCCESS, Some r, rf') \<and>
     file_map rf' = [r \<mapsto> sample_data]"
  using file_insert_fresh [OF sample_place sample_new_file(1,3)] sample_new_file(2,4) by (auto split: option.splits prod.splits)



text \<open>
  C16: a scan of a record file returns, in the order of the RIDs, exactly the records of the file
  that pass the filter and are visible, each once, up to the first one whose visit fails; that
  code ends the scan, and otherwise it ends with \<open>RECORD_EOF\<close>.  It always ends.
\<close>

theorem heap_scan_complete:
  assumes "file_wf sz rf" "\<And>r. visit_rc visit r \<noteq> RECORD_EOF"
  shows "\<exists>rs. sorted_wrt (\<lambda>a b. rid_compare (fst a) (fst b) < 0) rs \<and>
    (\<forall>r d. (r, d) \<in> set rs \<longleftrightarrow> file_map rf r = Some d) \<and>
    scan_records filt visit (rf_pages rf) (open_scan ROW_FORMAT old rf) =
      (let sel = filter (selected filt visit) rs; good = (\<lambda>r. visit_rc visit r = SUCCESS)
       in Some (case dropWhile good sel of [] \<Rightarrow> RECORD_EOF | r # _ \<Rightarrow> visit_rc visit r, takeWhile good sel))"
proof -
  let ?rs = "records_of (rf_pages rf) (bp_iterate (bp_iterator_init (rf_pool rf) 1))"
  have "scan_at (rf_pages rf) (open_scan ROW_FORMAT old rf) ?rs"
    using file_pages(1) [OF assms(1)] by (auto simp: scan_at_def open_scan_def)
  from scan_records_eq [OF this assms(2), of filt] records_of_file [OF assms(1)] show ?thesis
    by (intro exI [of _ ?rs]) simp
qed

theorem heap_scan_complete_witness:
  "\<exists>rf r. file_insert_record sample_place sample_data 8 (new_file 7 [] sample_logger) = Some (SUCCESS, Some r, rf) \<and>
     scan_records (\<lambda>_ _. True) None (rf_pages rf) (open_scan ROW_FORMAT None rf) = Some (RECORD_EOF, [(r, sample_data)])"
proof -
  obtain rf r where rf: "file_insert_record sample_place sample_data 8 (new_file 7 [] sample_logger) = Some (SUCCESS, Some r, rf)"
    "file_wf 8 rf" "file_map rf = [r \<mapsto> sample_data]" "rid_in_page rf r" by (rule sample_file_exists)
  from heap_scan_complete [OF rf(2), of None "\<lambda>_ _. True" None] obtain rs where
    rs: "sorted_wrt (\<lambda>a b. rid_compare (fst a) (fst b) < 0) rs" "\<forall>q d. (q, d) \<in> set rs \<longleftrightarrow> file_map rf q = Some d"
      "scan_records (\<lambda>_ _. True) None (rf_pages rf) (open_scan ROW_FORMAT None rf) =
        (let sel = filter (selected (\<lambda>_ _. True) None) rs; good = (\<lambda>r. visit_rc None r = SUCCESS)
         in Some (case dropWhile good sel of [] \<Rightarrow> RECORD_EOF | r # _ \<Rightarrow> visit_rc None r, takeWhile good sel))"
    by (auto simp: visit_rc_def)
  have mem: "(q, d) \<in> set rs \<longleftrightarrow> q = r \<and> d = sample_data" for q d using rs(2) rf(3) by auto
  have set: "set rs = {(r, sample_data)}" using mem by (intro set_eqI) (metis insert_iff prod.exhaust prod.inject empty_iff)
  have "distinct rs"
    using rs(1) by (induction rs) (auto simp: rid_compare_def Let_def)
  then have "length rs = 1" using distinct_card [of rs] by (simp add: set)
  then obtain x where "rs = [x]" by (auto simp: length_Suc_conv)
  then have "rs = [(r, sample_data)]" using set by simp
  with rs(3) rf(1) show ?thesis
    by (intro exI [of _ rf] exI [of _ r]) (simp add: selected_def visit_rc_def)
qed

text \<open>
  C20: closing and opening a record file keeps every record and recomputes the set of free pages:
  exactly the pages with room.
\<close>

theorem record_file_reopen:
  assumes "set_insertion place" "file_wf sz rf" "rf_open rf"
  shows "case record_file_init place (record_file_close rf) of (rc, rf') \<Rightarrow>
    rc = SUCCESS \<and> file_wf sz rf' \<and> file_map rf' = file_map rf \<and> rf_pages rf' = rf_pages rf \<and>
    set (rf_free rf') = {n. \<exists>p. rf_pages rf n = Some p \<and> \<not> is_full p}"
proof -
  have "rf \<lparr> rf_open := True \<rparr> = rf" using assms(3) by (cases rf) simp
  with record_file_reopen_ok [OF assms(1,2)] show ?thesis by simp
qed

theorem record_file_reopen_witness:
  "\<exists>rf'. record_file_init sample_place (record_file_close (new_file 7 [] sample_logger)) = (SUCCESS, rf') \<and>
     file_map rf' = Map.empty \<and> rf_free rf' = []"
  using record_file_reopen [OF sample_place sample_new_file(1)] sample_new_file(2)
  by (auto simp: new_file_def split: prod.splits)

text \<open>
  C18: whatever insertions, deletions, visits and reopenings a record file goes through, it stays
  well-formed: its pages are the allocated pages, every page has a sound layout and an exact record
  count, and every page with room is known to the insertion.
\<close>

theorem record_file_invariant:
  assumes "(file_step sz)\<^sup>*\<^sup>* (new_file bpid field_lens lg) rf"
    and "0 < sz" "sz \<le> 4000" "length field_lens \<le> 900" "rl_format lg = ROW_FORMAT"
  shows "file_wf sz rf"
  by (rule file_run_wf [OF assms(1)]) (rule new_file_wf(1) [OF assms(2-5)])

theorem record_file_invariant_witness:
  "\<exists>rf r. (file_step 8)\<^sup>*\<^sup>* (new_file 7 [] sample_logger) rf \<and> file_map rf = [r \<mapsto> sample_data] \<and> file_wf 8 rf"
proof -
  obtain rf r where rf: "file_insert_record sample_place sample_data 8 (new_file 7 [] sample_logger) = Some (SUCCESS, Some r, rf)"
    "file_wf 8 rf" "file_map rf = [r \<mapsto> sample_data]" "rid_in_page rf r" by (rule sample_file_exists)
  have run: "(file_step 8)\<^sup>*\<^sup>* (new_file 7 [] sample_logger) rf"
    by (rule r_into_rtranclp) (rule step_insert [OF sample_place sample_new_file(3) rf(1)])
  have "file_wf 8 rf" by (rule record_file_invariant [OF run]) (simp_all add: sample_logger_def)
  with run rf(3) show ?thesis by blast
qed

end
