(* ===== verification/Heap_Table.thy ===== *)
theory Heap_Table
  imports Record_File
begin

text \<open>
  Model of \<^verbatim>\<open>HeapTableEngine\<close> (\<^verbatim>\<open>storage/table/heap_table_engine.cpp\<close>): a record file with its indexes.
  The indexes are used through the virtual functions of \<^verbatim>\<open>Index\<close>, so an index is a value of any
  type with two operations \<open>ins\<close> and \<open>del\<close>, which get the record and its RID.
\<close>

section \<open>The table\<close>

record 'i heap_table =
  ht_file :: record_file
  ht_indexes :: "'i list"
  ht_record_size :: int

type_synonym 'i index_op = "byte list \<Rightarrow> rid \<Rightarrow> 'i \<Rightarrow> (RC \<times> 'i) option"

text \<open>Both loops stop at an error; the second one only if it is told to ignore missing entries.\<close>

fun insert_entry_of_indexes :: "'i index_op \<Rightarrow> byte list \<Rightarrow> rid \<Rightarrow> 'i list \<Rightarrow> (RC \<times> 'i list) option" where
  "insert_entry_of_indexes ins data r [] = Some (SUCCESS, [])"
| "insert_entry_of_indexes ins data r (i # is) =
    Option.bind (ins data r i) (\<lambda>(rc, i').
      if rc \<noteq> SUCCESS then Some (rc, i' # is)
      else map_option (\<lambda>(rc', is'). (rc', i' # is')) (insert_entry_of_indexes ins data r is))"

fun delete_entry_loop :: "'i index_op \<Rightarrow> byte list \<Rightarrow> rid \<Rightarrow> bool \<Rightarrow> RC \<Rightarrow> 'i list \<Rightarrow> (RC \<times> 'i list) option" where
  "delete_entry_loop del data r error_on_not_exists rc [] = Some (rc, [])"
| "delete_entry_loop del data r error_on_not_exists rc0 (i # is) =
    Option.bind (del data r i) (\<lambda>(rc, i').
      if rc \<noteq> SUCCESS \<and> (rc \<noteq> RECORD_INVALID_KEY \<or> \<not> error_on_not_exists) then Some (rc, i' # is)
      else map_option (\<lambda>(rc', is'). (rc', i' # is')) (delete_entry_loop del data r error_on_not_exists rc is))"

definition delete_entry_of_indexes :: "'i index_op \<Rightarrow> byte list \<Rightarrow> rid \<Rightarrow> bool \<Rightarrow> 'i list \<Rightarrow> (RC \<times> 'i list) option" where
  "delete_entry_of_indexes del data r error_on_not_exists is = delete_entry_loop del data r error_on_not_exists SUCCESS is"

text \<open>The RID of the record is set by the file even when the insertion into an index fails.\<close>

definition table_insert_record ::
  "set_place \<Rightarrow> 'i index_op \<Rightarrow> 'i index_op \<Rightarrow> byte list \<Rightarrow> 'i heap_table \<Rightarrow> (RC \<times> rid option \<times> 'i heap_table) option" where
  "table_insert_record place ins del data tb =
    Option.bind (file_insert_record place data (ht_record_size tb) (ht_file tb)) (\<lambda>(rc, rid, rf).
      let tb1 = tb \<lparr> ht_file := rf \<rparr>
      in if rc \<noteq> SUCCESS then Some (rc, rid, tb1)
         else
           Option.bind (insert_entry_of_indexes ins data (the rid) (ht_indexes tb1)) (\<lambda>(rc, is).
             let tb2 = tb1 \<lparr> ht_indexes := is \<rparr>
             in if rc \<noteq> SUCCESS then
                  Option.bind (delete_entry_of_indexes del data (the rid) False (ht_indexes tb2)) (\<lambda>(rc2, is').
                    Option.bind (file_delete_record place (the rid) (ht_file tb2)) (\<lambda>(rc2, rf').
                      Some (rc, rid, tb2 \<lparr> ht_indexes := is', ht_file := rf' \<rparr>)))
                else Some (rc, rid, tb2)))"

definition table_visit_record ::
  "rid \<Rightarrow> (byte list \<Rightarrow> bool \<times> byte list) \<Rightarrow> 'i heap_table \<Rightarrow> (RC \<times> 'i heap_table) option" where
  "table_visit_record r visitor tb =
    map_option (\<lambda>(rc, rf). (rc, tb \<lparr> ht_file := rf \<rparr>)) (file_visit_record r visitor (ht_file tb))"

definition table_get_record :: "rid \<Rightarrow> 'i heap_table \<Rightarrow> (RC \<times> byte list option) option" where
  "table_get_record r tb = file_get_record r (ht_file tb)"

text \<open>
  The data of a record that is deleted may be missing (a null pointer); the indexes read it.  The
  result is \<open>None\<close> when they do, and when an index does not have the entry (an assertion).
\<close>

fun delete_index_entries :: "'i index_op \<Rightarrow> byte list option \<Rightarrow> rid \<Rightarrow> 'i list \<Rightarrow> 'i list option" where
  "delete_index_entries del data r [] = Some []"
| "delete_index_entries del data r (i # is) =
    Option.bind data (\<lambda>d. Option.bind (del d r i) (\<lambda>(rc, i').
      if rc \<noteq> SUCCESS then None
      else Option.bind (delete_index_entries del data r is) (\<lambda>is'. Some (i' # is'))))"

definition table_delete_record ::
  "set_place \<Rightarrow> 'i index_op \<Rightarrow> byte list option \<Rightarrow> rid \<Rightarrow> 'i heap_table \<Rightarrow> (RC \<times> 'i heap_table) option" where
  "table_delete_record place del data r tb =
    Option.bind (delete_index_entries del data r (ht_indexes tb)) (\<lambda>is.
      Option.bind (file_delete_record place r (ht_file tb)) (\<lambda>(rc, rf).
        Some (rc, tb \<lparr> ht_indexes := is, ht_file := rf \<rparr>)))"

text \<open>
  The loop of \<^verbatim>\<open>create_index\<close> over the records of a scan: it ends with \<open>RECORD_EOF\<close> unless an entry is
  refused, or the scan has failed with \<open>scan_rc\<close>.
\<close>

fun fill_index :: "'i index_op \<Rightarrow> RC \<Rightarrow> (rid \<times> byte list) list \<Rightarrow> 'i \<Rightarrow> (RC \<times> 'i) option" where
  "fill_index ins scan_rc [] i = Some (if scan_rc = RECORD_EOF then SUCCESS else scan_rc, i)"
| "fill_index ins scan_rc ((r, data) # rs) i =
    Option.bind (ins data r i) (\<lambda>(rc, i'). if rc \<noteq> SUCCESS then Some (rc, i') else fill_index ins scan_rc rs i')"

text \<open>\<open>i\<close> is the index that was created on its new file; \<open>visit\<close> is the visit of the transaction.\<close>

definition table_create_index ::
  "'i index_op \<Rightarrow> (rid \<Rightarrow> byte list \<Rightarrow> RC) option \<Rightarrow> scan_record \<Rightarrow> 'i \<Rightarrow> 'i heap_table \<Rightarrow> (RC \<times> 'i heap_table) option" where
  "table_create_index ins visit old i tb =
    Option.bind (scan_records (\<lambda>_ _. True) visit (rf_pages (ht_file tb))
        (open_scan (rl_format (rf_logger (ht_file tb))) old (ht_file tb))) (\<lambda>(scan_rc, rs).
      Option.bind (fill_index ins scan_rc rs i) (\<lambda>(rc, i').
        Some (rc, if rc = SUCCESS then tb \<lparr> ht_indexes := ht_indexes tb @ [i'] \<rparr> else tb)))"

lemma rid_sorted_distinct: "rid_sorted rs \<Longrightarrow> distinct (map fst rs)"
proof (induction rs)
  case (Cons x rs)
  then have "fst x \<notin> fst ` set rs" by (auto simp: rid_compare_def Let_def image_iff)
  with Cons show ?case by simp
qed simp

lemma full_scan:
  assumes wf: "file_wf sz rf"
  shows "\<exists>rs. distinct (map fst rs) \<and> map_of rs = file_map rf \<and>
    scan_records (\<lambda>_ _. True) None (rf_pages rf) (open_scan (rl_format (rf_logger rf)) old rf) = Some (RECORD_EOF, rs)"
proof -
  let ?rs = "records_of (rf_pages rf) (bp_iterate (bp_iterator_init (rf_pool rf) 1))"
  have fmt: "rl_format (rf_logger rf) = ROW_FORMAT" using wf by (simp add: file_wf_def)
  have "scan_at (rf_pages rf) (open_scan ROW_FORMAT old rf) ?rs"
    using file_pages(1) [OF wf] by (auto simp: scan_at_def open_scan_def)
  from scan_records_eq [OF this, of None "\<lambda>_ _. True"]
  have "scan_records (\<lambda>_ _. True) None (rf_pages rf) (open_scan ROW_FORMAT old rf) = Some (RECORD_EOF, ?rs)"
    by (simp add: visit_rc_def selected_def filter_True takeWhile_eq_all_conv [THEN iffD2] dropWhile_eq_Nil_conv [THEN iffD2])
  moreover have rs: "rid_sorted ?rs" "\<forall>r d. (r, d) \<in> set ?rs \<longleftrightarrow> file_map rf r = Some d" using records_of_file [OF wf] by auto
  from rs(1) have d: "distinct (map fst ?rs)" by (rule rid_sorted_distinct)
  have "map_of ?rs = file_map rf"
    using rs(2) d by (intro ext) (metis map_of_eq_Some_iff not_None_eq)
  ultimately show ?thesis using d fmt by auto
qed

section \<open>The contract of an index\<close>

text \<open>
  What a table relies on: \<open>matches i m\<close> says that the index has exactly the entries of the records \<open>m\<close>.
  An insertion that is refused says nothing about the index afterwards.
\<close>

definition refused :: "'i index_op \<Rightarrow> byte list \<Rightarrow> rid \<Rightarrow> 'i \<Rightarrow> bool" where
  "refused ins data r i \<longleftrightarrow> (case ins data r i of None \<Rightarrow> True | Some (rc, _) \<Rightarrow> rc \<noteq> SUCCESS)"

lemma success_not_refused:
  "insert_entry_of_indexes ins data r is = Some (SUCCESS, is') \<Longrightarrow> i \<in> set is \<Longrightarrow> \<not> refused ins data r i"
proof (induction "is" arbitrary: is')
  case (Cons j "is")
  then show ?case by (fastforce simp: refused_def bind_eq_Some_conv split: if_splits option.splits)
qed simp

lemma table_insert_success:
  assumes "table_insert_record place ins del data tb = Some (SUCCESS, rid, tb')"
    "file_insert_record place data (ht_record_size tb) (ht_file tb) = Some (SUCCESS, Some r, rf)"
  shows "\<forall>i \<in> set (ht_indexes tb). \<not> refused ins data r i"
  using assms success_not_refused
  by (fastforce simp: table_insert_record_def bind_eq_Some_conv Let_def split: if_splits)

lemma table_insert_rid:
  assumes "table_insert_record place ins del data tb = Some (rc, rid, tb')"
    "file_insert_record place data (ht_record_size tb) (ht_file tb) = Some (SUCCESS, Some r, rf)"
  shows "rid = Some r"
  using assms by (auto simp: table_insert_record_def bind_eq_Some_conv Let_def split: if_splits)

locale record_index =
  fixes ins :: "'i index_op" and del :: "'i index_op" and matches :: "'i \<Rightarrow> (rid \<Rightarrow> byte list option) \<Rightarrow> bool"
  assumes ins_total: "matches i m \<Longrightarrow> m r = None \<Longrightarrow> ins d r i \<noteq> None"
    and ins_new: "matches i m \<Longrightarrow> m r = None \<Longrightarrow> ins d r i = Some (SUCCESS, i') \<Longrightarrow> matches i' (m(r \<mapsto> d))"
    and del_present: "matches i m \<Longrightarrow> m r = Some d \<Longrightarrow> \<exists>i'. del d r i = Some (SUCCESS, i') \<and> matches i' (m(r := None))"
begin

lemma insert_entries:
  assumes "\<forall>i \<in> set is. matches i m" "m r = None" "\<forall>i \<in> set is. \<not> refused ins d r i"
  shows "\<exists>is'. insert_entry_of_indexes ins d r is = Some (SUCCESS, is') \<and> length is' = length is \<and> (\<forall>i \<in> set is'. matches i (m(r \<mapsto> d)))"
  using assms
proof (induction "is")
  case (Cons i "is")
  from Cons.prems(3) obtain i' where i: "ins d r i = Some (SUCCESS, i')" by (auto simp: refused_def split: option.splits)
  have "\<forall>i \<in> set is. matches i m" "\<forall>i \<in> set is. \<not> refused ins d r i" using Cons.prems by auto
  from Cons.IH [OF this(1) Cons.prems(2) this(2)] obtain is' where
    "insert_entry_of_indexes ins d r is = Some (SUCCESS, is')" "length is' = length is"
    "\<forall>i \<in> set is'. matches i (m(r \<mapsto> d))" by blast
  with i ins_new [of i m r d i'] Cons.prems(1,2) show ?case by (auto simp: fun_upd_def)
qed simp

lemma delete_entries:
  assumes "\<forall>i \<in> set is. matches i m" "m r = Some d"
  shows "\<exists>is'. delete_index_entries del (Some d) r is = Some is' \<and> length is' = length is \<and> (\<forall>i \<in> set is'. matches i (m(r := None)))"
  using assms
proof (induction "is")
  case (Cons i "is")
  from del_present [of i m r d] Cons.prems(1,2) obtain i' where
    "del d r i = Some (SUCCESS, i')" "matches i' (m(r := None))" by auto
  with Cons show ?case by (auto simp: fun_upd_def)
qed simp

lemma fill_records:
  assumes "matches i m" "distinct (map fst rs)" "\<forall>r \<in> set (map fst rs). m r = None"
  shows "\<exists>rc i'. fill_index ins RECORD_EOF rs i = Some (rc, i') \<and> (rc = SUCCESS \<longrightarrow> matches i' (m ++ map_of rs))"
  using assms
proof (induction rs arbitrary: i m)
  case (Cons x rs)
  obtain r d where x: "x = (r, d)" by (cases x)
  have free: "m r = None" using Cons.prems(3) x by simp
  obtain rc i' where i: "ins d r i = Some (rc, i')" using ins_total [OF Cons.prems(1) free, of d] by auto
  show ?case
  proof (cases "rc = SUCCESS")
    case True
    have new: "matches i' (m(r \<mapsto> d))" by (rule ins_new [OF Cons.prems(1) free i [unfolded True]])
    have merge: "m(r \<mapsto> d) ++ map_of rs = m ++ map_of (x # rs)"
      using Cons.prems(2) map_of_eq_None_iff [of rs r] by (auto simp: x map_add_def fun_eq_iff split: option.splits)
    have none: "\<forall>q \<in> set (map fst rs). (m(r \<mapsto> d)) q = None" using Cons.prems(2,3) x by auto
    have "distinct (map fst rs)" using Cons.prems(2) by simp
    from Cons.IH [OF new this none] obtain rc2 i2 where
      "fill_index ins RECORD_EOF rs i' = Some (rc2, i2)" "rc2 = SUCCESS \<longrightarrow> matches i2 (m ++ map_of (x # rs))"
      unfolding merge by blast
    moreover from this(1) i True have "fill_index ins RECORD_EOF (x # rs) i = Some (rc2, i2)" by (simp add: x)
    ultimately show ?thesis by blast
  qed (use i x in simp)
qed simp

text \<open>A table whose indexes match its records.\<close>

definition indexed :: "'i heap_table \<Rightarrow> bool" where
  "indexed tb \<longleftrightarrow> file_wf (ht_record_size tb) (ht_file tb) \<and> (\<forall>i \<in> set (ht_indexes tb). matches i (file_map (ht_file tb)))"

lemma table_insert_indexed:
  assumes tb: "indexed tb" and pl: "set_insertion place" and len: "length data = nat (ht_record_size tb)"
  shows "if file_full (ht_file tb)
    then \<exists>tb'. table_insert_record place ins del data tb = Some (BUFFERPOOL_NOBUF, None, tb') \<and> indexed tb' \<and>
      file_map (ht_file tb') = file_map (ht_file tb)
    else \<exists>r rf. file_insert_record place data (ht_record_size tb) (ht_file tb) = Some (SUCCESS, Some r, rf) \<and>
      file_map (ht_file tb) r = None \<and>
      ((\<exists>i \<in> set (ht_indexes tb). refused ins data r i) \<or>
       (\<exists>tb'. table_insert_record place ins del data tb = Some (SUCCESS, Some r, tb') \<and> indexed tb' \<and>
         file_map (ht_file tb') = (file_map (ht_file tb))(r \<mapsto> data) \<and>
         ht_record_size tb' = ht_record_size tb \<and> length (ht_indexes tb') = length (ht_indexes tb)))"
proof -
  have wf: "file_wf (ht_record_size tb) (ht_file tb)" and m: "\<forall>i \<in> set (ht_indexes tb). matches i (file_map (ht_file tb))"
    using tb by (simp_all add: indexed_def)
  from file_insert_record_ok [OF pl wf len] obtain rc rid rf where
    f: "file_insert_record place data (ht_record_size tb) (ht_file tb) = Some (rc, rid, rf)" "file_wf (ht_record_size tb) rf"
      "if file_full (ht_file tb) then rc = BUFFERPOOL_NOBUF \<and> rid = None \<and> file_map rf = file_map (ht_file tb)
       else rc = SUCCESS \<and> (\<exists>r. rid = Some r \<and> file_map (ht_file tb) r = None \<and> file_map rf = (file_map (ht_file tb))(r \<mapsto> data))"
    by (auto split: option.splits)
  show ?thesis
  proof (cases "file_full (ht_file tb)")
    case True
    with f m show ?thesis by (simp add: table_insert_record_def indexed_def)
  next
    case room: False
    with f(3) obtain r where r: "rc = SUCCESS" "rid = Some r" "file_map (ht_file tb) r = None"
      "file_map rf = (file_map (ht_file tb))(r \<mapsto> data)" by auto
    show ?thesis
    proof (cases "\<exists>i \<in> set (ht_indexes tb). refused ins data r i")
      case False
      with insert_entries [OF m r(3), of data] obtain is' where
        "insert_entry_of_indexes ins data r (ht_indexes tb) = Some (SUCCESS, is')" "length is' = length (ht_indexes tb)"
        "\<forall>i \<in> set is'. matches i ((file_map (ht_file tb))(r \<mapsto> data))" by auto
      with f(1,2) r room show ?thesis by (simp add: table_insert_record_def indexed_def)
    qed (use f r room in simp)
  qed
qed

lemma table_delete_indexed:
  assumes tb: "indexed tb" and pl: "set_insertion place" and d: "file_map (ht_file tb) r = Some d"
  shows "\<exists>tb'. table_delete_record place del (Some d) r tb = Some (SUCCESS, tb') \<and> indexed tb' \<and>
    file_map (ht_file tb') = (file_map (ht_file tb))(r := None) \<and> ht_record_size tb' = ht_record_size tb \<and>
    length (ht_indexes tb') = length (ht_indexes tb)"
proof -
  have wf: "file_wf (ht_record_size tb) (ht_file tb)" and m: "\<forall>i \<in> set (ht_indexes tb). matches i (file_map (ht_file tb))"
    using tb by (simp_all add: indexed_def)
  from file_delete_record_ok [OF pl wf file_map_in_page(1) [OF wf d]] d obtain rf where
    "file_delete_record place r (ht_file tb) = Some (SUCCESS, rf)" "file_wf (ht_record_size tb) rf"
    "file_map rf = (file_map (ht_file tb))(r := None)" by (auto split: option.splits)
  with delete_entries [OF m d] show ?thesis by (auto simp: table_delete_record_def indexed_def)
qed

lemma create_index_indexed:
  assumes tb: "indexed tb" and new: "matches i Map.empty"
  shows "\<exists>rc i' tb'. table_create_index ins None old i tb = Some (rc, tb') \<and>
    (if rc = SUCCESS then tb' = tb \<lparr> ht_indexes := ht_indexes tb @ [i'] \<rparr> \<and> indexed tb' else tb' = tb)"
proof -
  have wf: "file_wf (ht_record_size tb) (ht_file tb)" using tb by (simp add: indexed_def)
  from full_scan [OF wf, of old] obtain rs where rs: "distinct (map fst rs)" "map_of rs = file_map (ht_file tb)"
    "scan_records (\<lambda>_ _. True) None (rf_pages (ht_file tb)) (open_scan (rl_format (rf_logger (ht_file tb))) old (ht_file tb)) =
      Some (RECORD_EOF, rs)" by blast
  from fill_records [OF new rs(1)] obtain rc i' where
    "fill_index ins RECORD_EOF rs i = Some (rc, i')" "rc = SUCCESS \<longrightarrow> matches i' (file_map (ht_file tb))"
    by (auto simp: rs(2))
  with rs(3) tb show ?thesis by (auto simp: table_create_index_def indexed_def)
qed

end

end
