(* ===== verification/Heap_Index.thy ===== *)
theory Heap_Index
  imports Heap_Table Bplus_Delete Bplus_Scan
begin

text \<open>
  Model of \<^verbatim>\<open>BplusTreeIndex\<close> (\<^verbatim>\<open>storage/index/bplus_tree_index.cpp\<close>), the index of a heap table: a B+ tree whose
  keys are the bytes of one field of the records.  The B+ tree satisfies the contract of \<^verbatim>\<open>Heap_Table\<close>,
  so a table with such indexes keeps them equal to its records.
\<close>

section \<open>The index of a field\<close>

record bplus_tree_index =
  bi_offset :: nat
  bi_tree :: tree_handler

type_synonym other_comparators = "AttrType \<Rightarrow> byte list \<Rightarrow> byte list \<Rightarrow> int"

definition index_comparator :: "other_comparators \<Rightarrow> bplus_tree_index \<Rightarrow> key \<Rightarrow> key \<Rightarrow> int" where
  "index_comparator fcmp i = tree_comparator fcmp (th_header (bi_tree i))"

definition bplus_index_create :: "disk_buffer_pool \<Rightarrow> AttrType \<Rightarrow> nat \<Rightarrow> nat \<Rightarrow> RC \<times> bplus_tree_index option" where
  "bplus_index_create pool type offset len =
    (case tree_create pool type len (-1) (-1) of
       (rc, st) \<Rightarrow> (rc, map_option (\<lambda>st. \<lparr> bi_offset = offset, bi_tree = st \<rparr>) st))"

definition bplus_index_insert_entry :: "other_comparators \<Rightarrow> bplus_tree_index index_op" where
  "bplus_index_insert_entry fcmp record r i =
    map_option (\<lambda>(rc, st). (rc, i \<lparr> bi_tree := st \<rparr>))
      (insert_entry (index_comparator fcmp i) (drop (bi_offset i) record) r (bi_tree i))"

definition bplus_index_delete_entry :: "other_comparators \<Rightarrow> bplus_tree_index index_op" where
  "bplus_index_delete_entry fcmp record r i =
    map_option (\<lambda>(rc, st). (rc, i \<lparr> bi_tree := st \<rparr>))
      (delete_entry (index_comparator fcmp i) (drop (bi_offset i) record) r (bi_tree i))"

section \<open>The contract\<close>

text \<open>The key of a record, and the records an index stands for.\<close>

definition record_key :: "bplus_tree_index \<Rightarrow> rid \<Rightarrow> byte list \<Rightarrow> key" where
  "record_key i r d = make_key (attr_length (th_header (bi_tree i))) (drop (bi_offset i) d) r"

definition record_entries :: "bplus_tree_index \<Rightarrow> (rid \<Rightarrow> byte list option) \<Rightarrow> (key \<times> rid) set" where
  "record_entries i m = {(record_key i r d, r) | r d. m r = Some d}"

definition index_matches :: "other_comparators \<Rightarrow> bplus_tree_index \<Rightarrow> (rid \<Rightarrow> byte list option) \<Rightarrow> bool" where
  "index_matches fcmp i m \<longleftrightarrow> attr_type (th_header (bi_tree i)) \<in> {INTS, CHARS} \<and> walk_sizes (th_header (bi_tree i)) \<and>
     (\<exists>es. index_rep (index_comparator fcmp i) (bi_tree i) es \<and> set es = record_entries i m)"

lemma record_key_rid [simp]: "key_rid (record_key i r d) = r"
  by (simp add: record_key_def make_key_def)

lemma index_comparator_rid: "index_comparator fcmp i k1 k2 = 0 \<Longrightarrow> key_rid k1 = key_rid k2"
  by (auto simp: index_comparator_def tree_comparator_def key_comparator_def Let_def rid_compare_zero split: if_splits)

lemma index_matches_order: "index_matches fcmp i m \<Longrightarrow> index_order (index_comparator fcmp i)"
  unfolding index_matches_def index_comparator_def by (blast intro: tree_comparator_order)

lemma index_matches_refl: "index_matches fcmp i m \<Longrightarrow> index_comparator fcmp i k k = 0"
  by (intro key_order.cmp_refl) (use index_matches_order in \<open>auto simp: index_order_def\<close>)

lemma set_index_add: "set (index_add cmp e es) = insert e (set es)"
  by (induction cmp e es rule: index_add.induct) auto

text \<open>A new root page changes neither the order nor the keys of an index.\<close>

lemma same_keys:
  assumes "th_header st = (th_header (bi_tree i)) \<lparr> root_page := p \<rparr>"
  shows "index_comparator fcmp (i \<lparr> bi_tree := st \<rparr>) = index_comparator fcmp i"
    "record_entries (i \<lparr> bi_tree := st \<rparr>) m = record_entries i m"
    "index_matches fcmp (i \<lparr> bi_tree := st \<rparr>) m \<longleftrightarrow>
      attr_type (th_header (bi_tree i)) \<in> {INTS, CHARS} \<and> walk_sizes (th_header (bi_tree i)) \<and>
      (\<exists>es. index_rep (index_comparator fcmp i) st es \<and> set es = record_entries i m)"
  using assms by (simp_all add: index_matches_def index_comparator_def record_entries_def record_key_def walk_sizes_def)

lemma new_record_entry:
  assumes "set es = record_entries i m" "m r = None"
  shows "\<not> index_has (index_comparator fcmp i) (record_key i r d) es"
    "insert (record_key i r d, r) (set es) = record_entries i (m(r \<mapsto> d))"
proof -
  show "\<not> index_has (index_comparator fcmp i) (record_key i r d) es"
    using assms by (auto simp: index_has_def record_entries_def dest: index_comparator_rid)
  show "insert (record_key i r d, r) (set es) = record_entries i (m(r \<mapsto> d))"
    unfolding assms(1) using assms(2) by (auto simp: record_entries_def) (metis option.distinct(1))
qed

lemma old_record_entry:
  assumes mt: "index_matches fcmp i m" and es: "set es = record_entries i m" and d: "m r = Some d"
  shows "index_has (index_comparator fcmp i) (record_key i r d) es"
    "set (filter (\<lambda>x. index_comparator fcmp i (fst x) (record_key i r d) \<noteq> 0) es) = record_entries i (m(r := None))"
proof -
  note same = index_matches_refl [OF mt]
  show "index_has (index_comparator fcmp i) (record_key i r d) es"
    using es d same by (force simp: index_has_def record_entries_def)
  show "set (filter (\<lambda>x. index_comparator fcmp i (fst x) (record_key i r d) \<noteq> 0) es) = record_entries i (m(r := None))"
  proof -
    have "index_comparator fcmp i (record_key i q e) (record_key i r d) = 0 \<longleftrightarrow> q = r" if "m q = Some e" for q e
      using that d same index_comparator_rid [of fcmp i "record_key i q e" "record_key i r d"] by auto
    then show ?thesis unfolding set_filter es by (auto simp: record_entries_def)
  qed
qed

lemma bplus_insert_cases:
  assumes mt: "index_matches fcmp i m" and new: "m r = None"
  obtains (full) i' where "bplus_index_insert_entry fcmp d r i = Some (BUFFERPOOL_NOBUF, i')"
      "live_pages (th_pool (bi_tree i')) = {..<MAX_PAGE_NUM}"
  | (added) i' where "bplus_index_insert_entry fcmp d r i = Some (SUCCESS, i')" "index_matches fcmp i' (m(r \<mapsto> d))"
proof -
  from mt obtain es where es: "index_rep (index_comparator fcmp i) (bi_tree i) es" "set es = record_entries i m"
    by (auto simp: index_matches_def)
  note entry = new_record_entry(1) [OF es(2) new, of fcmp d] new_record_entry(2) [OF es(2) new, of d]
  show thesis
  proof (cases rule: index_order.insert_entry_new [OF index_matches_order [OF mt] es(1), of "drop (bi_offset i) d" r, case_names has full added])
    case has
    then show ?case using entry(1) by (simp add: record_key_def)
  next
    case (full st1)
    then show ?thesis by (intro that(1) [of "i \<lparr> bi_tree := st1 \<rparr>"]) (simp_all add: bplus_index_insert_entry_def)
  next
    case (added st1)
    then obtain p where p: "th_header st1 = (th_header (bi_tree i)) \<lparr> root_page := p \<rparr>" by blast
    have "index_matches fcmp (i \<lparr> bi_tree := st1 \<rparr>) (m(r \<mapsto> d))"
      unfolding same_keys(3) [OF p]
      using mt added(2) entry(2) by (auto simp: index_matches_def record_key_def [symmetric] set_index_add)
    with added(1) show ?thesis by (intro that(2) [of "i \<lparr> bi_tree := st1 \<rparr>"]) (simp_all add: bplus_index_insert_entry_def)
  qed
qed

lemma bplus_delete_present:
  assumes mt: "index_matches fcmp i m" and d: "m r = Some d"
  shows "\<exists>i'. bplus_index_delete_entry fcmp d r i = Some (SUCCESS, i') \<and> index_matches fcmp i' (m(r := None))"
proof -
  from mt obtain es where es: "index_rep (index_comparator fcmp i) (bi_tree i) es" "set es = record_entries i m"
    "walk_sizes (th_header (bi_tree i))" by (auto simp: index_matches_def)
  note entry = old_record_entry [OF mt es(2) d]
  from index_order.delete_entry_runs [OF index_matches_order [OF mt] es(1,3) refl, of "drop (bi_offset i) d" r] entry(1)
  obtain st p where st: "delete_entry (index_comparator fcmp i) (drop (bi_offset i) d) r (bi_tree i) = Some (SUCCESS, st)"
    "index_rep (index_comparator fcmp i) st (filter (\<lambda>x. index_comparator fcmp i (fst x) (record_key i r d) \<noteq> 0) es)"
    and p: "th_header st = (th_header (bi_tree i)) \<lparr> root_page := p \<rparr>"
    by (auto simp: record_key_def index_order.del_done_def [OF index_matches_order [OF mt]])
  have "index_matches fcmp (i \<lparr> bi_tree := st \<rparr>) (m(r := None))"
    unfolding same_keys(3) [OF p] using mt st(2) entry(2) by (auto simp: index_matches_def)
  with st(1) show ?thesis by (simp add: bplus_index_delete_entry_def)
qed

interpretation bplus_table: record_index "bplus_index_insert_entry fcmp" "bplus_index_delete_entry fcmp" "index_matches fcmp" for fcmp
proof
  fix i m r d i'
  assume mt: "index_matches fcmp i m"
  show "m r = None \<Longrightarrow> bplus_index_insert_entry fcmp d r i \<noteq> None" by (rule bplus_insert_cases [OF mt, of r d]) simp_all
  show "m r = None \<Longrightarrow> bplus_index_insert_entry fcmp d r i = Some (SUCCESS, i') \<Longrightarrow> index_matches fcmp i' (m(r \<mapsto> d))"
    by (rule bplus_insert_cases [OF mt, of r d]) simp_all
  show "m r = Some d \<Longrightarrow> \<exists>i'. bplus_index_delete_entry fcmp d r i = Some (SUCCESS, i') \<and> index_matches fcmp i' (m(r := None))"
    by (rule bplus_delete_present [OF mt])
qed

section \<open>Tables with B+ tree indexes\<close>

type_synonym indexed_heap_table = "bplus_tree_index heap_table"

definition indexed_table :: "other_comparators \<Rightarrow> indexed_heap_table \<Rightarrow> bool" where
  "indexed_table fcmp tb \<longleftrightarrow>
     file_wf (ht_record_size tb) (ht_file tb) \<and> (\<forall>i \<in> set (ht_indexes tb). index_matches fcmp i (file_map (ht_file tb)))"

lemma indexed_table_indexed: "indexed_table fcmp tb \<longleftrightarrow> bplus_table.indexed fcmp tb"
  by (simp add: indexed_table_def bplus_table.indexed_def)

definition new_table :: "int \<Rightarrow> int list \<Rightarrow> record_logger \<Rightarrow> int \<Rightarrow> indexed_heap_table" where
  "new_table bpid field_lens lg sz = \<lparr> ht_file = new_file bpid field_lens lg, ht_indexes = [], ht_record_size = sz \<rparr>"

text \<open>
  The changes of a table.  An insertion counts when it succeeds, or when the file refuses the
  record; a new index is made for a field of integers or characters that lets six keys fit in a page.
\<close>

inductive table_step :: "other_comparators \<Rightarrow> indexed_heap_table \<Rightarrow> indexed_heap_table \<Rightarrow> bool" for fcmp where
  table_step_insert: "set_insertion place \<Longrightarrow> length data = nat (ht_record_size tb) \<Longrightarrow>
    table_insert_record place (bplus_index_insert_entry fcmp) (bplus_index_delete_entry fcmp) data tb = Some (rc, rid, tb') \<Longrightarrow>
    rc = SUCCESS \<or> rid = None \<Longrightarrow> table_step fcmp tb tb'"
| table_step_delete: "set_insertion place \<Longrightarrow> file_map (ht_file tb) r = Some d \<Longrightarrow>
    table_delete_record place (bplus_index_delete_entry fcmp) (Some d) r tb = Some (rc, tb') \<Longrightarrow> table_step fcmp tb tb'"
| table_step_create_index: "bplus_index_create (open_new_pool bpid) type offset len = (SUCCESS, Some i) \<Longrightarrow> type \<in> {INTS, CHARS} \<Longrightarrow>
    6 \<le> calc_internal_page_capacity len \<Longrightarrow> 4 \<le> calc_leaf_page_capacity len \<Longrightarrow>
    table_create_index (bplus_index_insert_entry fcmp) None old i tb = Some (rc, tb') \<Longrightarrow> table_step fcmp tb tb'"

lemma new_index_matches:
  assumes "bplus_index_create (open_new_pool bpid) type offset len = (SUCCESS, Some i)" "type \<in> {INTS, CHARS}"
    "6 \<le> calc_internal_page_capacity len" "4 \<le> calc_leaf_page_capacity len"
  shows "index_matches fcmp i Map.empty"
proof -
  obtain st where st: "tree_create (open_new_pool bpid) type len (-1) (-1) = (SUCCESS, Some st)"
    "index_rep (key_comparator (attr_comparator fcmp type len)) st []" "attr_type (th_header st) = type" "attr_length (th_header st) = len"
    by (rule tree_create_empty [OF open_new_pool_wf open_new_pool_live, of "-1" len "-1" bpid type
        "key_comparator (attr_comparator fcmp type len)"]) (use assms(3,4) in auto)
  have "walk_sizes (th_header st)"
    using st(1) assms(3,4) by (auto simp: walk_sizes_def tree_create_def Let_def split: prod.splits option.splits if_splits)
  moreover have "i = \<lparr> bi_offset = offset, bi_tree = st \<rparr>" using assms(1) st(1) by (simp add: bplus_index_create_def)
  ultimately show ?thesis
    using st(2-4) assms(2) by (auto simp: index_matches_def index_comparator_def tree_comparator_def record_entries_def)
qed

lemma table_step_indexed:
  assumes "table_step fcmp tb tb'" "indexed_table fcmp tb"
  shows "indexed_table fcmp tb'"
  using assms(1)
proof (cases rule: table_step.cases)
  case (table_step_insert place data rc rid)
  note ins = bplus_table.table_insert_indexed [OF assms(2) [unfolded indexed_table_indexed] table_step_insert(1,2)]
  show ?thesis
  proof (cases "file_full (ht_file tb)")
    case True
    with ins table_step_insert(3) show ?thesis by (auto simp: indexed_table_indexed)
  next
    case False
    with ins obtain r rf where rf: "file_insert_record place data (ht_record_size tb) (ht_file tb) = Some (SUCCESS, Some r, rf)" by auto
    have rc: "rc = SUCCESS" using table_insert_rid [OF table_step_insert(3) rf] table_step_insert(4) by simp
    from table_insert_success [OF table_step_insert(3) [unfolded rc] rf] ins False rf rc table_step_insert(3) show ?thesis
      by (auto simp: indexed_table_indexed)
  qed
next
  case (table_step_delete place r d rc)
  with bplus_table.table_delete_indexed [OF assms(2) [unfolded indexed_table_indexed] table_step_delete(1,2)] show ?thesis
    by (auto simp: indexed_table_indexed)
next
  case (table_step_create_index bpid type offset len i old rc)
  with bplus_table.create_index_indexed [OF assms(2) [unfolded indexed_table_indexed] new_index_matches [OF table_step_create_index(1-4)], of old]
    assms(2) show ?thesis by (auto simp: indexed_table_indexed split: if_splits)
qed

lemma table_run_indexed:
  "(table_step fcmp)\<^sup>*\<^sup>* tb tb' \<Longrightarrow> indexed_table fcmp tb \<Longrightarrow> indexed_table fcmp tb'"
  by (induction rule: rtranclp_induct) (auto dest: table_step_indexed)

lemma new_table_indexed:
  assumes "0 < sz" "sz \<le> 4000" "length field_lens \<le> 900" "rl_format lg = ROW_FORMAT"
  shows "indexed_table fcmp (new_table bpid field_lens lg sz)"
  using new_file_wf [OF assms] by (simp add: indexed_table_def new_table_def)

section \<open>Scanning an index of a table\<close>

lemma live_page_limit: "bp_wf bp \<Longrightarrow> p \<in> live_pages bp \<Longrightarrow> p < MAX_PAGE_NUM"
  using allocated_less [of p "file_header bp"] by (auto simp: live_allocated bp_wf_iff)

lemma file_record_rid:
  assumes wf: "file_wf sz rf" and d: "file_map rf r = Some d"
  shows "record_rid r"
proof -
  from d obtain p where p: "rf_pages rf (rid_page_num r) = Some p" "0 \<le> rid_slot_num r" "slot_map p (nat (rid_slot_num r)) = Some d"
    by (auto simp: file_map_def split: option.splits if_splits)
  from wf p(1) have n: "rid_page_num r \<in> int ` (live_pages (rf_pool rf) - {0})" "record_page_ok sz (rid_page_num r) p" "0 < sz" "bp_wf (rf_pool rf)"
    by (auto simp: file_wf_def)
  have "record_capacity (rp_header p) * record_size (rp_header p) \<le> 8180" "0 < record_size (rp_header p)" "0 \<le> record_capacity (rp_header p)"
    using n(2,3) by (auto simp: record_page_ok_def page_wf_def layout_ok_def PAGE_HEADER_SIZE_def page_bitmap_size_def)
  then have "record_capacity (rp_header p) \<le> 8180" by (smt (verit) mult_le_cancel_left1)
  then have "rid_slot_num r < 8180" using p(2,3) by (auto simp: slot_map_def nat_less_iff split: if_splits)
  moreover have "0 < rid_page_num r" "rid_page_num r < 65344"
    using n(1) live_page_limit [OF n(4)] by (auto simp: MAX_PAGE_NUM_def BP_PAGE_DATA_SIZE_def BP_PAGE_SIZE_def)
  ultimately show ?thesis using p(2) by (auto simp: record_rid_def rid_valid_def rid_min_def rid_max_def)
qed

lemma index_matches_entries:
  assumes mt: "index_matches fcmp i m"
  obtains es where "index_rep (index_comparator fcmp i) (bi_tree i) es" "set es = record_entries i m" "distinct (map snd es)"
proof -
  from mt obtain es where es: "index_rep (index_comparator fcmp i) (bi_tree i) es" "set es = record_entries i m"
    by (auto simp: index_matches_def)
  have "distinct es"
    using index_order.index_rep_sorted [OF index_matches_order [OF mt] es(1)] index_matches_refl [OF mt]
    by (induction es) auto
  moreover have "inj_on snd (set es)" unfolding es(2) by (auto simp: inj_on_def record_entries_def)
  ultimately show thesis using es that by (simp add: distinct_map)
qed

lemma index_scan_records:
  assumes tb: "indexed_table fcmp tb" and i: "i \<in> set (ht_indexes tb)" and h: "h = th_header (bi_tree i)"
    and acmp: "acmp = attr_comparator fcmp (attr_type h) (attr_length h)" and range: "\<not> invalid_range acmp left linc right rinc"
  shows "\<exists>rs. range_scan acmp (\<lambda>_. True) left linc right rinc (bi_tree i) = Some (SUCCESS, rs) \<and> distinct rs \<and>
    set rs = {r. \<exists>d. file_map (ht_file tb) r = Some d \<and> in_bounds acmp h left linc right rinc (record_key i r d)}"
proof -
  have wf: "file_wf (ht_record_size tb) (ht_file tb)" and mt: "index_matches fcmp i (file_map (ht_file tb))"
    using tb i by (simp_all add: indexed_table_def)
  from mt obtain es where es: "index_rep (index_comparator fcmp i) (bi_tree i) es" "set es = record_entries i (file_map (ht_file tb))"
    "distinct (map snd es)" by (rule index_matches_entries)
  have cmp: "index_comparator fcmp i = key_comparator acmp" by (simp add: index_comparator_def tree_comparator_def acmp h)
  have order: "attr_key_order acmp"
    unfolding acmp by (rule attr_comparator_order) (use mt in \<open>simp add: index_matches_def h\<close>)
  have rids: "\<forall>e \<in> set es. record_rid (key_rid (fst e))"
    using file_record_rid [OF wf] by (auto simp: es(2) record_entries_def)
  have "distinct (map snd (filter P es))" for P using es(3) by (simp add: distinct_map inj_on_def)
  moreover have "snd ` {e \<in> set es. in_bounds acmp h left linc right rinc (fst e)} =
      {r. \<exists>d. file_map (ht_file tb) r = Some d \<and> in_bounds acmp h left linc right rinc (record_key i r d)}"
    unfolding es(2) by (force simp: record_entries_def image_iff)
  ultimately show ?thesis
    using attr_key_order.range_scan_bounds [OF order es(1) [unfolded cmp] _ range rids, of "\<lambda>_. True"] by (simp add: h)
qed

section \<open>Properties\<close>

text \<open>
  C5: inserting a record into a table whose indexes match its records.  When the file is full the
  insertion is refused and the records stay.  Otherwise the record gets a RID that was free, and
  either an index has used all pages of its file, or the record and one entry per index are added
  and every index matches the records again.
\<close>

theorem indexed_insert:
  assumes "indexed_table fcmp tb" "set_insertion place" "length data = nat (ht_record_size tb)"
  shows "if file_full (ht_file tb)
    then \<exists>tb'. table_insert_record place (bplus_index_insert_entry fcmp) (bplus_index_delete_entry fcmp) data tb =
        Some (BUFFERPOOL_NOBUF, None, tb') \<and> indexed_table fcmp tb' \<and> file_map (ht_file tb') = file_map (ht_file tb)
    else \<exists>r rf. file_insert_record place data (ht_record_size tb) (ht_file tb) = Some (SUCCESS, Some r, rf) \<and>
      file_map (ht_file tb) r = None \<and>
      ((\<exists>i \<in> set (ht_indexes tb). \<exists>i'. bplus_index_insert_entry fcmp data r i = Some (BUFFERPOOL_NOBUF, i') \<and>
          live_pages (th_pool (bi_tree i')) = {..<MAX_PAGE_NUM}) \<or>
       (\<exists>tb'. table_insert_record place (bplus_index_insert_entry fcmp) (bplus_index_delete_entry fcmp) data tb =
          Some (SUCCESS, Some r, tb') \<and> indexed_table fcmp tb' \<and> file_map (ht_file tb') = (file_map (ht_file tb))(r \<mapsto> data)))"
proof -
  have out: "\<exists>i'. bplus_index_insert_entry fcmp data r i = Some (BUFFERPOOL_NOBUF, i') \<and>
      live_pages (th_pool (bi_tree i')) = {..<MAX_PAGE_NUM}"
    if "i \<in> set (ht_indexes tb)" "file_map (ht_file tb) r = None" "refused (bplus_index_insert_entry fcmp) data r i" for i r
  proof -
    have "index_matches fcmp i (file_map (ht_file tb))" using assms(1) that(1) by (simp add: indexed_table_def)
    from this that(2) show ?thesis
      by (rule bplus_insert_cases [of fcmp i _ r data]) (use that(3) in \<open>auto simp: refused_def\<close>)
  qed
  note ins = bplus_table.table_insert_indexed [OF assms(1) [unfolded indexed_table_indexed] assms(2,3)]
  show ?thesis
  proof (cases "file_full (ht_file tb)")
    case False
    with ins obtain r rf where
      r: "file_insert_record place data (ht_record_size tb) (ht_file tb) = Some (SUCCESS, Some r, rf)" "file_map (ht_file tb) r = None"
      "(\<exists>i \<in> set (ht_indexes tb). refused (bplus_index_insert_entry fcmp) data r i) \<or>
       (\<exists>tb'. table_insert_record place (bplus_index_insert_entry fcmp) (bplus_index_delete_entry fcmp) data tb =
          Some (SUCCESS, Some r, tb') \<and> bplus_table.indexed fcmp tb' \<and> file_map (ht_file tb') = (file_map (ht_file tb))(r \<mapsto> data))"
      by auto
    from r(3) show ?thesis
    proof
      assume "\<exists>i \<in> set (ht_indexes tb). refused (bplus_index_insert_entry fcmp) data r i"
      then obtain i where "i \<in> set (ht_indexes tb)" "refused (bplus_index_insert_entry fcmp) data r i" by blast
      with out [of i r] r(1,2) False show ?thesis by auto
    qed (use r(1,2) False in \<open>auto simp: indexed_table_indexed\<close>)
  qed (use ins in \<open>simp add: indexed_table_indexed\<close>)
qed

definition sample_indexed_table :: "bplus_tree_index \<Rightarrow> indexed_heap_table" where
  "sample_indexed_table i = new_table 7 [] sample_logger 8 \<lparr> ht_indexes := [i] \<rparr>"

lemma sample_bplus_index:
  obtains i where "bplus_index_create (open_new_pool 8) INTS 4 4 = (SUCCESS, Some i)" "attr_type (th_header (bi_tree i)) = INTS"
    "attr_length (th_header (bi_tree i)) = 4" "bi_offset i = 4" "index_matches fcmp i Map.empty"
    "table_step fcmp (new_table 7 [] sample_logger 8) (sample_indexed_table i)"
    "\<not> refused (bplus_index_insert_entry fcmp) d r i"
proof -
  have cap: "6 \<le> calc_internal_page_capacity 4" "4 \<le> calc_leaf_page_capacity 4"
    by (simp_all add: calc_internal_page_capacity_def calc_leaf_page_capacity_def BP_PAGE_DATA_SIZE_def
        BP_PAGE_SIZE_def RID_SIZE_def PAGE_NUM_SIZE_def INTERNAL_HEADER_SIZE_def LEAF_HEADER_SIZE_def)
  have max: "(2::nat) < MAX_PAGE_NUM" by (simp add: MAX_PAGE_NUM_def BP_PAGE_DATA_SIZE_def BP_PAGE_SIZE_def)
  have "live_pages (open_new_pool 8) = {..<1}" using open_new_pool_live [of 8] by auto
  from next_allocation [OF open_new_pool_wf this] max obtain bp1 where
    bp1: "allocate_page (\<lambda>_. SUCCESS) (open_new_pool 8) = (SUCCESS, Some 1, bp1)" "bp_wf bp1" "live_pages bp1 = {..<Suc 1}" by auto
  from next_allocation [OF bp1(2,3)] max obtain bp2 where bp2: "allocate_page (\<lambda>_. SUCCESS) bp1 = (SUCCESS, Some (Suc 1), bp2)" by auto
  define st where "st = the (snd (tree_create (open_new_pool 8) INTS 4 (-1) (-1)))"
  have st: "tree_create (open_new_pool 8) INTS 4 (-1) (-1) = (SUCCESS, Some st)" "th_pool st = bp1" "is_empty st"
    "attr_type (th_header st) = INTS" "attr_length (th_header st) = 4"
    unfolding st_def by (simp_all add: tree_create_def bp1(1) FIRST_INDEX_PAGE_def Let_def is_empty_def)
  let ?i = "\<lparr> bi_offset = 4, bi_tree = st \<rparr>"
  have i: "bplus_index_create (open_new_pool 8) INTS 4 4 = (SUCCESS, Some ?i)" by (simp add: bplus_index_create_def st)
  have mt: "index_matches fcmp ?i Map.empty" by (rule new_index_matches [OF i _ cap]) simp
  have new: "\<not> refused (bplus_index_insert_entry fcmp) d r ?i"
    using st(3) bp2 by (simp add: refused_def bplus_index_insert_entry_def insert_entry_def Let_def create_new_tree_def
        tree_allocate_page_def st(2) is_empty_def)
  have "scan_records (\<lambda>_ _. True) None (rf_pages (new_file 7 [] sample_logger)) (open_scan ROW_FORMAT None (new_file 7 [] sample_logger)) =
      Some (RECORD_EOF, [])"
    using full_scan [OF sample_new_file(1), of None] sample_new_file(2)
    by (auto simp: new_file_def sample_logger_def)
  then have "table_create_index (bplus_index_insert_entry fcmp) None None ?i (new_table 7 [] sample_logger 8) =
      Some (SUCCESS, sample_indexed_table ?i)"
    by (simp add: table_create_index_def new_table_def sample_indexed_table_def) (simp add: new_file_def sample_logger_def)
  then have "table_step fcmp (new_table 7 [] sample_logger 8) (sample_indexed_table ?i)"
    by (intro table_step_create_index [OF i _ cap]) simp_all
  with i st mt new show thesis by (intro that [of ?i]) simp_all
qed

lemma sample_indexed_table_ok:
  "index_matches fcmp i Map.empty \<Longrightarrow> indexed_table fcmp (sample_indexed_table i)"
  using sample_new_file by (simp add: indexed_table_def sample_indexed_table_def new_table_def)

lemma sample_indexed_record:
  obtains i tb i' r where "bplus_index_create (open_new_pool 8) INTS 4 4 = (SUCCESS, Some i)"
    "table_insert_record sample_place (bplus_index_insert_entry fcmp) (bplus_index_delete_entry fcmp) sample_data
       (sample_indexed_table i) = Some (SUCCESS, Some r, tb)"
    "indexed_table fcmp (sample_indexed_table i)" "indexed_table fcmp tb" "file_map (ht_file tb) = [r \<mapsto> sample_data]"
    "ht_indexes tb = [i']" "(table_step fcmp)\<^sup>*\<^sup>* (new_table 7 [] sample_logger 8) tb"
proof -
  obtain rf r where rf: "file_insert_record sample_place sample_data 8 (new_file 7 [] sample_logger) = Some (SUCCESS, Some r, rf)"
    by (rule sample_file_exists)
  obtain i where i: "bplus_index_create (open_new_pool 8) INTS 4 4 = (SUCCESS, Some i)" "index_matches fcmp i Map.empty"
    "table_step fcmp (new_table 7 [] sample_logger 8) (sample_indexed_table i)"
    "\<not> refused (bplus_index_insert_entry fcmp) sample_data r i" by (rule sample_bplus_index)
  note ok = sample_indexed_table_ok [OF i(2)]
  have len: "length sample_data = nat (ht_record_size (sample_indexed_table i))"
    by (simp add: sample_data_def sample_indexed_table_def new_table_def)
  from bplus_table.table_insert_indexed [OF ok [unfolded indexed_table_indexed] sample_place len] rf i(4) sample_new_file(2,4)
  obtain tb where tb: "table_insert_record sample_place (bplus_index_insert_entry fcmp) (bplus_index_delete_entry fcmp) sample_data
      (sample_indexed_table i) = Some (SUCCESS, Some r, tb)" "indexed_table fcmp tb" "file_map (ht_file tb) = [r \<mapsto> sample_data]"
    "length (ht_indexes tb) = 1"
    by (auto simp: sample_indexed_table_def new_table_def indexed_table_indexed)
  from tb(4) obtain i' where "ht_indexes tb = [i']" by (auto simp: length_Suc_conv)
  moreover have "table_step fcmp (sample_indexed_table i) tb"
    by (rule table_step_insert [OF sample_place len tb(1)]) simp
  with i(3) have "(table_step fcmp)\<^sup>*\<^sup>* (new_table 7 [] sample_logger 8) tb" by simp
  ultimately show thesis using that i(1) tb(1-3) ok by blast
qed

theorem indexed_insert_witness:
  "\<exists>i r rf. bplus_index_create (open_new_pool 8) INTS 4 4 = (SUCCESS, Some i) \<and>
    file_insert_record sample_place sample_data 8 (new_file 7 [] sample_logger) = Some (SUCCESS, Some r, rf) \<and>
    ((\<exists>i'. bplus_index_insert_entry (\<lambda>_ _ _. 0) sample_data r i = Some (BUFFERPOOL_NOBUF, i')) \<or>
     (\<exists>tb. table_insert_record sample_place (bplus_index_insert_entry (\<lambda>_ _ _. 0)) (bplus_index_delete_entry (\<lambda>_ _ _. 0))
         sample_data (sample_indexed_table i) = Some (SUCCESS, Some r, tb) \<and> indexed_table (\<lambda>_ _ _. 0) tb \<and>
         file_map (ht_file tb) = [r \<mapsto> sample_data]))"
proof -
  obtain i where i: "bplus_index_create (open_new_pool 8) INTS 4 4 = (SUCCESS, Some i)"
    "indexed_table (\<lambda>_ _ _. 0) (sample_indexed_table i)" by (rule sample_indexed_record)
  have "length sample_data = nat (ht_record_size (sample_indexed_table i))"
    by (simp add: sample_data_def sample_indexed_table_def new_table_def)
  from indexed_insert [OF i(2) sample_place this] i(1) sample_new_file(2,4) show ?thesis
    by (intro exI [of _ i]) (auto simp: sample_indexed_table_def new_table_def)
qed

text \<open>
  C6: deleting a record of a table whose indexes match its records always succeeds: the assertion
  that every index has the entry holds, the record and its entries are gone, and every index
  matches the remaining records.
\<close>

theorem indexed_delete:
  assumes "indexed_table fcmp tb" "set_insertion place" "file_map (ht_file tb) r = Some d"
  shows "\<exists>tb'. table_delete_record place (bplus_index_delete_entry fcmp) (Some d) r tb = Some (SUCCESS, tb') \<and>
    indexed_table fcmp tb' \<and> file_map (ht_file tb') = (file_map (ht_file tb))(r := None)"
  using bplus_table.table_delete_indexed [OF assms(1) [unfolded indexed_table_indexed] assms(2,3)]
  by (auto simp: indexed_table_indexed)

theorem indexed_delete_witness:
  "\<exists>i tb r tb'. table_insert_record sample_place (bplus_index_insert_entry (\<lambda>_ _ _. 0)) (bplus_index_delete_entry (\<lambda>_ _ _. 0))
       sample_data (sample_indexed_table i) = Some (SUCCESS, Some r, tb) \<and>
     table_delete_record sample_place (bplus_index_delete_entry (\<lambda>_ _ _. 0)) (Some sample_data) r tb = Some (SUCCESS, tb') \<and>
     indexed_table (\<lambda>_ _ _. 0) tb' \<and> file_map (ht_file tb') = Map.empty"
proof -
  obtain i tb r where tb: "table_insert_record sample_place (bplus_index_insert_entry (\<lambda>_ _ _. 0)) (bplus_index_delete_entry (\<lambda>_ _ _. 0))
      sample_data (sample_indexed_table i) = Some (SUCCESS, Some r, tb)"
    "indexed_table (\<lambda>_ _ _. 0) tb" "file_map (ht_file tb) = [r \<mapsto> sample_data]" by (rule sample_indexed_record)
  have "file_map (ht_file tb) r = Some sample_data" "[r \<mapsto> sample_data](r := None) = Map.empty" using tb(3) by auto
  with indexed_delete [OF tb(2) sample_place this(1)] tb show ?thesis by auto
qed



end
