(* ===== verification/Mvcc_Trx.thy ===== *)
theory Mvcc_Trx
  imports Heap_Table
begin

text \<open>
  Model of the multi-version transactions (\<^verbatim>\<open>storage/trx/mvcc_trx.cpp\<close>, \<^verbatim>\<open>mvcc_trx_log.cpp\<close>).  Every record
  carries two transaction numbers: who created it and who deleted it, negative while that
  transaction has not committed.  A result \<open>None\<close> stands for a failed assertion (as compiled in debug
  builds) or for an access through a null pointer.
\<close>

section \<open>The numbers in a record\<close>

definition get_int :: "nat \<Rightarrow> byte list \<Rightarrow> int" where
  "get_int offset data = signed_take_bit 31 (le_value (take 4 (drop offset data)))"

definition set_int :: "nat \<Rightarrow> int \<Rightarrow> byte list \<Rightarrow> byte list" where
  "set_int offset v data = write_at (int offset) (le_bytes 4 v) data"

definition max_trx_id :: int where "max_trx_id = 2147483647"

text \<open>The two fields of a table, \<^verbatim>\<open>__trx_xid_begin\<close> and \<^verbatim>\<open>__trx_xid_end\<close>, by their offsets.\<close>

record trx_fields =
  begin_field :: nat
  end_field :: nat

record 'i mvcc_table =
  mt_table :: "'i heap_table"
  mt_fields :: trx_fields

section \<open>Transactions\<close>

datatype operation_type = INSERT | UPDATE | DELETE | UNDEFINED

record operation =
  op_type :: operation_type
  op_table :: int
  op_rid :: rid

record mvcc_trx =
  trx_id :: int
  trx_started :: bool
  trx_recovering :: bool
  trx_operations :: "operation list"

text \<open>
  The tables by their numbers, the counter of the transaction manager, and the log of the
  transactions.  \<open>db_stack\<close> is what the uninitialised member of a rollback record holds.
\<close>

record 'i mvcc_db =
  db_tables :: "int \<Rightarrow> 'i mvcc_table option"
  current_trx_id :: int
  db_log :: "byte list wal"
  db_stack :: int

definition next_trx_id :: "'i mvcc_db \<Rightarrow> int \<times> 'i mvcc_db" where
  "next_trx_id db = (let n = signed_take_bit 31 (current_trx_id db + 1) in (n, db \<lparr> current_trx_id := n \<rparr>))"

definition create_trx :: mvcc_trx where
  "create_trx = \<lparr> trx_id = - 1, trx_started = False, trx_recovering = False, trx_operations = [] \<rparr>"

definition create_recovering_trx :: "int \<Rightarrow> 'i mvcc_db \<Rightarrow> mvcc_trx \<times> 'i mvcc_db" where
  "create_recovering_trx i db =
    (\<lparr> trx_id = i, trx_started = True, trx_recovering = True, trx_operations = [] \<rparr>,
     if current_trx_id db < i then db \<lparr> current_trx_id := i \<rparr> else db)"

definition start_if_need :: "mvcc_trx \<Rightarrow> 'i mvcc_db \<Rightarrow> (RC \<times> mvcc_trx \<times> 'i mvcc_db) option" where
  "start_if_need tx db =
    (if \<not> trx_started tx then
       if trx_operations tx \<noteq> [] then None
       else let (n, db') = next_trx_id db in Some (SUCCESS, tx \<lparr> trx_id := n, trx_started := True \<rparr>, db')
     else Some (SUCCESS, tx, db))"

definition visit_record :: "int \<Rightarrow> trx_fields \<Rightarrow> ReadWriteMode \<Rightarrow> byte list \<Rightarrow> RC" where
  "visit_record i fs mode data =
    (let begin_xid = get_int (begin_field fs) data; end_xid = get_int (end_field fs) data
     in if begin_xid > 0 \<and> end_xid > 0 then
          if i \<ge> begin_xid \<and> i \<le> end_xid then SUCCESS else RECORD_INVISIBLE
        else if begin_xid < 0 then
          if - begin_xid = i then SUCCESS else RECORD_INVISIBLE
        else if end_xid < 0 then
          if mode = READ_ONLY then if - end_xid \<noteq> i then SUCCESS else RECORD_INVISIBLE
          else if - end_xid \<noteq> i then LOCKED_CONCURRENCY_CONFLICT else RECORD_INVISIBLE
        else SUCCESS)"

section \<open>The log\<close>

datatype MvccTrxLogOperation = INSERT_RECORD_LOG | DELETE_RECORD_LOG | COMMIT_LOG | ROLLBACK_LOG

fun log_operation_index :: "MvccTrxLogOperation \<Rightarrow> int" where
  "log_operation_index INSERT_RECORD_LOG = 0"
| "log_operation_index DELETE_RECORD_LOG = 1"
| "log_operation_index COMMIT_LOG = 2"
| "log_operation_index ROLLBACK_LOG = 3"

definition append_trx_log :: "byte list \<Rightarrow> 'i mvcc_db \<Rightarrow> 'i mvcc_db" where
  "append_trx_log payload db = db \<lparr> db_log := snd (wal_append payload (db_log db)) \<rparr>"

definition trx_log_header :: "MvccTrxLogOperation \<Rightarrow> int \<Rightarrow> byte list" where
  "trx_log_header op i = le_bytes 4 (log_operation_index op) @ le_bytes 4 i"

definition trx_record_log :: "MvccTrxLogOperation \<Rightarrow> int \<Rightarrow> int \<Rightarrow> rid \<Rightarrow> 'i mvcc_db \<Rightarrow> 'i mvcc_db option" where
  "trx_record_log op i table_id r db =
    (if i > 0 then
       Some (append_trx_log (trx_log_header op i @ le_bytes 4 table_id @
               le_bytes 4 (rid_page_num r) @ le_bytes 4 (rid_slot_num r)) db)
     else None)"

definition trx_commit_log :: "int \<Rightarrow> int \<Rightarrow> 'i mvcc_db \<Rightarrow> (RC \<times> 'i mvcc_db) option" where
  "trx_commit_log i commit_xid db =
    (if i > 0 \<and> commit_xid > i
     then Some (SUCCESS, append_trx_log (trx_log_header COMMIT_LOG i @ le_bytes 4 commit_xid) db) else None)"

definition trx_rollback_log :: "int \<Rightarrow> 'i mvcc_db \<Rightarrow> (RC \<times> 'i mvcc_db) option" where
  "trx_rollback_log i db =
    (if i > 0 then Some (SUCCESS, append_trx_log (trx_log_header ROLLBACK_LOG i @ le_bytes 4 (db_stack db)) db) else None)"

section \<open>Operations\<close>

definition put_table :: "int \<Rightarrow> 'i heap_table \<Rightarrow> 'i mvcc_db \<Rightarrow> 'i mvcc_db" where
  "put_table t tb db =
    db \<lparr> db_tables := (db_tables db)(t := map_option (\<lambda>mt. mt \<lparr> mt_table := tb \<rparr>) (db_tables db t)) \<rparr>"

definition trx_insert_record ::
  "set_place \<Rightarrow> 'i index_op \<Rightarrow> 'i index_op \<Rightarrow> int \<Rightarrow> byte list \<Rightarrow> mvcc_trx \<Rightarrow> 'i mvcc_db \<Rightarrow>
   (RC \<times> rid option \<times> mvcc_trx \<times> 'i mvcc_db) option" where
  "trx_insert_record place ins del t data tx db =
    Option.bind (db_tables db t) (\<lambda>mt.
      let data1 = set_int (begin_field (mt_fields mt)) (- trx_id tx) data;
          data2 = set_int (end_field (mt_fields mt)) max_trx_id data1
      in Option.bind (table_insert_record place ins del data2 (mt_table mt)) (\<lambda>(rc, rid, tb).
           let db1 = put_table t tb db
           in if rc \<noteq> SUCCESS then Some (rc, rid, tx, db1)
              else Option.bind (trx_record_log INSERT_RECORD_LOG (trx_id tx) t (the rid) db1) (\<lambda>db2.
                     Some (SUCCESS, rid,
                           tx \<lparr> trx_operations := trx_operations tx @
                                  [\<lparr> op_type = INSERT, op_table = t, op_rid = the rid \<rparr>] \<rparr>, db2))))"

text \<open>
  Visiting a record of a table with a visitor that may fail an assertion, or that stores a code
  beside its answer: the visitor sees the data that \<^verbatim>\<open>get_record\<close> returns.
\<close>

definition visit_asserting ::
  "rid \<Rightarrow> (byte list \<Rightarrow> (RC \<times> bool \<times> byte list) option) \<Rightarrow> 'i heap_table \<Rightarrow> (RC \<times> RC \<times> 'i heap_table) option" where
  "visit_asserting r visitor tb =
    Option.bind (table_get_record r tb) (\<lambda>(rc, found).
      case found of
        None \<Rightarrow> Some (rc, SUCCESS, tb)
      | Some d \<Rightarrow>
          Option.bind (visitor d) (\<lambda>(stored, answer).
            Option.bind (table_visit_record r (\<lambda>_. answer) tb) (\<lambda>(rc, tb'). Some (rc, stored, tb'))))"

definition trx_delete_record ::
  "int \<Rightarrow> rid \<Rightarrow> mvcc_trx \<Rightarrow> 'i mvcc_db \<Rightarrow> (RC \<times> mvcc_trx \<times> 'i mvcc_db) option" where
  "trx_delete_record t r tx db =
    Option.bind (db_tables db t) (\<lambda>mt.
      Option.bind
        (visit_asserting r (\<lambda>d.
           let rc = visit_record (trx_id tx) (mt_fields mt) READ_WRITE d
           in Some (if OB_FAIL rc then (rc, False, d)
                    else (SUCCESS, True, set_int (end_field (mt_fields mt)) (- trx_id tx) d))) (mt_table mt))
        (\<lambda>(rc, delete_result, tb).
           let db1 = put_table t tb db
           in if OB_FAIL rc then Some (rc, tx, db1)
              else if OB_FAIL delete_result then Some (delete_result, tx, db1)
              else Option.bind (trx_record_log DELETE_RECORD_LOG (trx_id tx) t r db1) (\<lambda>db2.
                     Some (SUCCESS, tx \<lparr> trx_operations := trx_operations tx @
                                           [\<lparr> op_type = DELETE, op_table = t, op_rid = r \<rparr>] \<rparr>, db2))))"

definition trx_update_record :: "int \<Rightarrow> rid \<Rightarrow> byte list \<Rightarrow> mvcc_trx \<Rightarrow> 'i mvcc_db \<Rightarrow> RC \<times> mvcc_trx \<times> 'i mvcc_db" where
  "trx_update_record t r data tx db = (UNIMPLEMENTED, tx, db)"

section \<open>The end of a transaction\<close>

definition visit_in_db ::
  "int \<Rightarrow> rid \<Rightarrow> (trx_fields \<Rightarrow> byte list \<Rightarrow> (RC \<times> bool \<times> byte list) option) \<Rightarrow> 'i mvcc_db \<Rightarrow> (RC \<times> 'i mvcc_db) option" where
  "visit_in_db t r visitor db =
    Option.bind (db_tables db t) (\<lambda>mt.
      Option.bind (visit_asserting r (visitor (mt_fields mt)) (mt_table mt)) (\<lambda>(rc, _, tb).
        if rc = SUCCESS then Some (rc, put_table t tb db) else None))"

definition commit_operation :: "int \<Rightarrow> mvcc_trx \<Rightarrow> operation \<Rightarrow> 'i mvcc_db \<Rightarrow> (RC \<times> 'i mvcc_db) option" where
  "commit_operation commit_xid tx op db =
    (case op_type op of
       INSERT \<Rightarrow>
         visit_in_db (op_table op) (op_rid op) (\<lambda>fs d.
           if get_int (begin_field fs) d = - trx_id tx \<and> \<not> trx_recovering tx
           then Some (SUCCESS, True, set_int (begin_field fs) commit_xid d) else None) db
     | DELETE \<Rightarrow>
         visit_in_db (op_table op) (op_rid op) (\<lambda>fs d.
           if get_int (end_field fs) d = - trx_id tx
           then Some (SUCCESS, True, set_int (end_field fs) commit_xid d) else None) db
     | _ \<Rightarrow> None)"

fun commit_operations :: "int \<Rightarrow> mvcc_trx \<Rightarrow> operation list \<Rightarrow> RC \<Rightarrow> 'i mvcc_db \<Rightarrow> (RC \<times> 'i mvcc_db) option" where
  "commit_operations commit_xid tx [] rc db = Some (rc, db)"
| "commit_operations commit_xid tx (op # ops) rc db =
    Option.bind (commit_operation commit_xid tx op db) (\<lambda>(rc', db'). commit_operations commit_xid tx ops rc' db')"

definition commit_with_trx_id :: "int \<Rightarrow> mvcc_trx \<Rightarrow> 'i mvcc_db \<Rightarrow> (RC \<times> mvcc_trx \<times> 'i mvcc_db) option" where
  "commit_with_trx_id commit_xid tx db =
    (let tx1 = tx \<lparr> trx_started := False \<rparr>
     in Option.bind (commit_operations commit_xid tx1 (trx_operations tx1) SUCCESS db) (\<lambda>(rc, db1).
          Option.bind (if trx_recovering tx1 then Some (rc, db1) else trx_commit_log (trx_id tx1) commit_xid db1) (\<lambda>(rc, db2).
            Some (rc, tx1 \<lparr> trx_operations := [] \<rparr>, db2))))"

definition commit :: "mvcc_trx \<Rightarrow> 'i mvcc_db \<Rightarrow> (RC \<times> mvcc_trx \<times> 'i mvcc_db) option" where
  "commit tx db = (let (commit_xid, db') = next_trx_id db in commit_with_trx_id commit_xid tx db')"

text \<open>
  The loop of \<^verbatim>\<open>rollback\<close> over the operations, last one first.  The code of the previous round is seen
  by the next one.  The flag in the result says that the function returned from inside the loop.
\<close>

definition trx_rollback_insert ::
  "set_place \<Rightarrow> 'i index_op \<Rightarrow> mvcc_trx \<Rightarrow> operation \<Rightarrow> RC \<Rightarrow> 'i mvcc_db \<Rightarrow> (bool \<times> RC \<times> 'i mvcc_db) option" where
  "trx_rollback_insert place del tx op rc0 db =
    Option.bind (db_tables db (op_table op)) (\<lambda>mt.
      let remove = (\<lambda>data.
            Option.bind (table_delete_record place del data (op_rid op) (mt_table mt)) (\<lambda>(rc, tb).
              if rc = SUCCESS then Some (False, rc, put_table (op_table op) tb db) else None))
      in if trx_recovering tx then
           Option.bind (table_get_record (op_rid op) (mt_table mt)) (\<lambda>(rc, found).
             if OB_SUCC rc then
               if get_int (begin_field (mt_fields mt)) (the found) \<noteq> - trx_id tx then Some (False, rc, db)
               else remove found
             else if rc = RECORD_NOT_EXIST then Some (False, rc, db)
             else Some (True, rc, db))
         else remove None)"

definition trx_rollback_delete :: "mvcc_trx \<Rightarrow> operation \<Rightarrow> RC \<Rightarrow> 'i mvcc_db \<Rightarrow> (bool \<times> RC \<times> 'i mvcc_db) option" where
  "trx_rollback_delete tx op rc0 db =
    (if rc0 \<noteq> SUCCESS then None
     else
       map_option (\<lambda>(rc, db'). (False, rc, db'))
         (visit_in_db (op_table op) (op_rid op) (\<lambda>fs d.
            if trx_recovering tx \<and> get_int (end_field fs) d \<noteq> - trx_id tx then Some (SUCCESS, False, d)
            else if get_int (end_field fs) d = - trx_id tx
            then Some (SUCCESS, True, set_int (end_field fs) max_trx_id d) else None) db))"

fun rollback_operations ::
  "set_place \<Rightarrow> 'i index_op \<Rightarrow> mvcc_trx \<Rightarrow> operation list \<Rightarrow> RC \<Rightarrow> 'i mvcc_db \<Rightarrow> (bool \<times> RC \<times> 'i mvcc_db) option" where
  "rollback_operations place del tx [] rc db = Some (False, rc, db)"
| "rollback_operations place del tx (op # ops) rc db =
    Option.bind
      (case op_type op of
         INSERT \<Rightarrow> trx_rollback_insert place del tx op rc db
       | DELETE \<Rightarrow> trx_rollback_delete tx op rc db
       | _ \<Rightarrow> None)
      (\<lambda>(returned, rc', db').
         if returned then Some (True, rc', db') else rollback_operations place del tx ops rc' db')"

definition trx_rollback :: "set_place \<Rightarrow> 'i index_op \<Rightarrow> mvcc_trx \<Rightarrow> 'i mvcc_db \<Rightarrow> (RC \<times> mvcc_trx \<times> 'i mvcc_db) option" where
  "trx_rollback place del tx db =
    (let tx1 = tx \<lparr> trx_started := False \<rparr>
     in Option.bind (rollback_operations place del tx1 (rev (trx_operations tx1)) SUCCESS db) (\<lambda>(returned, rc, db1).
          if returned then Some (rc, tx1, db1)
          else
            let tx2 = tx1 \<lparr> trx_operations := [] \<rparr>
            in Option.bind (if trx_recovering tx2 then Some (rc, db1) else trx_rollback_log (trx_id tx2) db1) (\<lambda>(rc, db2).
                 Some (rc, tx2, db2))))"

section \<open>Recovery\<close>

definition find_table :: "byte list \<Rightarrow> 'i mvcc_db \<Rightarrow> RC" where
  "find_table payload db =
    (let op = log_field 0 payload
     in if op = log_operation_index INSERT_RECORD_LOG \<or> op = log_operation_index DELETE_RECORD_LOG then
          if db_tables db (log_field 2 payload) = None then SCHEMA_TABLE_NOT_EXIST else SUCCESS
        else SUCCESS)"

definition trx_redo :: "byte list \<Rightarrow> mvcc_trx \<Rightarrow> 'i mvcc_db \<Rightarrow> (RC \<times> mvcc_trx) option" where
  "trx_redo payload tx db =
    (let rc = find_table payload db; op = log_field 0 payload;
         r = \<lparr> rid_page_num = log_field 3 payload, rid_slot_num = log_field 4 payload \<rparr>;
         push = (\<lambda>ty. tx \<lparr> trx_operations := trx_operations tx @ [\<lparr> op_type = ty, op_table = log_field 2 payload, op_rid = r \<rparr>] \<rparr>)
     in if OB_FAIL rc then Some (rc, tx)
        else if op = log_operation_index INSERT_RECORD_LOG then Some (SUCCESS, push INSERT)
        else if op = log_operation_index DELETE_RECORD_LOG then Some (SUCCESS, push DELETE)
        else if op = log_operation_index COMMIT_LOG \<or> op = log_operation_index ROLLBACK_LOG then Some (SUCCESS, tx)
        else None)"

text \<open>
  The replayer.  Transactions are objects: \<open>tr_objects\<close> holds them by address, the map of the replayer
  and the list of the transaction manager hold addresses.  The map is a list of pairs in the order
  of iteration; an address \<open>None\<close> in it is a null pointer, which \<^verbatim>\<open>operator[]\<close> creates for a missing
  number.
\<close>

record 'i trx_replayer =
  tr_db :: "'i mvcc_db"
  tr_objects :: "nat \<Rightarrow> mvcc_trx option"
  trx_map :: "(int \<times> nat option) list"
  kit_trxes :: "nat list"

definition destroy_trx :: "nat option \<Rightarrow> 'i trx_replayer \<Rightarrow> 'i trx_replayer" where
  "destroy_trx a st =
    (case a of
       None \<Rightarrow> st
     | Some n \<Rightarrow> st \<lparr> kit_trxes := remove1 n (kit_trxes st), tr_objects := (tr_objects st)(n := None) \<rparr>)"

definition trx_ended :: "byte list \<Rightarrow> 'i trx_replayer \<Rightarrow> 'i trx_replayer" where
  "trx_ended payload st =
    (let i = log_field 1 payload; op = log_field 0 payload
     in if op = log_operation_index ROLLBACK_LOG \<or> op = log_operation_index COMMIT_LOG
        then (destroy_trx (Option.bind (map_of (trx_map st) i) id) st)
               \<lparr> trx_map := filter (\<lambda>(j, _). j \<noteq> i) (trx_map st) \<rparr>
        else st)"

text \<open>\<open>a\<close> is the address of the object that is created if the number is not in the map.\<close>

definition trx_log_replay :: "nat \<Rightarrow> byte list \<Rightarrow> 'i trx_replayer \<Rightarrow> (RC \<times> 'i trx_replayer) option" where
  "trx_log_replay a payload st =
    (if length payload < 8 then Some (LOG_ENTRY_INVALID, st)
     else
       let i = log_field 1 payload
       in case map_of (trx_map st) i of
            None \<Rightarrow>
              (let (tx, db') = create_recovering_trx i (tr_db st)
               in Option.bind (trx_redo payload tx db') (\<lambda>(rc, tx').
                    Some (rc, trx_ended payload
                            (st \<lparr> tr_db := db', tr_objects := (tr_objects st)(a \<mapsto> tx'), kit_trxes := kit_trxes st @ [a] \<rparr>))))
          | Some None \<Rightarrow> None
          | Some (Some n) \<Rightarrow>
              Option.bind (tr_objects st n) (\<lambda>tx.
                Option.bind (trx_redo payload tx (tr_db st)) (\<lambda>(rc, tx').
                  Some (rc, trx_ended payload (st \<lparr> tr_objects := (tr_objects st)(n \<mapsto> tx') \<rparr>)))))"

fun trx_replay_all :: "(nat \<times> byte list) list \<Rightarrow> 'i trx_replayer \<Rightarrow> (RC \<times> 'i trx_replayer) option" where
  "trx_replay_all [] st = Some (SUCCESS, st)"
| "trx_replay_all ((a, payload) # es) st =
    Option.bind (trx_log_replay a payload st) (\<lambda>(rc, st').
      if OB_FAIL rc then Some (rc, st') else trx_replay_all es st')"

fun rollback_unfinished ::
  "set_place \<Rightarrow> 'i index_op \<Rightarrow> (int \<times> nat option) list \<Rightarrow> 'i trx_replayer \<Rightarrow> 'i trx_replayer option" where
  "rollback_unfinished place del [] st = Some st"
| "rollback_unfinished place del ((i, a) # ps) st =
    Option.bind a (\<lambda>n. Option.bind (tr_objects st n) (\<lambda>tx.
      Option.bind (trx_rollback place del tx (tr_db st)) (\<lambda>(rc, tx', db').
        rollback_unfinished place del ps (st \<lparr> tr_db := db', tr_objects := (tr_objects st)(n := None) \<rparr>))))"

definition trx_on_done :: "set_place \<Rightarrow> 'i index_op \<Rightarrow> 'i trx_replayer \<Rightarrow> (RC \<times> 'i trx_replayer) option" where
  "trx_on_done place del st =
    map_option (\<lambda>st'. (SUCCESS, st' \<lparr> trx_map := [] \<rparr>)) (rollback_unfinished place del (trx_map st) st)"

section \<open>Records and their numbers\<close>

text \<open>The two fields lie apart, inside the record.\<close>

definition fields_ok :: "int \<Rightarrow> trx_fields \<Rightarrow> bool" where
  "fields_ok sz fs \<longleftrightarrow> begin_field fs + 4 \<le> nat sz \<and> end_field fs + 4 \<le> nat sz \<and>
     (begin_field fs + 4 \<le> end_field fs \<or> end_field fs + 4 \<le> begin_field fs)"

lemma length_set_int [simp]: "offset + 4 \<le> length data \<Longrightarrow> length (set_int offset v data) = length data"
  by (simp add: set_int_def)

lemma get_set_int_same:
  assumes "offset + 4 \<le> length data" "int32 v"
  shows "get_int offset (set_int offset v data) = v"
proof -
  have "take 4 (drop offset (set_int offset v data)) = le_bytes 4 v"
    using assms(1) by (simp add: set_int_def write_at_def)
  with assms(2) show ?thesis by (simp add: get_int_def int32_bytes)
qed

lemma get_set_int_other:
  assumes "off + 4 \<le> length data" "offset + 4 \<le> length data" "offset + 4 \<le> off \<or> off + 4 \<le> offset"
  shows "get_int off (set_int offset v data) = get_int off data"
proof -
  have "take 4 (drop off (set_int offset v data)) = take 4 (drop off data)"
    using assms by (intro nth_equalityI) (auto simp: set_int_def nth_write_at)
  then show ?thesis by (simp add: get_int_def)
qed

end
