(* ===== verification/Mvcc_Inv.thy ===== *)
theory Mvcc_Inv
  imports Mvcc_Trx
begin

text \<open>
  Correctness of the multi-version transactions on tables without indexes: what every operation does
  to the transaction numbers of the records, the invariant of a system of interleaved
  transactions, and what a transaction sees.
\<close>

section \<open>The numbers of all records\<close>

type_synonym record_key = "int \<times> rid"

definition table_ok :: "'i mvcc_table \<Rightarrow> bool" where
  "table_ok mt \<longleftrightarrow> file_wf (ht_record_size (mt_table mt)) (ht_file (mt_table mt)) \<and> ht_indexes (mt_table mt) = [] \<and>
     fields_ok (ht_record_size (mt_table mt)) (mt_fields mt)"

definition db_ok :: "'i mvcc_db \<Rightarrow> bool" where
  "db_ok db \<longleftrightarrow> (\<forall>t mt. db_tables db t = Some mt \<longrightarrow> table_ok mt)"

definition versions :: "'i mvcc_db \<Rightarrow> record_key \<Rightarrow> (int \<times> int) option" where
  "versions db k =
    (case db_tables db (fst k) of
       None \<Rightarrow> None
     | Some mt \<Rightarrow>
         map_option (\<lambda>d. (get_int (begin_field (mt_fields mt)) d, get_int (end_field (mt_fields mt)) d))
           (file_map (ht_file (mt_table mt)) (snd k)))"

text \<open>Two databases with the same tables, which may differ in the records.\<close>

definition same_schema :: "'i mvcc_db \<Rightarrow> 'i mvcc_db \<Rightarrow> bool" where
  "same_schema db db' \<longleftrightarrow>
     (\<forall>t. map_option (\<lambda>mt. (mt_fields mt, ht_record_size (mt_table mt))) (db_tables db' t) =
          map_option (\<lambda>mt. (mt_fields mt, ht_record_size (mt_table mt))) (db_tables db t))"

lemma same_schema_refl [simp]: "same_schema db db" by (simp add: same_schema_def)

lemma same_schema_trans: "same_schema db1 db2 \<Longrightarrow> same_schema db2 db3 \<Longrightarrow> same_schema db1 db3"
  by (simp add: same_schema_def)

lemma put_table_sel [simp]:
  "current_trx_id (put_table t tb db) = current_trx_id db" "db_log (put_table t tb db) = db_log db"
  "db_stack (put_table t tb db) = db_stack db"
  by (simp_all add: put_table_def)

text \<open>Putting back a table in which one record changed.\<close>

lemma put_table_versions:
  assumes ok: "db_ok db" and mt: "db_tables db t = Some mt"
    and tb: "file_wf (ht_record_size (mt_table mt)) (ht_file tb)" "ht_indexes tb = []"
      "ht_record_size tb = ht_record_size (mt_table mt)"
    and upd: "file_map (ht_file tb) = (file_map (ht_file (mt_table mt)))(r := v)"
  shows "db_ok (put_table t tb db)" "same_schema db (put_table t tb db)"
    "versions (put_table t tb db) = (versions db)((t, r) :=
       map_option (\<lambda>d. (get_int (begin_field (mt_fields mt)) d, get_int (end_field (mt_fields mt)) d)) v)"
proof -
  have "table_ok mt" using ok mt by (simp add: db_ok_def)
  then have "table_ok (mt \<lparr> mt_table := tb \<rparr>)" using tb by (simp add: table_ok_def)
  then show "db_ok (put_table t tb db)" using ok by (auto simp: db_ok_def put_table_def mt)
  show "same_schema db (put_table t tb db)" using tb(3) by (simp add: same_schema_def put_table_def mt)
  show "versions (put_table t tb db) = (versions db)((t, r) :=
       map_option (\<lambda>d. (get_int (begin_field (mt_fields mt)) d, get_int (end_field (mt_fields mt)) d)) v)"
    using upd by (auto simp: versions_def put_table_def mt fun_eq_iff)
qed

lemma put_table_same:
  assumes ok: "db_ok db" and mt: "db_tables db t = Some mt"
    and tb: "file_wf (ht_record_size (mt_table mt)) (ht_file tb)" "ht_indexes tb = []"
      "ht_record_size tb = ht_record_size (mt_table mt)" "file_map (ht_file tb) = file_map (ht_file (mt_table mt))"
  shows "db_ok (put_table t tb db)" "same_schema db (put_table t tb db)" "versions (put_table t tb db) = versions db"
proof -
  have "table_ok mt" using ok mt by (simp add: db_ok_def)
  then have "table_ok (mt \<lparr> mt_table := tb \<rparr>)" using tb by (simp add: table_ok_def)
  then show "db_ok (put_table t tb db)" using ok by (auto simp: db_ok_def put_table_def mt)
  show "same_schema db (put_table t tb db)" using tb(3) by (simp add: same_schema_def put_table_def mt)
  show "versions (put_table t tb db) = versions db"
    using tb(4) by (auto simp: versions_def put_table_def mt fun_eq_iff)
qed

lemma versions_data:
  assumes ok: "db_ok db" and v: "versions db (t, r) = Some (b, e)"
  obtains mt d where "db_tables db t = Some mt" "table_ok mt" "file_map (ht_file (mt_table mt)) r = Some d"
    "rid_in_page (ht_file (mt_table mt)) r" "length d = nat (ht_record_size (mt_table mt))"
    "get_int (begin_field (mt_fields mt)) d = b" "get_int (end_field (mt_fields mt)) d = e"
proof -
  from v obtain mt d where mt: "db_tables db t = Some mt" and d: "file_map (ht_file (mt_table mt)) r = Some d"
    "get_int (begin_field (mt_fields mt)) d = b" "get_int (end_field (mt_fields mt)) d = e"
    by (auto simp: versions_def split: option.splits)
  have tok: "table_ok mt" using ok mt by (simp add: db_ok_def)
  then have wf: "file_wf (ht_record_size (mt_table mt)) (ht_file (mt_table mt))" by (simp add: table_ok_def)
  note in_page = file_map_in_page [OF wf d(1)]
  from that [OF mt tok d(1) in_page(1,2) d(2,3)] show thesis .
qed

section \<open>What the operations do to the numbers\<close>

text \<open>A visitor that changes one of the two fields, or nothing.\<close>

lemma visit_asserting_ok:
  assumes tok: "table_ok mt" and d: "file_map (ht_file (mt_table mt)) r = Some d"
    and vis: "visitor d = Some (stored, u, d')" "length d' = length d"
  obtains tb where "visit_asserting r visitor (mt_table mt) = Some (SUCCESS, stored, tb)"
    "file_wf (ht_record_size (mt_table mt)) (ht_file tb)" "ht_indexes tb = []"
    "ht_record_size tb = ht_record_size (mt_table mt)"
    "file_map (ht_file tb) = (file_map (ht_file (mt_table mt)))(r \<mapsto> if u then d' else d)"
proof -
  let ?rf = "ht_file (mt_table mt)" and ?sz = "ht_record_size (mt_table mt)"
  have wf: "file_wf ?sz ?rf" and idx: "ht_indexes (mt_table mt) = []" using tok by (simp_all add: table_ok_def)
  note pg = file_map_in_page [OF wf d]
  have get: "table_get_record r (mt_table mt) = Some (SUCCESS, Some d)"
    using file_get_record_ok [OF wf pg(1)] d by (simp add: table_get_record_def)
  have "length (snd (u, d')) = nat ?sz" using vis(2) pg(2) by simp
  with file_visit_record_ok [OF wf pg(1), of "\<lambda>_. (u, d')"] d obtain rf' where
    rf': "file_visit_record r (\<lambda>_. (u, d')) ?rf = Some (SUCCESS, rf')" "file_wf ?sz rf'"
      "file_map rf' = (if u then (file_map ?rf)(r \<mapsto> d') else file_map ?rf)"
    by (auto split: option.splits)
  have same: "(file_map ?rf)(r \<mapsto> d) = file_map ?rf" using d by (simp add: fun_upd_idem)
  have "visit_asserting r visitor (mt_table mt) = Some (SUCCESS, stored, (mt_table mt) \<lparr> ht_file := rf' \<rparr>)"
    using get vis(1) rf'(1) by (simp add: visit_asserting_def table_visit_record_def)
  from that [OF this] rf'(2,3) idx same show thesis by (cases u) simp_all
qed

text \<open>The visitors of a commit and of a rollback.\<close>

lemma visit_in_db_ok:
  assumes ok: "db_ok db" and v: "versions db (t, r) = Some (b, e)"
    and vis: "\<And>fs d. get_int (begin_field fs) d = b \<Longrightarrow> get_int (end_field fs) d = e \<Longrightarrow>
      visitor fs d = Some (SUCCESS, True, set_int (if at_begin then begin_field fs else end_field fs) x d)"
    and x: "int32 x"
  obtains db' where "visit_in_db t r visitor db = Some (SUCCESS, db')" "db_ok db'" "same_schema db db'"
    "versions db' = (versions db)((t, r) \<mapsto> (if at_begin then (x, e) else (b, x)))"
    "current_trx_id db' = current_trx_id db"
proof -
  from versions_data [OF ok v] obtain mt d where mt: "db_tables db t = Some mt" "table_ok mt"
    and d: "file_map (ht_file (mt_table mt)) r = Some d" "length d = nat (ht_record_size (mt_table mt))"
      "get_int (begin_field (mt_fields mt)) d = b" "get_int (end_field (mt_fields mt)) d = e" by blast
  let ?fs = "mt_fields mt"
  have fok: "fields_ok (int (length d)) ?fs" using mt(2) by (simp only: table_ok_def fields_ok_def nat_int d(2))
  let ?d = "set_int (if at_begin then begin_field ?fs else end_field ?fs) x d"
  have len: "length ?d = length d" using fok by (simp add: fields_ok_def)
  obtain tb where tb: "visit_asserting r (visitor ?fs) (mt_table mt) = Some (SUCCESS, SUCCESS, tb)"
    "file_wf (ht_record_size (mt_table mt)) (ht_file tb)" "ht_indexes tb = []"
    "ht_record_size tb = ht_record_size (mt_table mt)"
    "file_map (ht_file tb) = (file_map (ht_file (mt_table mt)))(r \<mapsto> ?d)"
    using visit_asserting_ok [OF mt(2) d(1), of "visitor ?fs" SUCCESS True ?d] vis [OF d(3,4)] len by auto
  note pt = put_table_versions [OF ok mt(1) tb(2-5)]
  have "visit_in_db t r visitor db = Some (SUCCESS, put_table t tb db)"
    using mt(1) tb(1) by (simp add: visit_in_db_def)
  moreover have "(get_int (begin_field ?fs) ?d, get_int (end_field ?fs) ?d) = (if at_begin then (x, e) else (b, x))"
    using fok x d(3,4) by (auto simp: fields_ok_def get_set_int_same get_set_int_other)
  ultimately show thesis using that [OF _ pt(1,2)] pt(3) by simp
qed

definition op_key :: "operation \<Rightarrow> record_key" where
  "op_key op = (op_table op, op_rid op)"

text \<open>The numbers that a transaction leaves behind: \<open>op_pending i V op\<close> says that it still owns them.\<close>

definition op_pending :: "int \<Rightarrow> (record_key \<Rightarrow> (int \<times> int) option) \<Rightarrow> operation \<Rightarrow> bool" where
  "op_pending i V op \<longleftrightarrow>
     (op_type op = INSERT \<and> V (op_key op) = Some (- i, max_trx_id) \<or>
      op_type op = DELETE \<and> (\<exists>b > 0. V (op_key op) = Some (b, - i)))"

definition commit_version :: "int \<Rightarrow> int \<Rightarrow> int \<times> int \<Rightarrow> int \<times> int" where
  "commit_version i c = (\<lambda>(b, e). (if b = - i then c else b, if e = - i then c else e))"

definition rollback_version :: "int \<Rightarrow> int \<times> int \<Rightarrow> (int \<times> int) option" where
  "rollback_version i = (\<lambda>(b, e). if b = - i then None else Some (b, if e = - i then max_trx_id else e))"

lemma commit_operation_ok:
  assumes ok: "db_ok db" and pend: "op_pending (trx_id tx) (versions db) op"
    and tx: "\<not> trx_recovering tx" "0 < trx_id tx" "trx_id tx < max_trx_id" and c: "int32 c"
  obtains db' where "commit_operation c tx op db = Some (SUCCESS, db')" "db_ok db'" "same_schema db db'"
    "versions db' = (versions db)(op_key op := map_option (commit_version (trx_id tx) c) (versions db (op_key op)))"
    "current_trx_id db' = current_trx_id db"
proof (cases "op_type op = INSERT")
  case True
  with pend have v: "versions db (op_table op, op_rid op) = Some (- trx_id tx, max_trx_id)"
    by (auto simp: op_pending_def op_key_def)
  let ?vis = "\<lambda>fs d. if get_int (begin_field fs) d = - trx_id tx \<and> \<not> trx_recovering tx
    then Some (SUCCESS, True, set_int (begin_field fs) c d) else None"
  obtain db' where "visit_in_db (op_table op) (op_rid op) ?vis db = Some (SUCCESS, db')" "db_ok db'" "same_schema db db'"
    "versions db' = (versions db)((op_table op, op_rid op) \<mapsto> (c, max_trx_id))" "current_trx_id db' = current_trx_id db"
    using visit_in_db_ok [OF ok v, of ?vis True c] c tx(1) by auto
  with that [of db'] tx v True show thesis by (simp add: op_key_def commit_version_def commit_operation_def)
next
  case False
  with pend obtain b where del: "op_type op = DELETE" and b: "0 < b"
    and v: "versions db (op_table op, op_rid op) = Some (b, - trx_id tx)"
    by (auto simp: op_pending_def op_key_def)
  let ?vis = "\<lambda>fs d. if get_int (end_field fs) d = - trx_id tx
    then Some (SUCCESS, True, set_int (end_field fs) c d) else None"
  obtain db' where "visit_in_db (op_table op) (op_rid op) ?vis db = Some (SUCCESS, db')" "db_ok db'" "same_schema db db'"
    "versions db' = (versions db)((op_table op, op_rid op) \<mapsto> (b, c))" "current_trx_id db' = current_trx_id db"
    using visit_in_db_ok [OF ok v, of ?vis False c] c by auto
  with that [of db'] tx v b del show thesis by (simp add: op_key_def commit_version_def commit_operation_def)
qed

lemma op_pending_upd [simp]: "op_key op \<noteq> k \<Longrightarrow> op_pending i (V(k := v)) op = op_pending i V op"
  by (simp add: op_pending_def)

lemma commit_operations_ok:
  assumes "db_ok db" "\<forall>op \<in> set ops. op_pending (trx_id tx) (versions db) op" "distinct (map op_key ops)"
    and tx: "\<not> trx_recovering tx" "0 < trx_id tx" "trx_id tx < max_trx_id" and c: "int32 c"
  shows "\<exists>db'. commit_operations c tx ops SUCCESS db = Some (SUCCESS, db') \<and> db_ok db' \<and> same_schema db db' \<and>
    current_trx_id db' = current_trx_id db \<and>
    versions db' = (\<lambda>k. if k \<in> op_key ` set ops then map_option (commit_version (trx_id tx) c) (versions db k) else versions db k)"
  using assms(1-3)
proof (induction ops arbitrary: db)
  case (Cons op ops)
  from Cons.prems(2) have "op_pending (trx_id tx) (versions db) op" by simp
  from commit_operation_ok [OF Cons.prems(1) this tx c] obtain db1 where
    s: "commit_operation c tx op db = Some (SUCCESS, db1)" "db_ok db1" "same_schema db db1"
      "versions db1 = (versions db)(op_key op := map_option (commit_version (trx_id tx) c) (versions db (op_key op)))"
      "current_trx_id db1 = current_trx_id db" by blast
  have "op_pending (trx_id tx) (versions db1) q" if "q \<in> set ops" for q
  proof -
    have "op_key op \<notin> op_key ` set ops" using Cons.prems(3) by simp
    with that have "op_key q \<noteq> op_key op" by (metis imageI)
    with that Cons.prems(2) show ?thesis by (simp add: s(4))
  qed
  with Cons.IH [OF s(2)] Cons.prems(3) obtain db' where
    f: "commit_operations c tx ops SUCCESS db1 = Some (SUCCESS, db')" "db_ok db'" "same_schema db1 db'"
    "current_trx_id db' = current_trx_id db1"
    "versions db' = (\<lambda>k. if k \<in> op_key ` set ops then map_option (commit_version (trx_id tx) c) (versions db1 k) else versions db1 k)"
    by auto
  have "versions db' = (\<lambda>k. if k \<in> op_key ` set (op # ops)
      then map_option (commit_version (trx_id tx) c) (versions db k) else versions db k)"
    using Cons.prems(3) unfolding f(5) s(4) by (intro ext) auto
  with s f show ?case by (intro exI [of _ db']) (auto intro: same_schema_trans)
qed auto

lemma rollback_insert_ok:
  assumes pl: "set_insertion place" and ok: "db_ok db" and v: "versions db (op_key op) = Some (- trx_id tx, max_trx_id)"
    and tx: "\<not> trx_recovering tx"
  obtains db' where "trx_rollback_insert place del tx op rc db = Some (False, SUCCESS, db')" "db_ok db'" "same_schema db db'"
    "versions db' = (versions db)(op_key op := None)" "current_trx_id db' = current_trx_id db"
proof -
  from v have v': "versions db (op_table op, op_rid op) = Some (- trx_id tx, max_trx_id)" by (simp add: op_key_def)
  from versions_data [OF ok v'] obtain mt d where mt: "db_tables db (op_table op) = Some mt" "table_ok mt"
    and d: "file_map (ht_file (mt_table mt)) (op_rid op) = Some d" "rid_in_page (ht_file (mt_table mt)) (op_rid op)" by blast
  let ?tb = "mt_table mt"
  have wf: "file_wf (ht_record_size ?tb) (ht_file ?tb)" and idx: "ht_indexes ?tb = []" using mt(2) by (simp_all add: table_ok_def)
  from file_delete_record_ok [OF pl wf d(2)] d(1) obtain rf where
    rf: "file_delete_record place (op_rid op) (ht_file ?tb) = Some (SUCCESS, rf)" "file_wf (ht_record_size ?tb) rf"
      "file_map rf = (file_map (ht_file ?tb))(op_rid op := None)" by (auto split: option.splits prod.splits)
  let ?tb' = "?tb \<lparr> ht_indexes := [], ht_file := rf \<rparr>"
  have "table_delete_record place del None (op_rid op) ?tb = Some (SUCCESS, ?tb')"
    using rf(1) idx by (simp add: table_delete_record_def)
  then have "trx_rollback_insert place del tx op rc db = Some (False, SUCCESS, put_table (op_table op) ?tb' db)"
    using mt(1) tx by (simp add: trx_rollback_insert_def Let_def)
  moreover note put_table_versions [OF ok mt(1), of ?tb' "op_rid op" None]
  ultimately show thesis using that [of "put_table (op_table op) ?tb' db"] rf by (simp add: op_key_def)
qed

lemma rollback_delete_ok:
  assumes ok: "db_ok db" and v: "versions db (op_key op) = Some (b, - trx_id tx)" and tx: "\<not> trx_recovering tx"
  obtains db' where "trx_rollback_delete tx op SUCCESS db = Some (False, SUCCESS, db')" "db_ok db'" "same_schema db db'"
    "versions db' = (versions db)(op_key op \<mapsto> (b, max_trx_id))" "current_trx_id db' = current_trx_id db"
proof -
  from v have v': "versions db (op_table op, op_rid op) = Some (b, - trx_id tx)" by (simp add: op_key_def)
  let ?vis = "\<lambda>fs d. if trx_recovering tx \<and> get_int (end_field fs) d \<noteq> - trx_id tx then Some (SUCCESS, False, d)
    else if get_int (end_field fs) d = - trx_id tx then Some (SUCCESS, True, set_int (end_field fs) max_trx_id d) else None"
  have "int32 max_trx_id" by (simp add: int32_def max_trx_id_def)
  with visit_in_db_ok [OF ok v', of ?vis False max_trx_id] tx obtain db' where
    "visit_in_db (op_table op) (op_rid op) ?vis db = Some (SUCCESS, db')" "db_ok db'" "same_schema db db'"
    "versions db' = (versions db)((op_table op, op_rid op) \<mapsto> (b, max_trx_id))" "current_trx_id db' = current_trx_id db"
    by auto
  then show thesis using that [of db'] by (simp add: trx_rollback_delete_def op_key_def)
qed

lemma rollback_operations_ok:
  assumes pl: "set_insertion place"
    and "db_ok db" "\<forall>op \<in> set ops. op_pending (trx_id tx) (versions db) op" "distinct (map op_key ops)"
    and tx: "\<not> trx_recovering tx" "0 < trx_id tx"
  shows "\<exists>db'. rollback_operations place del tx ops SUCCESS db = Some (False, SUCCESS, db') \<and> db_ok db' \<and> same_schema db db' \<and>
    current_trx_id db' = current_trx_id db \<and>
    versions db' = (\<lambda>k. if k \<in> op_key ` set ops then Option.bind (versions db k) (rollback_version (trx_id tx)) else versions db k)"
  using assms(2-4)
proof (induction ops arbitrary: db)
  case (Cons op ops)
  have pend: "op_pending (trx_id tx) (versions db) op" using Cons.prems(2) by simp
  obtain db1 where s: "(case op_type op of INSERT \<Rightarrow> trx_rollback_insert place del tx op SUCCESS db
        | DELETE \<Rightarrow> trx_rollback_delete tx op SUCCESS db | _ \<Rightarrow> None) = Some (False, SUCCESS, db1)"
      "db_ok db1" "same_schema db db1" "current_trx_id db1 = current_trx_id db"
      "versions db1 = (versions db)(op_key op := Option.bind (versions db (op_key op)) (rollback_version (trx_id tx)))"
  proof (cases "op_type op = INSERT")
    case True
    with pend have "versions db (op_key op) = Some (- trx_id tx, max_trx_id)" by (auto simp: op_pending_def)
    with rollback_insert_ok [OF pl Cons.prems(1) this tx(1), of del SUCCESS] that True show thesis
      by (auto simp: rollback_version_def)
  next
    case False
    with pend obtain b where "op_type op = DELETE" "0 < b" "versions db (op_key op) = Some (b, - trx_id tx)"
      by (auto simp: op_pending_def)
    with rollback_delete_ok [OF Cons.prems(1) this(3) tx(1)] that tx(2) show thesis
      by (auto simp: rollback_version_def)
  qed
  have "op_pending (trx_id tx) (versions db1) q" if "q \<in> set ops" for q
  proof -
    have "op_key op \<notin> op_key ` set ops" using Cons.prems(3) by simp
    with that have "op_key q \<noteq> op_key op" by (metis imageI)
    with that Cons.prems(2) show ?thesis by (simp add: s(5))
  qed
  with Cons.IH [OF s(2)] Cons.prems(3) obtain db' where
    f: "rollback_operations place del tx ops SUCCESS db1 = Some (False, SUCCESS, db')" "db_ok db'" "same_schema db1 db'"
    "current_trx_id db' = current_trx_id db1"
    "versions db' = (\<lambda>k. if k \<in> op_key ` set ops then Option.bind (versions db1 k) (rollback_version (trx_id tx)) else versions db1 k)"
    by auto
  have "versions db' = (\<lambda>k. if k \<in> op_key ` set (op # ops)
      then Option.bind (versions db k) (rollback_version (trx_id tx)) else versions db k)"
    using Cons.prems(3) unfolding f(5) s(5) by (intro ext) auto
  with s f show ?case by (intro exI [of _ db']) (auto intro: same_schema_trans)
qed auto

text \<open>Writing the log or drawing a number touches no record.\<close>

lemma db_frame [simp]:
  "versions (append_trx_log x db) = versions db" "db_ok (append_trx_log x db) = db_ok db"
  "same_schema db0 (append_trx_log x db) = same_schema db0 db"
  "current_trx_id (append_trx_log x db) = current_trx_id db"
  "versions (db \<lparr> current_trx_id := n \<rparr>) = versions db" "db_ok (db \<lparr> current_trx_id := n \<rparr>) = db_ok db"
  "same_schema db0 (db \<lparr> current_trx_id := n \<rparr>) = same_schema db0 db"
  "same_schema (db \<lparr> current_trx_id := n \<rparr>) db0 = same_schema db db0"
  by (simp_all add: append_trx_log_def versions_def db_ok_def same_schema_def fun_eq_iff cong: option.case_cong)

text \<open>What visiting answers, as a function of the two numbers.\<close>

definition version_rc :: "int \<Rightarrow> ReadWriteMode \<Rightarrow> int \<times> int \<Rightarrow> RC" where
  "version_rc i mode = (\<lambda>(b, e).
     if b > 0 \<and> e > 0 then if b \<le> i \<and> i \<le> e then SUCCESS else RECORD_INVISIBLE
     else if b < 0 then if b = - i then SUCCESS else RECORD_INVISIBLE
     else if e < 0 then
       if e = - i then RECORD_INVISIBLE
       else if mode = READ_ONLY then SUCCESS else LOCKED_CONCURRENCY_CONFLICT
     else SUCCESS)"

lemma visit_record_version:
  "visit_record i fs mode d = version_rc i mode (get_int (begin_field fs) d, get_int (end_field fs) d)"
  by (auto simp: visit_record_def version_rc_def Let_def)

lemma trx_insert_record_ok:
  assumes pl: "set_insertion place" and ok: "db_ok db" and mt: "db_tables db t = Some mt"
    and len: "length data = nat (ht_record_size (mt_table mt))" and i: "0 < trx_id tx" "trx_id tx < max_trx_id"
  shows "\<exists>rc rid tx' db'. trx_insert_record place ins del t data tx db = Some (rc, rid, tx', db') \<and>
    db_ok db' \<and> same_schema db db' \<and> current_trx_id db' = current_trx_id db \<and>
    (rc \<noteq> SUCCESS \<and> file_full (ht_file (mt_table mt)) \<and> tx' = tx \<and> versions db' = versions db \<or>
     (\<exists>r. rc = SUCCESS \<and> rid = Some r \<and> versions db (t, r) = None \<and>
        versions db' = (versions db)((t, r) \<mapsto> (- trx_id tx, max_trx_id)) \<and>
        tx' = tx \<lparr> trx_operations := trx_operations tx @ [\<lparr> op_type = INSERT, op_table = t, op_rid = r \<rparr>] \<rparr>))"
proof -
  let ?tb = "mt_table mt" and ?fs = "mt_fields mt"
  let ?d = "set_int (end_field ?fs) max_trx_id (set_int (begin_field ?fs) (- trx_id tx) data)"
  have tok: "table_ok mt" using ok mt by (simp add: db_ok_def)
  then have wf: "file_wf (ht_record_size ?tb) (ht_file ?tb)" and idx: "ht_indexes ?tb = []"
    and fok: "begin_field ?fs + 4 \<le> length data" "end_field ?fs + 4 \<le> length data"
      "begin_field ?fs + 4 \<le> end_field ?fs \<or> end_field ?fs + 4 \<le> begin_field ?fs"
    by (simp_all add: table_ok_def fields_ok_def len)
  have i32: "int32 (- trx_id tx)" "int32 max_trx_id" using i by (simp_all add: int32_def max_trx_id_def)
  have dlen: "length ?d = nat (ht_record_size ?tb)" using fok len by simp
  have nums: "get_int (begin_field ?fs) ?d = - trx_id tx" "get_int (end_field ?fs) ?d = max_trx_id"
    using fok i32 by (auto simp: get_set_int_same get_set_int_other)
  from file_insert_record_ok [OF pl wf dlen] obtain rc rid rf where
    rf: "file_insert_record place ?d (ht_record_size ?tb) (ht_file ?tb) = Some (rc, rid, rf)" "file_wf (ht_record_size ?tb) rf"
      "rc \<noteq> SUCCESS \<and> file_full (ht_file ?tb) \<and> file_map rf = file_map (ht_file ?tb) \<or>
       (\<exists>r. rc = SUCCESS \<and> rid = Some r \<and> file_map (ht_file ?tb) r = None \<and> file_map rf = (file_map (ht_file ?tb))(r \<mapsto> ?d))"
    by (auto split: option.splits prod.splits if_splits)
  let ?tb' = "?tb \<lparr> ht_file := rf \<rparr>"
  from rf(3) show ?thesis
  proof (elim disjE exE conjE)
    assume fail: "rc \<noteq> SUCCESS" "file_full (ht_file ?tb)" "file_map rf = file_map (ht_file ?tb)"
    have "trx_insert_record place ins del t data tx db = Some (rc, rid, tx, put_table t ?tb' db)"
      using mt rf(1) fail(1) by (simp add: trx_insert_record_def table_insert_record_def Let_def)
    then show ?thesis using put_table_same [OF ok mt, of ?tb'] rf(2) fail idx by auto
  next
    fix r
    assume succ: "rc = SUCCESS" "rid = Some r" "file_map (ht_file ?tb) r = None" "file_map rf = (file_map (ht_file ?tb))(r \<mapsto> ?d)"
    let ?tx = "tx \<lparr> trx_operations := trx_operations tx @ [\<lparr> op_type = INSERT, op_table = t, op_rid = r \<rparr>] \<rparr>"
    let ?tb2 = "?tb' \<lparr> ht_indexes := [] \<rparr>"
    obtain log where "trx_insert_record place ins del t data tx db =
        Some (SUCCESS, Some r, ?tx, append_trx_log log (put_table t ?tb2 db))"
      using mt rf(1) succ(1,2) idx i(1) by (simp add: trx_insert_record_def table_insert_record_def trx_record_log_def Let_def)
    moreover have "versions db (t, r) = None" using succ(3) by (simp add: versions_def mt)
    moreover note put_table_versions [OF ok mt, of ?tb2 r "Some ?d"]
    ultimately show ?thesis using rf(2) succ(4) nums by auto
  qed
qed

lemma trx_delete_record_ok:
  assumes ok: "db_ok db" and v: "versions db (t, r) = Some (b, e)" and i: "0 < trx_id tx" "trx_id tx < max_trx_id"
  shows "\<exists>tx' db'. trx_delete_record t r tx db = Some (version_rc (trx_id tx) READ_WRITE (b, e), tx', db') \<and>
    db_ok db' \<and> same_schema db db' \<and> current_trx_id db' = current_trx_id db \<and>
    (if version_rc (trx_id tx) READ_WRITE (b, e) = SUCCESS
     then versions db' = (versions db)((t, r) \<mapsto> (b, - trx_id tx)) \<and>
       tx' = tx \<lparr> trx_operations := trx_operations tx @ [\<lparr> op_type = DELETE, op_table = t, op_rid = r \<rparr>] \<rparr>
     else versions db' = versions db \<and> tx' = tx)"
proof -
  from versions_data [OF ok v] obtain mt d where mt: "db_tables db t = Some mt" "table_ok mt"
    and d: "file_map (ht_file (mt_table mt)) r = Some d" "length d = nat (ht_record_size (mt_table mt))"
      "get_int (begin_field (mt_fields mt)) d = b" "get_int (end_field (mt_fields mt)) d = e" by blast
  let ?fs = "mt_fields mt" and ?rc = "version_rc (trx_id tx) READ_WRITE (b, e)"
  have fok: "fields_ok (int (length d)) ?fs" using mt(2) by (simp only: table_ok_def fields_ok_def nat_int d(2))
  have i32: "int32 (- trx_id tx)" using i by (simp add: int32_def max_trx_id_def)
  let ?vis = "\<lambda>d. let rc = visit_record (trx_id tx) ?fs READ_WRITE d
    in Some (if OB_FAIL rc then (rc, False, d) else (SUCCESS, True, set_int (end_field ?fs) (- trx_id tx) d))"
  let ?d = "set_int (end_field ?fs) (- trx_id tx) d"
  have len: "length ?d = length d" using fok by (simp add: fields_ok_def)
  have vis: "?vis d = Some (?rc, ?rc = SUCCESS, if ?rc = SUCCESS then ?d else d)"
    by (simp add: visit_record_version d(3,4) Let_def)
  obtain tb where
    tb: "visit_asserting r ?vis (mt_table mt) = Some (SUCCESS, ?rc, tb)"
      "file_wf (ht_record_size (mt_table mt)) (ht_file tb)" "ht_indexes tb = []"
      "ht_record_size tb = ht_record_size (mt_table mt)"
      "file_map (ht_file tb) = (file_map (ht_file (mt_table mt)))(r \<mapsto> if ?rc = SUCCESS then ?d else d)"
  proof (rule visit_asserting_ok [where visitor = ?vis, OF mt(2) d(1) vis])
    show "length (if ?rc = SUCCESS then ?d else d) = length d" using len by simp
  qed (use that in auto)
  show ?thesis
  proof (cases "?rc = SUCCESS")
    case True
    obtain log where "trx_delete_record t r tx db = Some (SUCCESS,
        tx \<lparr> trx_operations := trx_operations tx @ [\<lparr> op_type = DELETE, op_table = t, op_rid = r \<rparr>] \<rparr>,
        append_trx_log log (put_table t tb db))"
      using mt(1) tb(1) i(1) True unfolding trx_delete_record_def by (simp add: trx_record_log_def Let_def)
    moreover have "get_int (begin_field ?fs) ?d = b" "get_int (end_field ?fs) ?d = - trx_id tx"
      using fok i32 d(3,4) by (auto simp: fields_ok_def get_set_int_same get_set_int_other)
    ultimately show ?thesis using put_table_versions [OF ok mt(1) tb(2-5)] True by simp
  next
    case False
    have "trx_delete_record t r tx db = Some (?rc, tx, put_table t tb db)"
      using mt(1) tb(1) False unfolding trx_delete_record_def by (simp add: Let_def)
    moreover have "file_map (ht_file tb) = file_map (ht_file (mt_table mt))" using tb(5) False d(1) by (simp add: fun_upd_idem)
    ultimately show ?thesis using put_table_same [OF ok mt(1) tb(2-4)] False by simp
  qed
qed

section \<open>A system of transactions\<close>

text \<open>The sessions, each with its transaction object, and the database they share.\<close>

record 'i mvcc_system =
  sy_db :: "'i mvcc_db"
  sy_trx :: "nat \<Rightarrow> mvcc_trx"

text \<open>
  Deletions that keep the numbers consistent: a transaction does not delete a record that it has
  inserted itself, nor one whose deletion has been committed after it started.  (The source does
  not refuse these two.)
\<close>

definition clean_delete :: "int \<Rightarrow> int \<times> int \<Rightarrow> bool" where
  "clean_delete i = (\<lambda>(b, e). b \<noteq> - i \<and> \<not> (0 < e \<and> e < max_trx_id \<and> i \<le> e))"

inductive mvcc_step :: "nat \<Rightarrow> 'i mvcc_system \<Rightarrow> 'i mvcc_system \<Rightarrow> bool" for h where
  step_begin: "start_if_need (sy_trx s h) (sy_db s) = Some (rc, tx, db) \<Longrightarrow> current_trx_id (sy_db s) + 1 < max_trx_id \<Longrightarrow>
    mvcc_step h s (s \<lparr> sy_db := db, sy_trx := (sy_trx s)(h := tx) \<rparr>)"
| step_trx_insert: "trx_started (sy_trx s h) \<Longrightarrow> set_insertion place \<Longrightarrow> db_tables (sy_db s) t = Some mt \<Longrightarrow>
    length data = nat (ht_record_size (mt_table mt)) \<Longrightarrow>
    trx_insert_record place ins del t data (sy_trx s h) (sy_db s) = Some (rc, rid, tx, db) \<Longrightarrow>
    mvcc_step h s (s \<lparr> sy_db := db, sy_trx := (sy_trx s)(h := tx) \<rparr>)"
| step_trx_delete: "trx_started (sy_trx s h) \<Longrightarrow> versions (sy_db s) (t, r) = Some v \<Longrightarrow> clean_delete (trx_id (sy_trx s h)) v \<Longrightarrow>
    trx_delete_record t r (sy_trx s h) (sy_db s) = Some (rc, tx, db) \<Longrightarrow>
    mvcc_step h s (s \<lparr> sy_db := db, sy_trx := (sy_trx s)(h := tx) \<rparr>)"
| step_commit: "trx_started (sy_trx s h) \<Longrightarrow> commit (sy_trx s h) (sy_db s) = Some (rc, tx, db) \<Longrightarrow>
    current_trx_id (sy_db s) + 1 < max_trx_id \<Longrightarrow>
    mvcc_step h s (s \<lparr> sy_db := db, sy_trx := (sy_trx s)(h := tx) \<rparr>)"
| step_rollback: "trx_started (sy_trx s h) \<Longrightarrow> set_insertion place \<Longrightarrow>
    trx_rollback place del (sy_trx s h) (sy_db s) = Some (rc, tx, db) \<Longrightarrow>
    mvcc_step h s (s \<lparr> sy_db := db, sy_trx := (sy_trx s)(h := tx) \<rparr>)"

text \<open>A transaction as the others see it: its number, if it has one, and what it has done.\<close>

definition trx_ok :: "int \<Rightarrow> (record_key \<Rightarrow> (int \<times> int) option) \<Rightarrow> mvcc_trx \<Rightarrow> bool" where
  "trx_ok cur V tx \<longleftrightarrow> \<not> trx_recovering tx \<and> distinct (map op_key (trx_operations tx)) \<and>
     (if trx_started tx then 0 < trx_id tx \<and> trx_id tx \<le> cur \<and> (\<forall>op \<in> set (trx_operations tx). op_pending (trx_id tx) V op)
      else trx_operations tx = [])"

definition owned :: "(nat \<Rightarrow> mvcc_trx) \<Rightarrow> int \<Rightarrow> record_key \<Rightarrow> bool" where
  "owned trxs i k \<longleftrightarrow> (\<exists>h. trx_started (trxs h) \<and> trx_id (trxs h) = i \<and> k \<in> op_key ` set (trx_operations (trxs h)))"

definition version_ok :: "int \<Rightarrow> (nat \<Rightarrow> mvcc_trx) \<Rightarrow> record_key \<Rightarrow> int \<times> int \<Rightarrow> bool" where
  "version_ok cur trxs k = (\<lambda>(b, e).
     b \<noteq> 0 \<and> e \<noteq> 0 \<and> b \<le> cur \<and> (e \<le> cur \<or> e = max_trx_id) \<and>
     (b < 0 \<longrightarrow> e = max_trx_id \<and> owned trxs (- b) k) \<and> (e < 0 \<longrightarrow> owned trxs (- e) k))"

definition sys_inv :: "int \<Rightarrow> (record_key \<Rightarrow> (int \<times> int) option) \<Rightarrow> (nat \<Rightarrow> mvcc_trx) \<Rightarrow> bool" where
  "sys_inv cur V trxs \<longleftrightarrow> 0 \<le> cur \<and> cur < max_trx_id \<and> (\<forall>h. trx_ok cur V (trxs h)) \<and>
     (\<forall>h h'. trx_started (trxs h) \<longrightarrow> trx_started (trxs h') \<longrightarrow> trx_id (trxs h) = trx_id (trxs h') \<longrightarrow> h = h') \<and>
     (\<forall>k v. V k = Some v \<longrightarrow> version_ok cur trxs k v)"

definition mvcc_ok :: "'i mvcc_system \<Rightarrow> bool" where
  "mvcc_ok s \<longleftrightarrow> db_ok (sy_db s) \<and> sys_inv (current_trx_id (sy_db s)) (versions (sy_db s)) (sy_trx s)"

section \<open>The invariant\<close>

lemma op_pending_same_key:
  assumes "op_pending i V op" "op_pending j V op'" "op_key op = op_key op'" "0 < i" "0 < j" "i < max_trx_id" "j < max_trx_id"
  shows "i = j"
  using assms by (auto simp: op_pending_def)

text \<open>What the invariant says of one transaction and of one record.\<close>

lemma sys_invD:
  assumes "sys_inv cur V trxs"
  shows "0 \<le> cur" "cur < max_trx_id" "trx_ok cur V (trxs h)"
    "trx_started (trxs h) \<Longrightarrow> 0 < trx_id (trxs h) \<and> trx_id (trxs h) \<le> cur \<and> trx_id (trxs h) < max_trx_id \<and> \<not> trx_recovering (trxs h)"
    "trx_started (trxs h) \<Longrightarrow> op \<in> set (trx_operations (trxs h)) \<Longrightarrow> op_pending (trx_id (trxs h)) V op"
    "distinct (map op_key (trx_operations (trxs h)))"
    "V k = Some v \<Longrightarrow> version_ok cur trxs k v"
proof -
  show c: "0 \<le> cur" "cur < max_trx_id" and t: "trx_ok cur V (trxs h)" using assms unfolding sys_inv_def by blast+
  show "V k = Some v \<Longrightarrow> version_ok cur trxs k v" using assms unfolding sys_inv_def by blast
  from c t show "trx_started (trxs h) \<Longrightarrow> 0 < trx_id (trxs h) \<and> trx_id (trxs h) \<le> cur \<and> trx_id (trxs h) < max_trx_id \<and> \<not> trx_recovering (trxs h)"
    "trx_started (trxs h) \<Longrightarrow> op \<in> set (trx_operations (trxs h)) \<Longrightarrow> op_pending (trx_id (trxs h)) V op"
    "distinct (map op_key (trx_operations (trxs h)))" by (auto simp: trx_ok_def)
qed

lemma other_keys:
  assumes inv: "sys_inv cur V trxs" and st: "trx_started (trxs h)" "h' \<noteq> h"
    and op: "op \<in> set (trx_operations (trxs h))" "op' \<in> set (trx_operations (trxs h'))"
  shows "op_key op' \<noteq> op_key op"
proof
  assume eq: "op_key op' = op_key op"
  have st': "trx_started (trxs h')" using sys_invD(3) [OF inv, of h'] op(2) by (auto simp: trx_ok_def split: if_splits)
  note d = sys_invD(4,5) [OF inv]
  have "trx_id (trxs h') = trx_id (trxs h)"
    by (rule op_pending_same_key [OF d(2) [OF st' op(2)] d(2) [OF st(1) op(1)] eq]) (use d(1) st(1) st' in auto)
  with inv st st' show False unfolding sys_inv_def by blast
qed

text \<open>
  Every step changes one transaction and the records it owns, or one record nobody owns.  The
  other transactions keep what they own.
\<close>

lemma trx_ok_other:
  assumes "trx_ok cur V tx" "cur \<le> cur'" "\<And>op. op \<in> set (trx_operations tx) \<Longrightarrow> V' (op_key op) = V (op_key op)"
  shows "trx_ok cur' V' tx"
  using assms by (auto simp: trx_ok_def op_pending_def split: if_splits)

lemma owned_update:
  assumes "owned trxs i k" "\<not> (trx_started (trxs h) \<and> trx_id (trxs h) = i) \<or>
    trx_started tx \<and> trx_id tx = i \<and> op_key ` set (trx_operations (trxs h)) \<subseteq> op_key ` set (trx_operations tx)"
  shows "owned (trxs(h := tx)) i k"
proof -
  from assms(1) obtain g where g: "trx_started (trxs g)" "trx_id (trxs g) = i" "k \<in> op_key ` set (trx_operations (trxs g))"
    by (auto simp: owned_def)
  show ?thesis unfolding owned_def
    by (rule exI [of _ g]) (use g assms(2) in auto)
qed

lemma version_ok_update:
  assumes "version_ok cur trxs k v" "cur \<le> cur'"
    and "\<And>i. 0 < i \<Longrightarrow> i = - fst v \<or> i = - snd v \<Longrightarrow> owned trxs i k \<Longrightarrow> owned trxs' i k"
  shows "version_ok cur' trxs' k v"
proof -
  obtain b e where v: "v = (b, e)" by (cases v)
  from assms show ?thesis unfolding version_ok_def v by force
qed

lemma sys_inv_update:
  assumes inv: "sys_inv cur V trxs" and lim: "cur \<le> cur'" "cur' < max_trx_id"
    and tx: "trx_ok cur' V' tx" "\<And>g. trx_started tx \<Longrightarrow> g \<noteq> h \<Longrightarrow> trx_started (trxs g) \<Longrightarrow> trx_id (trxs g) \<noteq> trx_id tx"
    and oth: "\<And>g op. g \<noteq> h \<Longrightarrow> op \<in> set (trx_operations (trxs g)) \<Longrightarrow> V' (op_key op) = V (op_key op)"
    and ver: "\<And>k v. V' k = Some v \<Longrightarrow> version_ok cur' (trxs(h := tx)) k v"
  shows "sys_inv cur' V' (trxs(h := tx))"
proof -
  note d = sys_invD [OF inv]
  have all: "trx_ok cur' V' ((trxs(h := tx)) g)" for g
  proof (cases "g = h")
    case False
    then show ?thesis using trx_ok_other [OF d(3) lim(1), of g V'] oth by simp
  qed (simp add: tx(1))
  have uniq: "g = g'" if "trx_started ((trxs(h := tx)) g)" "trx_started ((trxs(h := tx)) g')"
    "trx_id ((trxs(h := tx)) g) = trx_id ((trxs(h := tx)) g')" for g g'
  proof (cases "g = h \<or> g' = h")
    case True
    with tx(2) that show ?thesis by (metis fun_upd_apply)
  next
    case False
    with inv that show ?thesis unfolding sys_inv_def by simp
  qed
  show ?thesis unfolding sys_inv_def
  proof (intro conjI allI impI)
    show "0 \<le> cur'" using lim(1) d(1) by linarith
    show "cur' < max_trx_id" by (rule lim(2))
  qed (rule all, rule uniq, assumption+, rule ver, assumption)
qed

lemma sys_inv_begin:
  assumes inv: "sys_inv cur V trxs" and new: "\<not> trx_started (trxs h)" and lim: "cur + 1 < max_trx_id"
  shows "sys_inv (cur + 1) V (trxs(h := (trxs h) \<lparr> trx_id := cur + 1, trx_started := True \<rparr>))" (is "sys_inv _ _ (trxs(h := ?tx))")
proof (rule sys_inv_update [OF inv])
  note d = sys_invD [OF inv]
  show "trx_ok (cur + 1) V ?tx" using d(1) d(3) [of h] new by (simp add: trx_ok_def)
  show "trx_id (trxs g) \<noteq> trx_id ?tx" if "trx_started (trxs g)" for g using d(4) [OF that] by auto
  show "version_ok (cur + 1) (trxs(h := ?tx)) k v" if "V k = Some v" for k v
    by (rule version_ok_update [OF d(7) [OF that]]) (use new in \<open>auto intro: owned_update\<close>)
qed (use lim in auto)

text \<open>A new operation of a started transaction on a record that no transaction owns.\<close>

definition push_op :: "operation_type \<Rightarrow> record_key \<Rightarrow> mvcc_trx \<Rightarrow> mvcc_trx" where
  "push_op ty k tx = tx \<lparr> trx_operations := trx_operations tx @ [\<lparr> op_type = ty, op_table = fst k, op_rid = snd k \<rparr>] \<rparr>"

lemma sys_inv_push:
  assumes inv: "sys_inv cur V trxs" and st: "trx_started (trxs h)"
    and free: "\<And>g op. op \<in> set (trx_operations (trxs g)) \<Longrightarrow> op_key op \<noteq> k"
    and new: "ty = INSERT \<and> v = (- trx_id (trxs h), max_trx_id) \<or>
      ty = DELETE \<and> (\<exists>b. v = (b, - trx_id (trxs h)) \<and> 0 < b \<and> b \<le> cur)"
  shows "sys_inv cur (V(k \<mapsto> v)) (trxs(h := push_op ty k (trxs h)))" (is "sys_inv _ _ (trxs(h := ?tx))")
proof (rule sys_inv_update [OF inv])
  note d = sys_invD [OF inv]
  let ?op = "\<lparr> op_type = ty, op_table = fst k, op_rid = snd k \<rparr>"
  have key: "op_key ?op = k" by (simp add: op_key_def)
  have ops: "trx_operations ?tx = trx_operations (trxs h) @ [?op]" "trx_started ?tx" "trx_id ?tx = trx_id (trxs h)"
    "\<not> trx_recovering ?tx" using st d(4) [OF st] by (simp_all add: push_op_def)
  have "op_pending (trx_id (trxs h)) (V(k \<mapsto> v)) ?op" using new key by (auto simp: op_pending_def)
  moreover have "k \<notin> op_key ` set (trx_operations (trxs h))" using free [of _ h] by auto
  ultimately show "trx_ok cur (V(k \<mapsto> v)) ?tx"
    using d(4-6) [of h] st ops free [of _ h] key by (auto simp: trx_ok_def)
  show "trx_id (trxs g) \<noteq> trx_id ?tx" if "g \<noteq> h" "trx_started (trxs g)" for g
    using inv st that ops(3) unfolding sys_inv_def by auto
  show "(V(k \<mapsto> v)) (op_key op) = V (op_key op)" if "op \<in> set (trx_operations (trxs g))" for g op
    using free [OF that] by simp
  have own: "owned (trxs(h := ?tx)) (trx_id (trxs h)) k"
    unfolding owned_def using ops key by (intro exI [of _ h]) auto
  show "version_ok cur (trxs(h := ?tx)) k' w" if "(V(k \<mapsto> v)) k' = Some w" for k' w
  proof (cases "k' = k")
    case True
    then have "w = v" using that by simp
    with new own d(4) [OF st] True d(1) show ?thesis by (auto simp: version_ok_def max_trx_id_def)
  next
    case False
    then have "V k' = Some w" using that by simp
    with ops st show ?thesis
      by (intro version_ok_update [OF d(7)]) (auto intro!: owned_update)
  qed
qed (use sys_invD(2) [OF inv] in auto)

text \<open>The end of a transaction: its records become nobody's.\<close>

abbreviation trx_keys :: "mvcc_trx \<Rightarrow> record_key set" where
  "trx_keys tx \<equiv> op_key ` set (trx_operations tx)"

abbreviation trx_end :: "mvcc_trx \<Rightarrow> mvcc_trx" where
  "trx_end tx \<equiv> tx \<lparr> trx_started := False, trx_operations := [] \<rparr>"

lemma owned_self:
  assumes "sys_inv cur V trxs" "trx_started (trxs h)" "owned trxs (trx_id (trxs h)) k"
  shows "k \<in> trx_keys (trxs h)"
  using assms unfolding sys_inv_def owned_def by metis

lemma sys_inv_end:
  assumes inv: "sys_inv cur V trxs" and st: "trx_started (trxs h)" and lim: "cur \<le> cur'" "cur' < max_trx_id"
    and out: "\<And>k. k \<notin> trx_keys (trxs h) \<Longrightarrow> V' k = V k"
    and closed: "\<And>k b e. k \<in> trx_keys (trxs h) \<Longrightarrow> V' k = Some (b, e) \<Longrightarrow>
      0 < b \<and> b \<le> cur' \<and> 0 < e \<and> (e \<le> cur' \<or> e = max_trx_id)"
  shows "sys_inv cur' V' (trxs(h := trx_end (trxs h)))"
proof (rule sys_inv_update [OF inv lim])
  note d = sys_invD [OF inv]
  show "trx_ok cur' V' (trx_end (trxs h))" using d(4) [OF st] by (simp add: trx_ok_def)
  show "V' (op_key op) = V (op_key op)" if "g \<noteq> h" "op \<in> set (trx_operations (trxs g))" for g op
    using other_keys [OF inv st that(1) _ that(2)] by (intro out) auto
  show "version_ok cur' (trxs(h := trx_end (trxs h))) k v" if "V' k = Some v" for k v
  proof (cases "k \<in> trx_keys (trxs h)")
    case True
    obtain b e where v: "v = (b, e)" by (cases v)
    with closed [OF True] that show ?thesis by (auto simp: version_ok_def)
  next
    case False
    show ?thesis
    proof (rule version_ok_update [OF d(7) lim(1)])
      show "V k = Some v" using out [OF False] that by simp
      show "owned (trxs(h := trx_end (trxs h))) i k" if "owned trxs i k" for i
        using that False owned_self [OF inv st, of k] by (intro owned_update) auto
    qed
  qed
qed auto

lemma pending_commit:
  assumes inv: "sys_inv cur V trxs" and st: "trx_started (trxs h)" and k: "k \<in> trx_keys (trxs h)" and v: "V k = Some (b, e)"
  shows "b = - trx_id (trxs h) \<and> e = max_trx_id \<or> e = - trx_id (trxs h) \<and> 0 < b \<and> b \<le> cur"
proof -
  from k obtain op where op: "op \<in> set (trx_operations (trxs h))" "op_key op = k" by auto
  from sys_invD(5) [OF inv st op(1)] op(2) v sys_invD(7) [OF inv v] show ?thesis
    by (auto simp: op_pending_def version_ok_def)
qed

lemma not_pending:
  assumes inv: "sys_inv cur V trxs" and st: "trx_started (trxs h)" and k: "k \<notin> trx_keys (trxs h)" and v: "V k = Some (b, e)"
  shows "b \<noteq> - trx_id (trxs h)" "e \<noteq> - trx_id (trxs h)"
  using sys_invD(7) [OF inv v] sys_invD(4) [OF inv st] owned_self [OF inv st, of k] k by (auto simp: version_ok_def)

lemma next_trx_id_eq:
  "0 \<le> current_trx_id db \<Longrightarrow> current_trx_id db + 1 < max_trx_id \<Longrightarrow>
   next_trx_id db = (current_trx_id db + 1, db \<lparr> current_trx_id := current_trx_id db + 1 \<rparr>)"
  by (simp add: next_trx_id_def max_trx_id_def signed_take_bit_int_eq_self Let_def)

lemma commit_ok:
  assumes ok: "mvcc_ok s" and st: "trx_started (sy_trx s h)" and lim: "current_trx_id (sy_db s) + 1 < max_trx_id"
  shows "\<exists>db. commit (sy_trx s h) (sy_db s) = Some (SUCCESS, trx_end (sy_trx s h), db) \<and>
    current_trx_id db = current_trx_id (sy_db s) + 1 \<and> same_schema (sy_db s) db \<and>
    versions db = (\<lambda>k. map_option (commit_version (trx_id (sy_trx s h)) (current_trx_id (sy_db s) + 1)) (versions (sy_db s) k)) \<and>
    mvcc_ok (s \<lparr> sy_db := db, sy_trx := (sy_trx s)(h := trx_end (sy_trx s h)) \<rparr>)"
proof -
  let ?db = "sy_db s" and ?tx = "sy_trx s h" and ?c = "current_trx_id (sy_db s) + 1"
  let ?db1 = "?db \<lparr> current_trx_id := ?c \<rparr>" and ?tx1 = "sy_trx s h \<lparr> trx_started := False \<rparr>"
  have dok: "db_ok ?db" and inv: "sys_inv (current_trx_id ?db) (versions ?db) (sy_trx s)" using ok by (simp_all add: mvcc_ok_def)
  note d = sys_invD [OF inv]
  have i: "0 < trx_id ?tx" "trx_id ?tx < ?c" "trx_id ?tx < max_trx_id" "\<not> trx_recovering ?tx" using d(4) [OF st] by auto
  have c32: "int32 ?c" using d(1) lim by (simp add: int32_def max_trx_id_def)
  from commit_operations_ok [of ?db1 "trx_operations ?tx" ?tx1 ?c] dok d(5) [OF st] d(6) [of h] i c32 obtain db2 where
    db2: "commit_operations ?c ?tx1 (trx_operations ?tx) SUCCESS ?db1 = Some (SUCCESS, db2)" "db_ok db2" "same_schema ?db db2"
      "current_trx_id db2 = ?c"
      "versions db2 = (\<lambda>k. if k \<in> trx_keys ?tx then map_option (commit_version (trx_id ?tx) ?c) (versions ?db k) else versions ?db k)"
    by (auto cong: if_cong)
  have ver: "versions db2 = (\<lambda>k. map_option (commit_version (trx_id ?tx) ?c) (versions ?db k))"
  proof
    fix k
    show "versions db2 k = map_option (commit_version (trx_id ?tx) ?c) (versions ?db k)"
      using not_pending [OF inv st, of k] unfolding db2(5) by (cases "versions ?db k") (auto simp: commit_version_def)
  qed
  obtain log where "commit ?tx ?db = Some (SUCCESS, trx_end ?tx, append_trx_log log db2)"
    using db2(1) i next_trx_id_eq [OF d(1) lim]
    by (simp add: commit_def commit_with_trx_id_def trx_commit_log_def Let_def)
  moreover have "sys_inv ?c (versions db2) ((sy_trx s)(h := trx_end ?tx))"
  proof (rule sys_inv_end [OF inv st])
    show "0 < b \<and> b \<le> ?c \<and> 0 < e \<and> (e \<le> ?c \<or> e = max_trx_id)" if k: "k \<in> trx_keys ?tx" "versions db2 k = Some (b, e)" for k b e
    proof -
      from k(2) obtain b' e' where v: "versions ?db k = Some (b', e')" "(b, e) = commit_version (trx_id ?tx) ?c (b', e')"
        unfolding ver by auto
      from pending_commit [OF inv st k(1) v(1)] v(2) d(1) i show ?thesis by (auto simp: commit_version_def max_trx_id_def)
    qed
  qed (use lim db2(5) in auto)
  ultimately show ?thesis using db2 ver by (auto simp: mvcc_ok_def)
qed

lemma rollback_ok:
  assumes ok: "mvcc_ok s" and st: "trx_started (sy_trx s h)" and pl: "set_insertion place"
  shows "\<exists>db. trx_rollback place del (sy_trx s h) (sy_db s) = Some (SUCCESS, trx_end (sy_trx s h), db) \<and>
    current_trx_id db = current_trx_id (sy_db s) \<and> same_schema (sy_db s) db \<and>
    versions db = (\<lambda>k. Option.bind (versions (sy_db s) k) (rollback_version (trx_id (sy_trx s h)))) \<and>
    mvcc_ok (s \<lparr> sy_db := db, sy_trx := (sy_trx s)(h := trx_end (sy_trx s h)) \<rparr>)"
proof -
  let ?db = "sy_db s" and ?tx = "sy_trx s h" and ?tx1 = "sy_trx s h \<lparr> trx_started := False \<rparr>"
  have dok: "db_ok ?db" and inv: "sys_inv (current_trx_id ?db) (versions ?db) (sy_trx s)" using ok by (simp_all add: mvcc_ok_def)
  note d = sys_invD [OF inv]
  have i: "0 < trx_id ?tx" "trx_id ?tx < max_trx_id" "\<not> trx_recovering ?tx" using d(4) [OF st] by auto
  from rollback_operations_ok [OF pl, of ?db "rev (trx_operations ?tx)" ?tx1 del] dok d(5) [OF st] d(6) [of h] i obtain db2 where
    db2: "rollback_operations place del ?tx1 (rev (trx_operations ?tx)) SUCCESS ?db = Some (False, SUCCESS, db2)" "db_ok db2"
      "same_schema ?db db2" "current_trx_id db2 = current_trx_id ?db"
      "versions db2 = (\<lambda>k. if k \<in> trx_keys ?tx then Option.bind (versions ?db k) (rollback_version (trx_id ?tx)) else versions ?db k)"
    by (auto simp: rev_map [symmetric] cong: if_cong)
  have ver: "versions db2 = (\<lambda>k. Option.bind (versions ?db k) (rollback_version (trx_id ?tx)))"
  proof
    fix k
    show "versions db2 k = Option.bind (versions ?db k) (rollback_version (trx_id ?tx))"
      using not_pending [OF inv st, of k] unfolding db2(5) by (cases "versions ?db k") (auto simp: rollback_version_def)
  qed
  obtain log where "trx_rollback place del ?tx ?db = Some (SUCCESS, trx_end ?tx, append_trx_log log db2)"
    using db2(1) i by (simp add: trx_rollback_def trx_rollback_log_def Let_def)
  moreover have "sys_inv (current_trx_id ?db) (versions db2) ((sy_trx s)(h := trx_end ?tx))"
  proof (rule sys_inv_end [OF inv st])
    show "0 < b \<and> b \<le> current_trx_id ?db \<and> 0 < e \<and> (e \<le> current_trx_id ?db \<or> e = max_trx_id)"
      if k: "k \<in> trx_keys ?tx" "versions db2 k = Some (b, e)" for k b e
    proof -
      from k(2) obtain b' e' where v: "versions ?db k = Some (b', e')" "rollback_version (trx_id ?tx) (b', e') = Some (b, e)"
        unfolding ver by (auto simp: bind_eq_Some_conv)
      from pending_commit [OF inv st k(1) v(1)] v(2) i show ?thesis
        by (auto simp: rollback_version_def max_trx_id_def split: if_splits)
    qed
  qed (use d(2) db2(5) in auto)
  ultimately show ?thesis using db2 ver by (auto simp: mvcc_ok_def)
qed

end
