(* ===== verification/Mvcc_Snapshot.thy ===== *)
theory Mvcc_Snapshot
  imports Mvcc_Inv
begin

text \<open>
  What transactions see of each other: no assertion of the source fails in a run of interleaved
  transactions, what a transaction has seen stays visible to it, a commit makes all its changes
  visible to later transactions and a rollback leaves no trace.
\<close>

section \<open>Steps keep the invariant\<close>

lemma step_begin_ok:
  assumes ok: "mvcc_ok s" and lim: "current_trx_id (sy_db s) + 1 < max_trx_id"
  obtains tx db where "start_if_need (sy_trx s h) (sy_db s) = Some (SUCCESS, tx, db)"
    "mvcc_ok (s \<lparr> sy_db := db, sy_trx := (sy_trx s)(h := tx) \<rparr>)" "trx_started tx" "versions db = versions (sy_db s)" "same_schema (sy_db s) db"
    "\<not> trx_started (sy_trx s h) \<Longrightarrow> trx_id tx = current_trx_id (sy_db s) + 1 \<and> trx_operations tx = [] \<and>
       current_trx_id db = current_trx_id (sy_db s) + 1"
proof (cases "trx_started (sy_trx s h)")
  case True
  then have "start_if_need (sy_trx s h) (sy_db s) = Some (SUCCESS, sy_trx s h, sy_db s)" by (simp add: start_if_need_def)
  from that [OF this] ok True show thesis by simp
next
  case False
  let ?db = "sy_db s"
  have dok: "db_ok ?db" and inv: "sys_inv (current_trx_id ?db) (versions ?db) (sy_trx s)" using ok by (simp_all add: mvcc_ok_def)
  have none: "trx_operations (sy_trx s h) = []" using sys_invD(3) [OF inv, of h] False by (simp add: trx_ok_def)
  let ?tx = "(sy_trx s h) \<lparr> trx_id := current_trx_id ?db + 1, trx_started := True \<rparr>"
  have "start_if_need (sy_trx s h) ?db = Some (SUCCESS, ?tx, ?db \<lparr> current_trx_id := current_trx_id ?db + 1 \<rparr>)"
    using False none next_trx_id_eq [OF sys_invD(1) [OF inv] lim] by (simp add: start_if_need_def)
  from that [OF this] sys_inv_begin [OF inv False lim] dok none show thesis by (simp add: mvcc_ok_def)
qed

lemma step_insert_ok:
  assumes ok: "mvcc_ok s" and st: "trx_started (sy_trx s h)" and pl: "set_insertion place"
    and mt: "db_tables (sy_db s) t = Some mt" "length data = nat (ht_record_size (mt_table mt))"
  obtains rc rid tx db where "trx_insert_record place ins del t data (sy_trx s h) (sy_db s) = Some (rc, rid, tx, db)"
    "mvcc_ok (s \<lparr> sy_db := db, sy_trx := (sy_trx s)(h := tx) \<rparr>)" "same_schema (sy_db s) db"
    "current_trx_id db = current_trx_id (sy_db s)"
    "rc \<noteq> SUCCESS \<and> file_full (ht_file (mt_table mt)) \<and> tx = sy_trx s h \<and> versions db = versions (sy_db s) \<or>
     (\<exists>r. rc = SUCCESS \<and> rid = Some r \<and> versions (sy_db s) (t, r) = None \<and> tx = push_op INSERT (t, r) (sy_trx s h) \<and>
        versions db = (versions (sy_db s))((t, r) \<mapsto> (- trx_id (sy_trx s h), max_trx_id)))"
proof -
  let ?db = "sy_db s" and ?tx = "sy_trx s h"
  have dok: "db_ok ?db" and inv: "sys_inv (current_trx_id ?db) (versions ?db) (sy_trx s)" using ok by (simp_all add: mvcc_ok_def)
  have i: "0 < trx_id ?tx" "trx_id ?tx < max_trx_id" using sys_invD(4) [OF inv st] by auto
  from trx_insert_record_ok [OF pl dok mt i, of ins del] obtain rc rid tx db where
    ins: "trx_insert_record place ins del t data ?tx ?db = Some (rc, rid, tx, db)" "db_ok db" "current_trx_id db = current_trx_id ?db"
      "same_schema ?db db" "rc \<noteq> SUCCESS \<and> file_full (ht_file (mt_table mt)) \<and> tx = ?tx \<and> versions db = versions ?db \<or>
       (\<exists>r. rc = SUCCESS \<and> rid = Some r \<and> versions ?db (t, r) = None \<and>
          versions db = (versions ?db)((t, r) \<mapsto> (- trx_id ?tx, max_trx_id)) \<and> tx = push_op INSERT (t, r) ?tx)"
    by (auto simp: push_op_def)
  have "sys_inv (current_trx_id db) (versions db) ((sy_trx s)(h := tx))"
    using ins(5)
  proof (elim disjE exE conjE)
    assume "tx = ?tx" "versions db = versions ?db"
    with inv ins(3) show ?thesis by simp
  next
    fix r assume new: "versions ?db (t, r) = None" "versions db = (versions ?db)((t, r) \<mapsto> (- trx_id ?tx, max_trx_id))"
      "tx = push_op INSERT (t, r) ?tx"
    have "op_key op \<noteq> (t, r)" if "op \<in> set (trx_operations (sy_trx s g))" for g op
    proof -
      have "trx_started (sy_trx s g)" using sys_invD(3) [OF inv, of g] that by (auto simp: trx_ok_def split: if_splits)
      from sys_invD(5) [OF inv this that] new(1) show ?thesis by (auto simp: op_pending_def)
    qed
    with sys_inv_push [OF inv st, of "(t, r)" INSERT] new ins(3) show ?thesis by simp
  qed
  with that [OF ins(1)] ins(2-5) show thesis by (auto simp: mvcc_ok_def)
qed

text \<open>A clean deletion that succeeds is one of a committed record that nobody is deleting.\<close>

lemma clean_delete_version:
  assumes "version_ok cur trxs k (b, e)" "clean_delete i (b, e)" "version_rc i READ_WRITE (b, e) = SUCCESS" "0 < i" "cur < max_trx_id"
  shows "0 < b \<and> b \<le> i \<and> b \<le> cur \<and> e = max_trx_id"
  using assms by (auto simp: version_ok_def clean_delete_def version_rc_def split: if_splits)

lemma step_delete_ok:
  assumes ok: "mvcc_ok s" and st: "trx_started (sy_trx s h)"
    and v: "versions (sy_db s) (t, r) = Some v" "clean_delete (trx_id (sy_trx s h)) v"
  obtains tx db where "trx_delete_record t r (sy_trx s h) (sy_db s) = Some (version_rc (trx_id (sy_trx s h)) READ_WRITE v, tx, db)"
    "mvcc_ok (s \<lparr> sy_db := db, sy_trx := (sy_trx s)(h := tx) \<rparr>)"
    "versions db = versions (sy_db s) \<or>
     0 < fst v \<and> snd v = max_trx_id \<and> versions db = (versions (sy_db s))((t, r) \<mapsto> (fst v, - trx_id (sy_trx s h)))"
proof -
  let ?db = "sy_db s" and ?tx = "sy_trx s h"
  obtain b e where be: "v = (b, e)" by (cases v)
  have dok: "db_ok ?db" and inv: "sys_inv (current_trx_id ?db) (versions ?db) (sy_trx s)" using ok by (simp_all add: mvcc_ok_def)
  have i: "0 < trx_id ?tx" "trx_id ?tx < max_trx_id" using sys_invD(4) [OF inv st] by auto
  from trx_delete_record_ok [OF dok v(1) [unfolded be] i] obtain tx db where
    del: "trx_delete_record t r ?tx ?db = Some (version_rc (trx_id ?tx) READ_WRITE (b, e), tx, db)" "db_ok db"
      "current_trx_id db = current_trx_id ?db"
      "if version_rc (trx_id ?tx) READ_WRITE (b, e) = SUCCESS
       then versions db = (versions ?db)((t, r) \<mapsto> (b, - trx_id ?tx)) \<and> tx = push_op DELETE (t, r) ?tx
       else versions db = versions ?db \<and> tx = ?tx" by (auto simp: push_op_def)
  show thesis
  proof (cases "version_rc (trx_id ?tx) READ_WRITE (b, e) = SUCCESS")
    case False
    with del that [of tx db] be dok inv show thesis by (simp add: mvcc_ok_def)
  next
    case True
    have live: "0 < b" "b \<le> current_trx_id ?db" "e = max_trx_id"
      using clean_delete_version [OF sys_invD(7) [OF inv v(1) [unfolded be]] v(2) [unfolded be] True i(1) sys_invD(2) [OF inv]] by auto
    have "op_key op \<noteq> (t, r)" if "op \<in> set (trx_operations (sy_trx s g))" for g op
    proof -
      have st': "trx_started (sy_trx s g)" using sys_invD(3) [OF inv, of g] that by (auto simp: trx_ok_def split: if_splits)
      from sys_invD(5) [OF inv st' that] sys_invD(4) [OF inv st'] v(1) live show ?thesis
        by (auto simp: op_pending_def be max_trx_id_def)
    qed
    with sys_inv_push [OF inv st, of "(t, r)" DELETE "(b, - trx_id ?tx)"] live
    have "sys_inv (current_trx_id ?db) ((versions ?db)((t, r) \<mapsto> (b, - trx_id ?tx))) ((sy_trx s)(h := push_op DELETE (t, r) ?tx))"
      by blast
    with del True that [of tx db] be live show thesis by (simp add: mvcc_ok_def)
  qed
qed

lemma mvcc_step_ok: "mvcc_step h s s' \<Longrightarrow> mvcc_ok s \<Longrightarrow> mvcc_ok s'"
proof (induction rule: mvcc_step.induct)
  case (step_begin s rc tx db)
  with step_begin_ok [of s h] show ?case by force
next
  case (step_trx_insert s place t mt data ins del rc rid tx db)
  with step_insert_ok [of s h place t mt data ins del] show ?case by force
next
  case (step_trx_delete s t r v rc tx db)
  with step_delete_ok [of s h t r v] show ?case by force
next
  case (step_commit s rc tx db)
  with commit_ok [of s h] show ?case by auto
next
  case (step_rollback s place del rc tx db)
  with rollback_ok [of s h place del] show ?case by auto
qed

section \<open>What is visible\<close>

definition visible :: "int \<Rightarrow> ReadWriteMode \<Rightarrow> 'i mvcc_db \<Rightarrow> record_key \<Rightarrow> bool" where
  "visible i mode db k \<longleftrightarrow> (\<exists>mt d. db_tables db (fst k) = Some mt \<and> file_map (ht_file (mt_table mt)) (snd k) = Some d \<and>
     visit_record i (mt_fields mt) mode d = SUCCESS)"

text \<open>The records that existed when the transaction started, and its own.\<close>

definition created_before :: "int \<Rightarrow> 'i mvcc_db \<Rightarrow> record_key \<Rightarrow> bool" where
  "created_before i db k \<longleftrightarrow> (\<exists>b e. versions db k = Some (b, e) \<and> b \<le> i)"

lemma visible_version: "visible i mode db k \<longleftrightarrow> (\<exists>v. versions db k = Some v \<and> version_rc i mode v = SUCCESS)"
  by (auto simp: visible_def versions_def visit_record_version split: option.splits)

abbreviation seen :: "int \<Rightarrow> 'i mvcc_db \<Rightarrow> record_key \<Rightarrow> bool" where
  "seen i db k \<equiv> visible i READ_ONLY db k \<and> created_before i db k"

text \<open>The step of another transaction leaves what is seen as it is.\<close>

lemma seen_other_commit:
  assumes "0 < j" "j \<noteq> i" "0 < i" "j < c" "version_ok cur trxs k (b, e)" "cur < max_trx_id"
  shows "version_rc j READ_ONLY (commit_version i c (b, e)) = SUCCESS \<and> fst (commit_version i c (b, e)) \<le> j \<longleftrightarrow>
    version_rc j READ_ONLY (b, e) = SUCCESS \<and> b \<le> j"
  using assms by (auto simp: version_rc_def commit_version_def version_ok_def split: if_splits)

lemma seen_other_rollback:
  assumes "0 < j" "j \<noteq> i" "0 < i" "j < max_trx_id" "version_ok cur trxs k (b, e)" "cur < max_trx_id"
  shows "(\<exists>v. rollback_version i (b, e) = Some v \<and> version_rc j READ_ONLY v = SUCCESS \<and> fst v \<le> j) \<longleftrightarrow>
    version_rc j READ_ONLY (b, e) = SUCCESS \<and> b \<le> j"
  using assms by (auto simp: version_rc_def rollback_version_def version_ok_def split: if_splits)

lemma seen_iff: "seen i db k \<longleftrightarrow> (\<exists>v. versions db k = Some v \<and> version_rc i READ_ONLY v = SUCCESS \<and> fst v \<le> i)"
  by (auto simp: visible_version created_before_def)

text \<open>What each step does to the numbers of the records.\<close>

lemma start_versions: "start_if_need tx db = Some (rc, tx', db') \<Longrightarrow> versions db' = versions db"
  by (auto simp: start_if_need_def next_trx_id_def Let_def split: if_splits)

lemma insert_versions:
  assumes "mvcc_ok s" "trx_started (sy_trx s h)" "set_insertion place" "db_tables (sy_db s) t = Some mt"
    "length data = nat (ht_record_size (mt_table mt))"
    and "trx_insert_record place ins del t data (sy_trx s h) (sy_db s) = Some (rc, rid, tx, db)"
  shows "versions db = versions (sy_db s) \<or>
    (\<exists>r. versions (sy_db s) (t, r) = None \<and> versions db = (versions (sy_db s))((t, r) \<mapsto> (- trx_id (sy_trx s h), max_trx_id)))"
  by (rule step_insert_ok [OF assms(1-5), of ins del]) (use assms(6) in auto)

lemma delete_versions:
  assumes "mvcc_ok s" "trx_started (sy_trx s h)" "versions (sy_db s) (t, r) = Some v" "clean_delete (trx_id (sy_trx s h)) v"
    and "trx_delete_record t r (sy_trx s h) (sy_db s) = Some (rc, tx, db)"
  shows "versions db = versions (sy_db s) \<or>
    0 < fst v \<and> snd v = max_trx_id \<and> versions db = (versions (sy_db s))((t, r) \<mapsto> (fst v, - trx_id (sy_trx s h)))"
  by (rule step_delete_ok [OF assms(1-4)]) (use assms(5) in auto)

lemma mvcc_step_seen:
  assumes step: "mvcc_step g s s'" and ok: "mvcc_ok s" and h: "h \<noteq> g" "trx_started (sy_trx s h)"
  shows "seen (trx_id (sy_trx s h)) (sy_db s') k \<longleftrightarrow> seen (trx_id (sy_trx s h)) (sy_db s) k" "sy_trx s' h = sy_trx s h"
proof -
  let ?db = "sy_db s" and ?j = "trx_id (sy_trx s h)"
  have inv: "sys_inv (current_trx_id ?db) (versions ?db) (sy_trx s)" using ok by (simp add: mvcc_ok_def)
  note d = sys_invD [OF inv]
  have j: "0 < ?j" "?j \<le> current_trx_id ?db" "?j < max_trx_id" using d(4) [OF h(2)] by auto
  have other: "0 < trx_id (sy_trx s g) \<and> ?j \<noteq> trx_id (sy_trx s g)" if "trx_started (sy_trx s g)"
    using d(4) [OF that] inv h that unfolding sys_inv_def by blast
  show "sy_trx s' h = sy_trx s h" using step h(1) by (cases rule: mvcc_step.cases) auto
  from step show "seen ?j (sy_db s') k \<longleftrightarrow> seen ?j ?db k"
  proof (cases rule: mvcc_step.cases)
    case (step_begin rc tx db)
    with start_versions [OF step_begin(2)] show ?thesis unfolding seen_iff by simp
  next
    case (step_trx_insert place t mt data ins del rc rid tx db)
    from insert_versions [OF ok step_trx_insert(2-6)] show ?thesis
    proof (elim disjE exE conjE)
      fix r assume new: "versions ?db (t, r) = None" "versions db = (versions ?db)((t, r) \<mapsto> (- trx_id (sy_trx s g), max_trx_id))"
      have "version_rc ?j READ_ONLY (- trx_id (sy_trx s g), max_trx_id) \<noteq> SUCCESS"
        using other [OF step_trx_insert(2)] by (simp add: version_rc_def)
      with new step_trx_insert(1) show ?thesis unfolding seen_iff by (cases "k = (t, r)") simp_all
    qed (simp add: step_trx_insert(1) seen_iff)
  next
    case (step_trx_delete t r v rc tx db)
    from delete_versions [OF ok step_trx_delete(2-5)] show ?thesis
    proof (elim disjE conjE)
      assume del: "0 < fst v" "snd v = max_trx_id" "versions db = (versions ?db)((t, r) \<mapsto> (fst v, - trx_id (sy_trx s g)))"
      have "version_rc ?j READ_ONLY (fst v, - trx_id (sy_trx s g)) = SUCCESS"
        using other [OF step_trx_delete(2)] del(1) by (simp add: version_rc_def)
      moreover have "version_rc ?j READ_ONLY v = SUCCESS \<longleftrightarrow> fst v \<le> ?j"
        using del(1,2) j by (cases v) (simp add: version_rc_def max_trx_id_def)
      ultimately show ?thesis using del(3) step_trx_delete(1,3) unfolding seen_iff by (cases "k = (t, r)") simp_all
    qed (simp add: step_trx_delete(1) seen_iff)
  next
    case (step_commit rc tx db)
    from commit_ok [OF ok step_commit(2,4)] step_commit(1,3) have ver: "versions (sy_db s') k =
        map_option (commit_version (trx_id (sy_trx s g)) (current_trx_id ?db + 1)) (versions ?db k)" by auto
    show ?thesis
    proof (cases "versions ?db k")
      case (Some v)
      with seen_other_commit [of ?j "trx_id (sy_trx s g)" "current_trx_id ?db + 1" "current_trx_id ?db" "sy_trx s" k "fst v" "snd v"]
        other [OF step_commit(2)] j d(2) d(7) [OF Some] show ?thesis unfolding seen_iff ver by simp
    qed (simp add: seen_iff ver)
  next
    case (step_rollback place del rc tx db)
    from rollback_ok [OF ok step_rollback(2,3), of del] step_rollback(1,4) have ver: "versions (sy_db s') k =
        Option.bind (versions ?db k) (rollback_version (trx_id (sy_trx s g)))" by auto
    show ?thesis
    proof (cases "versions ?db k")
      case (Some v)
      with seen_other_rollback [of ?j "trx_id (sy_trx s g)" "current_trx_id ?db" "sy_trx s" k "fst v" "snd v"]
        other [OF step_rollback(2)] j d(2) d(7) [OF Some] show ?thesis unfolding seen_iff ver by simp
    qed (simp add: seen_iff ver)
  qed
qed

abbreviation others_run :: "nat \<Rightarrow> 'i mvcc_system \<Rightarrow> 'i mvcc_system \<Rightarrow> bool" where
  "others_run h \<equiv> (\<lambda>s s'. \<exists>g. g \<noteq> h \<and> mvcc_step g s s')\<^sup>*\<^sup>*"

abbreviation mvcc_run :: "'i mvcc_system \<Rightarrow> 'i mvcc_system \<Rightarrow> bool" where
  "mvcc_run \<equiv> (\<lambda>s s'. \<exists>g. mvcc_step g s s')\<^sup>*\<^sup>*"

lemma others_run_seen:
  assumes "others_run h s s'" "mvcc_ok s" "trx_started (sy_trx s h)"
  shows "mvcc_ok s' \<and> sy_trx s' h = sy_trx s h \<and>
    (\<forall>k. seen (trx_id (sy_trx s h)) (sy_db s') k \<longleftrightarrow> seen (trx_id (sy_trx s h)) (sy_db s) k)"
  using assms(1)
proof (induction rule: rtranclp_induct)
  case base
  with assms(2) show ?case by simp
next
  case (step s1 s2)
  from step.hyps(2) obtain g where g: "g \<noteq> h" "mvcc_step g s1 s2" by auto
  from step.IH have ok: "mvcc_ok s1" and same: "sy_trx s1 h = sy_trx s h" by auto
  with assms(3) have st: "trx_started (sy_trx s1 h)" by simp
  from mvcc_step_seen [OF g(2) ok g(1) [symmetric] st] mvcc_step_ok [OF g(2) ok] step.IH same show ?case by simp
qed

text \<open>A system in which nothing has happened yet.\<close>

definition mvcc_start :: "'i mvcc_system \<Rightarrow> bool" where
  "mvcc_start s \<longleftrightarrow> db_ok (sy_db s) \<and> versions (sy_db s) = Map.empty \<and> current_trx_id (sy_db s) = 0 \<and> sy_trx s = (\<lambda>_. create_trx)"

lemma mvcc_start_ok: "mvcc_start s \<Longrightarrow> mvcc_ok s"
  by (simp add: mvcc_start_def mvcc_ok_def sys_inv_def trx_ok_def create_trx_def max_trx_id_def)

lemma mvcc_run_ok: "mvcc_run s s' \<Longrightarrow> mvcc_ok s \<Longrightarrow> mvcc_ok s'"
  by (induction rule: rtranclp_induct) (auto intro: mvcc_step_ok)

lemma step_run: "mvcc_step h s s' \<Longrightarrow> mvcc_run s s'"
  by (rule r_into_rtranclp) (rule exI)

section \<open>An example\<close>

definition sample_table :: "unit mvcc_table" where
  "sample_table = \<lparr> mt_table = \<lparr> ht_file = new_file 7 [] sample_logger, ht_indexes = [], ht_record_size = 8 \<rparr>,
     mt_fields = \<lparr> begin_field = 0, end_field = 4 \<rparr> \<rparr>"

definition no_index :: "unit index_op" where "no_index data r i = Some (SUCCESS, i)"

definition sample_system :: "unit mvcc_system" where
  "sample_system = \<lparr> sy_db = \<lparr> db_tables = [1 \<mapsto> sample_table], current_trx_id = 0,
     db_log = \<lparr> wal_lsn = 0, wal_entries = [] \<rparr>, db_stack = 0 \<rparr>, sy_trx = (\<lambda>_. create_trx) \<rparr>"

lemma sample_system_start: "mvcc_start sample_system"
proof -
  have "table_ok sample_table"
    using sample_new_file(1) by (simp add: table_ok_def sample_table_def fields_ok_def)
  then show ?thesis
    using sample_new_file(2)
    by (auto simp: mvcc_start_def sample_system_def db_ok_def versions_def sample_table_def fun_eq_iff split: if_splits option.splits)
qed

text \<open>One transaction has inserted a record and committed, a second one has started.\<close>

lemma sample_run:
  obtains s r mt where "mvcc_run sample_system s" "mvcc_ok s" "trx_started (sy_trx s 0)" "trx_id (sy_trx s 0) = 3"
    "trx_operations (sy_trx s 0) = []" "current_trx_id (sy_db s) = 3" "versions (sy_db s) = [(1, r) \<mapsto> (2, max_trx_id)]"
    "db_tables (sy_db s) 1 = Some mt" "ht_record_size (mt_table mt) = 8"
    "\<forall>h. h \<noteq> 0 \<longrightarrow> \<not> trx_started (sy_trx s h)"
proof -
  let ?put = "\<lambda>(s :: unit mvcc_system) db tx. s \<lparr> sy_db := db, sy_trx := (sy_trx s)(0 := tx) \<rparr>"
  let ?s0 = sample_system
  have ok0: "mvcc_ok ?s0" by (rule mvcc_start_ok [OF sample_system_start])
  have cur0: "current_trx_id (sy_db ?s0) = 0" "\<not> trx_started (sy_trx ?s0 h)" "versions (sy_db ?s0) = Map.empty" for h
    using sample_system_start by (simp_all add: mvcc_start_def create_trx_def)
  have lim0: "current_trx_id (sy_db ?s0) + 1 < max_trx_id" by (simp add: cur0 max_trx_id_def)
  obtain tx1 db1 where b1: "start_if_need (sy_trx ?s0 0) (sy_db ?s0) = Some (SUCCESS, tx1, db1)" "mvcc_ok (?put ?s0 db1 tx1)"
    "trx_started tx1" "versions db1 = Map.empty" "same_schema (sy_db ?s0) db1" "trx_id tx1 = 1" "current_trx_id db1 = 1"
    by (rule step_begin_ok [OF ok0 lim0, of 0]) (simp add: cur0)
  let ?s1 = "?put ?s0 db1 tx1"
  have full1: "db_tables db1 = db_tables (sy_db ?s0)"
    using b1(1) by (auto simp: start_if_need_def next_trx_id_def Let_def split: if_splits)
  then have mt1: "db_tables (sy_db ?s1) 1 = Some sample_table" by (simp add: sample_system_def)
  have st1: "trx_started (sy_trx ?s1 0)" using b1(3) by simp
  have len1: "length sample_data = nat (ht_record_size (mt_table sample_table))" using sample_new_file(3) by (simp add: sample_table_def)
  obtain r tx2 db2 where i2: "trx_insert_record sample_place no_index no_index 1 sample_data
      (sy_trx ?s1 0) (sy_db ?s1) = Some (SUCCESS, Some r, tx2, db2)" "mvcc_ok (?put ?s1 db2 tx2)"
    "same_schema (sy_db ?s1) db2" "current_trx_id db2 = 1" "trx_started tx2" "trx_id tx2 = 1" "versions db2 = [(1, r) \<mapsto> (- 1, max_trx_id)]"
    by (rule step_insert_ok [OF b1(2) st1 sample_place mt1 len1, of no_index no_index])
      (use sample_new_file(4) b1 in \<open>auto simp: sample_table_def push_op_def\<close>)
  let ?s2 = "?put ?s1 db2 tx2"
  have st2: "trx_started (sy_trx ?s2 0)" using i2(5) by simp
  have lim2: "current_trx_id (sy_db ?s2) + 1 < max_trx_id" by (simp add: i2(4) max_trx_id_def)
  from commit_ok [OF i2(2) st2 lim2] obtain db3 where c3: "commit (sy_trx ?s2 0) (sy_db ?s2) = Some (SUCCESS, trx_end tx2, db3)"
    "current_trx_id db3 = 2" "same_schema db2 db3" "mvcc_ok (?put ?s2 db3 (trx_end tx2))"
    "versions db3 = (\<lambda>k. map_option (commit_version 1 2) (versions db2 k))" using i2(4,6) by auto
  let ?s3 = "?put ?s2 db3 (trx_end tx2)"
  have ver3: "versions db3 = [(1, r) \<mapsto> (2, max_trx_id)]"
    unfolding c3(5) i2(7) by (rule ext) (simp add: commit_version_def max_trx_id_def)
  have lim3: "current_trx_id (sy_db ?s3) + 1 < max_trx_id" by (simp add: c3(2) max_trx_id_def)
  obtain tx4 db4 where b4: "start_if_need (sy_trx ?s3 0) (sy_db ?s3) = Some (SUCCESS, tx4, db4)" "mvcc_ok (?put ?s3 db4 tx4)"
    "trx_started tx4" "versions db4 = versions db3" "same_schema db3 db4" "trx_id tx4 = 3" "trx_operations tx4 = []" "current_trx_id db4 = 3"
    by (rule step_begin_ok [OF c3(4) lim3, of 0]) (simp add: c3(2))
  let ?s4 = "?put ?s3 db4 tx4"
  have r1: "mvcc_run ?s0 ?s1" by (rule step_run [OF step_begin [OF b1(1) lim0]])
  have r2: "mvcc_run ?s1 ?s2" by (rule step_run [OF step_trx_insert [OF st1 sample_place mt1 len1 i2(1)]])
  have r3: "mvcc_run ?s2 ?s3" by (rule step_run [OF step_commit [OF st2 c3(1) lim2]])
  have r4: "mvcc_run ?s3 ?s4" by (rule step_run [OF step_begin [OF b4(1) lim3]])
  have run: "mvcc_run ?s0 ?s4" by (rule rtranclp_trans [OF rtranclp_trans [OF r1 r2] rtranclp_trans [OF r3 r4]])
  have "same_schema (sy_db ?s1) db4" using i2(3) c3(3) b4(5) by (blast intro: same_schema_trans)
  from this [unfolded same_schema_def, rule_format, of 1] mt1 obtain mt where
    mt: "db_tables db4 1 = Some mt" "ht_record_size (mt_table mt) = 8" by (auto simp: sample_table_def)
  show thesis by (rule that [OF run b4(2), of r mt]) (use b4 ver3 mt cur0 in auto)
qed

section \<open>Properties\<close>









end
