(* ===== verification/Mvcc_Faults.thy ===== *)
theory Mvcc_Faults
imports Mvcc_Snapshot
begin

text \<open>
  Where the isolation of \<^verbatim>\<open>MvccTrx\<close> ends.  The theorems of \<^verbatim>\<open>Mvcc_Snapshot\<close> ask for clean
  deletions; this theory shows what the deletions do that \<^verbatim>\<open>visit_record\<close> lets pass although they are
  not clean, and what the replay of the transaction log leaves behind.
\<close>

section \<open>Deletions that are not refused\<close>

lemma visit_in_db_fails:
  assumes ok: "db_ok db" and v: "versions db (t, r) = Some (b, e)"
    and vis: "\<And>fs d. get_int (begin_field fs) d = b \<Longrightarrow> get_int (end_field fs) d = e \<Longrightarrow> visitor fs d = None"
  shows "visit_in_db t r visitor db = None"
proof -
  from versions_data [OF ok v] obtain mt d where mt: "db_tables db t = Some mt" "table_ok mt"
    and d: "file_map (ht_file (mt_table mt)) r = Some d" "rid_in_page (ht_file (mt_table mt)) r"
      "get_int (begin_field (mt_fields mt)) d = b" "get_int (end_field (mt_fields mt)) d = e" by blast
  have wf: "file_wf (ht_record_size (mt_table mt)) (ht_file (mt_table mt))" using mt(2) by (simp add: table_ok_def)
  have "table_get_record r (mt_table mt) = Some (SUCCESS, Some d)"
    using file_get_record_ok [OF wf d(2)] d(1) by (simp add: table_get_record_def)
  then show ?thesis using mt(1) vis [OF d(3,4)] by (simp add: visit_in_db_def visit_asserting_def)
qed

text \<open>Committing an insertion and two deletions of one record: the third operation fails.\<close>

lemma commit_double_delete:
  assumes ok: "db_ok db" and v: "versions db (t, r) = Some (- trx_id tx, - trx_id tx)"
    and tx: "\<not> trx_recovering tx" "0 < trx_id tx" and c: "0 < c" "int32 c"
    and ops: "ops = [\<lparr> op_type = INSERT, op_table = t, op_rid = r \<rparr>, \<lparr> op_type = DELETE, op_table = t, op_rid = r \<rparr>,
      \<lparr> op_type = DELETE, op_table = t, op_rid = r \<rparr>]"
  shows "commit_operations c tx ops rc db = None"
proof -
  let ?ins = "\<lambda>fs d. if get_int (begin_field fs) d = - trx_id tx \<and> \<not> trx_recovering tx
    then Some (SUCCESS, True, set_int (begin_field fs) c d) else None"
  let ?del = "\<lambda>fs d. if get_int (end_field fs) d = - trx_id tx then Some (SUCCESS, True, set_int (end_field fs) c d) else None"
  obtain db1 where 1: "visit_in_db t r ?ins db = Some (SUCCESS, db1)" "db_ok db1" "versions db1 (t, r) = Some (c, - trx_id tx)"
    by (rule visit_in_db_ok [OF ok v, of ?ins True c]) (use tx c in auto)
  obtain db2 where 2: "visit_in_db t r ?del db1 = Some (SUCCESS, db2)" "db_ok db2" "versions db2 (t, r) = Some (c, c)"
    by (rule visit_in_db_ok [OF 1(2,3), of ?del False c]) (use tx c in auto)
  have 3: "visit_in_db t r ?del db2 = None" by (rule visit_in_db_fails [OF 2(2,3)]) (use tx(2) c(1) in auto)
  from 1(1) 2(1) 3 show ?thesis by (simp add: ops commit_operation_def)
qed

text \<open>A deletion of a record that is readable by its numbers and carries no mark of another transaction.\<close>

lemma delete_then_rollback:
  assumes pl: "set_insertion place" and ok: "db_ok db" and v: "versions db (t, r) = Some (b, e)"
    and tx: "0 < trx_id tx" "trx_id tx < max_trx_id" "\<not> trx_recovering tx" "trx_operations tx = []"
    and vis: "0 < b" "version_rc (trx_id tx) READ_WRITE (b, e) = SUCCESS"
  obtains tx1 db1 db2 where "trx_delete_record t r tx db = Some (SUCCESS, tx1, db1)"
    "versions db1 = (versions db)((t, r) \<mapsto> (b, - trx_id tx))"
    "trx_rollback place del tx1 db1 = Some (SUCCESS, trx_end tx1, db2)" "versions db2 = (versions db)((t, r) \<mapsto> (b, max_trx_id))"
proof -
  let ?op = "\<lparr> op_type = DELETE, op_table = t, op_rid = r \<rparr>"
  from trx_delete_record_ok [OF ok v tx(1,2)] vis(2) tx(4) obtain tx1 db1 where
    1: "trx_delete_record t r tx db = Some (SUCCESS, tx1, db1)" "db_ok db1"
      "versions db1 = (versions db)((t, r) \<mapsto> (b, - trx_id tx))" "tx1 = tx \<lparr> trx_operations := [?op] \<rparr>" by auto
  let ?tx = "tx1 \<lparr> trx_started := False \<rparr>"
  have pend: "\<forall>op \<in> set [?op]. op_pending (trx_id ?tx) (versions db1) op"
    using vis(1) by (simp add: 1(3,4) op_pending_def op_key_def)
  from rollback_operations_ok [OF pl 1(2) pend, of del] tx 1(4) obtain db2 where
    2: "rollback_operations place del ?tx [?op] SUCCESS db1 = Some (False, SUCCESS, db2)"
      "versions db2 = (\<lambda>k. if k \<in> op_key ` set [?op] then Option.bind (versions db1 k) (rollback_version (trx_id ?tx)) else versions db1 k)"
    by auto
  have "versions db2 k = ((versions db)((t, r) \<mapsto> (b, max_trx_id))) k" for k
    using vis(1) tx(1) by (simp add: 2(2) 1(3,4) op_key_def rollback_version_def)
  then have 3: "versions db2 = (versions db)((t, r) \<mapsto> (b, max_trx_id))" by (rule ext)
  obtain log where "trx_rollback place del tx1 db1 = Some (SUCCESS, trx_end tx1, append_trx_log log db2)"
    using 2(1) tx 1(4) by (simp add: trx_rollback_def trx_rollback_log_def Let_def del: rollback_operations.simps)
  then show thesis by (rule that [OF 1(1,3)]) (simp add: 3)
qed

section \<open>Replay\<close>

text \<open>No entry puts a transaction into the map of the replayer, and none touches a table.\<close>

lemma trx_log_replay_idle:
  assumes "trx_map st = []" "trx_log_replay a payload st = Some (rc, st')"
  shows "trx_map st' = [] \<and> db_tables (tr_db st') = db_tables (tr_db st)"
  using assms by (auto simp: trx_log_replay_def trx_ended_def destroy_trx_def create_recovering_trx_def Let_def
      bind_eq_Some_conv split: if_splits)

lemma trx_replay_all_idle:
  assumes "trx_map st = []" "trx_replay_all es st = Some (rc, st')"
  shows "trx_map st' = [] \<and> db_tables (tr_db st') = db_tables (tr_db st)"
  using assms
proof (induction es st rule: trx_replay_all.induct)
  case (2 a payload es st)
  from "2.prems"(2) obtain rc1 st1 where 1: "trx_log_replay a payload st = Some (rc1, st1)"
    "(if OB_FAIL rc1 then Some (rc1, st1) else trx_replay_all es st1) = Some (rc, st')" by (auto simp: bind_eq_Some_conv)
  note idle = trx_log_replay_idle [OF "2.prems"(1) 1(1)]
  show ?case
  proof (cases "OB_FAIL rc1")
    case True
    with 1(2) idle show ?thesis by simp
  next
    case False
    with "2.IH" [OF 1(1) refl] 1(2) idle show ?thesis by simp
  qed
qed simp

section \<open>Properties\<close>

text \<open>
  C31: a transaction that deletes a record which it has inserted itself still finds it there: a second
  deletion succeeds too, and the commit then fails an assertion.
\<close>

theorem own_insert_deleted_twice:
  assumes "mvcc_ok s" "trx_started (sy_trx s h)" "trx_operations (sy_trx s h) = []" "current_trx_id (sy_db s) + 1 < max_trx_id"
    and "set_insertion place" "db_tables (sy_db s) t = Some mt" "length data = nat (ht_record_size (mt_table mt))"
    and "trx_insert_record place ins del t data (sy_trx s h) (sy_db s) = Some (SUCCESS, Some r, tx1, db1)"
  shows "\<exists>tx2 db2 tx3 db3. trx_delete_record t r tx1 db1 = Some (SUCCESS, tx2, db2) \<and>
    trx_delete_record t r tx2 db2 = Some (SUCCESS, tx3, db3) \<and> commit tx3 db3 = None"
proof -
  let ?i = "trx_id (sy_trx s h)"
  have dok: "db_ok (sy_db s)" and inv: "sys_inv (current_trx_id (sy_db s)) (versions (sy_db s)) (sy_trx s)"
    using assms(1) by (simp_all add: mvcc_ok_def)
  note d = sys_invD [OF inv]
  have i: "0 < ?i" "?i < max_trx_id" "\<not> trx_recovering (sy_trx s h)" using d(4) [OF assms(2)] by auto
  have 1: "db_ok db1" "current_trx_id db1 = current_trx_id (sy_db s)" "versions db1 (t, r) = Some (- ?i, max_trx_id)"
    "tx1 = (sy_trx s h) \<lparr> trx_operations := [\<lparr> op_type = INSERT, op_table = t, op_rid = r \<rparr>] \<rparr>"
    using trx_insert_record_ok [OF assms(5) dok assms(6,7) i(1,2), of ins del] assms(3,8) by auto
  have id1: "trx_id tx1 = ?i" "0 < trx_id tx1" "trx_id tx1 < max_trx_id" using 1(4) i by simp_all
  have rc1: "version_rc (trx_id tx1) READ_WRITE (- ?i, max_trx_id) = SUCCESS" using i id1 by (simp add: version_rc_def)
  from trx_delete_record_ok [OF 1(1,3) id1(2,3)] rc1 id1(1) obtain tx2 db2 where
    2: "trx_delete_record t r tx1 db1 = Some (SUCCESS, tx2, db2)" "db_ok db2" "current_trx_id db2 = current_trx_id db1"
      "versions db2 (t, r) = Some (- ?i, - ?i)"
      "tx2 = tx1 \<lparr> trx_operations := trx_operations tx1 @ [\<lparr> op_type = DELETE, op_table = t, op_rid = r \<rparr>] \<rparr>" by auto
  have id2: "trx_id tx2 = ?i" "0 < trx_id tx2" "trx_id tx2 < max_trx_id" using 2(5) id1 by simp_all
  have rc2: "version_rc (trx_id tx2) READ_WRITE (- ?i, - ?i) = SUCCESS" using i id2 by (simp add: version_rc_def)
  from trx_delete_record_ok [OF 2(2,4) id2(2,3)] rc2 id2(1) obtain tx3 db3 where
    3: "trx_delete_record t r tx2 db2 = Some (SUCCESS, tx3, db3)" "db_ok db3" "current_trx_id db3 = current_trx_id db2"
      "versions db3 (t, r) = Some (- ?i, - ?i)"
      "tx3 = tx2 \<lparr> trx_operations := trx_operations tx2 @ [\<lparr> op_type = DELETE, op_table = t, op_rid = r \<rparr>] \<rparr>" by auto
  have cur: "current_trx_id db3 = current_trx_id (sy_db s)" using 1(2) 2(3) 3(3) by simp
  let ?c = "current_trx_id db3 + 1" and ?tx = "tx3 \<lparr> trx_started := False \<rparr>"
  have c: "0 < ?c" "int32 ?c" using d(1) assms(4) cur by (simp_all add: int32_def max_trx_id_def)
  have "commit_operations ?c ?tx (trx_operations ?tx) SUCCESS (db3 \<lparr> current_trx_id := ?c \<rparr>) = None"
    by (rule commit_double_delete [where t = t and r = r]) (use 1(4) 2(5) 3 i c in auto)
  then have "commit tx3 db3 = None"
    using next_trx_id_eq [of db3] d(1) assms(4) cur by (simp add: commit_def commit_with_trx_id_def Let_def)
  with 2(1) 3(1) show ?thesis by blast
qed

theorem own_insert_deleted_twice_witness:
  "\<exists>s r tx1 db1 tx2 db2 tx3 db3. mvcc_run sample_system s \<and>
     trx_insert_record sample_place no_index no_index 1 sample_data (sy_trx s 0) (sy_db s) = Some (SUCCESS, Some r, tx1, db1) \<and>
     trx_delete_record 1 r tx1 db1 = Some (SUCCESS, tx2, db2) \<and> trx_delete_record 1 r tx2 db2 = Some (SUCCESS, tx3, db3) \<and>
     commit tx3 db3 = None"
proof -
  obtain tx db where b: "start_if_need (sy_trx sample_system 0) (sy_db sample_system) = Some (SUCCESS, tx, db)"
    "mvcc_ok (sample_system \<lparr> sy_db := db, sy_trx := (sy_trx sample_system)(0 := tx) \<rparr>)" "trx_started tx"
    "trx_operations tx = []" "current_trx_id db = 1"
    by (rule step_begin_ok [OF mvcc_start_ok [OF sample_system_start], of 0])
      (auto simp: sample_system_def create_trx_def max_trx_id_def)
  let ?s = "sample_system \<lparr> sy_db := db, sy_trx := (sy_trx sample_system)(0 := tx) \<rparr>"
  have tables: "db_tables (sy_db ?s) 1 = Some sample_table"
    using b(1) by (auto simp: start_if_need_def next_trx_id_def sample_system_def Let_def split: if_splits)
  have len: "length sample_data = nat (ht_record_size (mt_table sample_table))" using sample_new_file(3) by (simp add: sample_table_def)
  have st: "trx_started (sy_trx ?s 0)" "trx_operations (sy_trx ?s 0) = []" "current_trx_id (sy_db ?s) + 1 < max_trx_id"
    using b by (simp_all add: max_trx_id_def)
  have run: "mvcc_run sample_system ?s"
    by (rule step_run [OF step_begin [OF b(1)]]) (simp add: sample_system_def max_trx_id_def)
  obtain r tx1 db1 where ins: "trx_insert_record sample_place no_index no_index 1 sample_data (sy_trx ?s 0) (sy_db ?s) =
      Some (SUCCESS, Some r, tx1, db1)"
    by (rule step_insert_ok [OF b(2) st(1) sample_place tables len, of no_index no_index])
      (use sample_new_file(4) in \<open>auto simp: sample_table_def\<close>)
  from own_insert_deleted_twice [OF b(2) st sample_place tables len ins] ins run show ?thesis by blast
qed

text \<open>
  C30: an older transaction may delete a record whose deletion a younger transaction has already
  committed, and its rollback then revives the record: the committed deletion is lost.
\<close>

theorem committed_delete_lost:
  assumes "mvcc_run s0 s" "mvcc_start s0" "trx_started (sy_trx s h)" "trx_operations (sy_trx s h) = []" "set_insertion place"
    and "versions (sy_db s) (t, r) = Some (b, e)" "0 < b" "b \<le> trx_id (sy_trx s h)" "trx_id (sy_trx s h) \<le> e"
    and "e < j" "j < max_trx_id"
  shows "\<not> visible j READ_ONLY (sy_db s) (t, r) \<and>
    (\<exists>tx1 db1 tx2 db2. trx_delete_record t r (sy_trx s h) (sy_db s) = Some (SUCCESS, tx1, db1) \<and>
       trx_rollback place del tx1 db1 = Some (SUCCESS, tx2, db2) \<and> visible j READ_ONLY db2 (t, r))"
proof -
  have ok: "mvcc_ok s" by (rule mvcc_run_ok [OF assms(1) mvcc_start_ok [OF assms(2)]])
  then have dok: "db_ok (sy_db s)" and inv: "sys_inv (current_trx_id (sy_db s)) (versions (sy_db s)) (sy_trx s)"
    by (simp_all add: mvcc_ok_def)
  have i: "0 < trx_id (sy_trx s h)" "trx_id (sy_trx s h) < max_trx_id" "\<not> trx_recovering (sy_trx s h)"
    using sys_invD(4) [OF inv assms(3)] by auto
  have rc: "version_rc (trx_id (sy_trx s h)) READ_WRITE (b, e) = SUCCESS" using assms(7-9) by (simp add: version_rc_def)
  have old: "\<not> visible j READ_ONLY (sy_db s) (t, r)" using assms(6-11) by (simp add: visible_version version_rc_def)
  obtain tx1 db1 db2 where d: "trx_delete_record t r (sy_trx s h) (sy_db s) = Some (SUCCESS, tx1, db1)"
    "trx_rollback place del tx1 db1 = Some (SUCCESS, trx_end tx1, db2)" "versions db2 = (versions (sy_db s))((t, r) \<mapsto> (b, max_trx_id))"
    by (rule delete_then_rollback [OF assms(5) dok assms(6) i assms(4,7) rc, of del])
  have "visible j READ_ONLY db2 (t, r)" using assms(7-11) d(3) by (simp add: visible_version version_rc_def)
  with old d(1,2) show ?thesis by blast
qed

theorem committed_delete_lost_witness:
  "\<exists>s r. mvcc_run sample_system s \<and> versions (sy_db s) (1, r) = Some (2, 5) \<and> \<not> visible 6 READ_ONLY (sy_db s) (1, r) \<and>
     (\<exists>tx1 db1 tx2 db2. trx_delete_record 1 r (sy_trx s 0) (sy_db s) = Some (SUCCESS, tx1, db1) \<and>
        trx_rollback sample_place no_index tx1 db1 = Some (SUCCESS, tx2, db2) \<and> visible 6 READ_ONLY db2 (1, r))"
proof -
  obtain s r mt where s: "mvcc_run sample_system s" "mvcc_ok s" "trx_started (sy_trx s 0)" "trx_id (sy_trx s 0) = 3"
    "trx_operations (sy_trx s 0) = []" "current_trx_id (sy_db s) = 3" "versions (sy_db s) = [(1, r) \<mapsto> (2, max_trx_id)]"
    "db_tables (sy_db s) 1 = Some mt" "ht_record_size (mt_table mt) = 8" "\<forall>h. h \<noteq> 0 \<longrightarrow> \<not> trx_started (sy_trx s h)"
    by (rule sample_run)
  have lim: "current_trx_id (sy_db s) + 1 < max_trx_id" using s(6) by (simp add: max_trx_id_def)
  obtain tx db where b: "start_if_need (sy_trx s 1) (sy_db s) = Some (SUCCESS, tx, db)"
    "mvcc_ok (s \<lparr> sy_db := db, sy_trx := (sy_trx s)(1 := tx) \<rparr>)" "trx_started tx" "versions db = versions (sy_db s)"
    "trx_id tx = 4" "trx_operations tx = []" "current_trx_id db = 4"
    by (rule step_begin_ok [OF s(2) lim, of 1]) (use s(6,10) in auto)
  let ?s1 = "s \<lparr> sy_db := db, sy_trx := (sy_trx s)(1 := tx) \<rparr>"
  have v1: "versions (sy_db ?s1) (1, r) = Some (2, max_trx_id)" using b(4) s(7) by simp
  have i: "trx_started (sy_trx ?s1 1)" "clean_delete (trx_id (sy_trx ?s1 1)) (2, max_trx_id)"
    "0 < trx_id (sy_trx ?s1 1)" "trx_id (sy_trx ?s1 1) < max_trx_id" "db_ok (sy_db ?s1)"
    "version_rc (trx_id (sy_trx ?s1 1)) READ_WRITE (2, max_trx_id) = SUCCESS"
    using b by (simp_all add: max_trx_id_def clean_delete_def mvcc_ok_def version_rc_def)
  from trx_delete_record_ok [OF i(5) v1 i(3,4)] i(6) b(5-7) obtain tx2 db2 where
    d: "trx_delete_record 1 r (sy_trx ?s1 1) (sy_db ?s1) = Some (SUCCESS, tx2, db2)" "versions db2 (1, r) = Some (2, - 4)"
      "trx_id tx2 = 4" "trx_started tx2" "current_trx_id db2 = 4" using b(3) by auto
  let ?s2 = "?s1 \<lparr> sy_db := db2, sy_trx := (sy_trx ?s1)(1 := tx2) \<rparr>"
  have step2: "mvcc_step 1 ?s1 ?s2" by (rule step_trx_delete [OF i(1) v1 i(2) d(1)])
  have st2: "trx_started (sy_trx ?s2 1)" "current_trx_id (sy_db ?s2) + 1 < max_trx_id" using d(4,5) by (simp_all add: max_trx_id_def)
  from commit_ok [OF mvcc_step_ok [OF step2 b(2)] st2] obtain db3 where
    c: "commit (sy_trx ?s2 1) (sy_db ?s2) = Some (SUCCESS, trx_end (sy_trx ?s2 1), db3)"
      "versions db3 (1, r) = map_option (commit_version 4 5) (versions db2 (1, r))" using d(3,5) by auto
  let ?s3 = "?s2 \<lparr> sy_db := db3, sy_trx := (sy_trx ?s2)(1 := trx_end (sy_trx ?s2 1)) \<rparr>"
  have run: "mvcc_run sample_system ?s3"
    by (rule rtranclp_trans [OF s(1) rtranclp_trans [OF step_run [OF step_begin [OF b(1) lim]]
          rtranclp_trans [OF step_run [OF step2] step_run [OF step_commit [OF st2(1) c(1) st2(2)]]]]])
  have v: "versions (sy_db ?s3) (1, r) = Some (2, 5)" using c(2) d(2) by (simp add: commit_version_def)
  have "\<not> visible 6 READ_ONLY (sy_db ?s3) (1, r) \<and>
    (\<exists>tx1 db1 tx2 db2. trx_delete_record 1 r (sy_trx ?s3 0) (sy_db ?s3) = Some (SUCCESS, tx1, db1) \<and>
       trx_rollback sample_place no_index tx1 db1 = Some (SUCCESS, tx2, db2) \<and> visible 6 READ_ONLY db2 (1, r))"
    by (rule committed_delete_lost [OF run sample_system_start _ _ sample_place v])
      (use s(3-5) in \<open>simp_all add: max_trx_id_def\<close>)
  with run v show ?thesis by blast
qed


text \<open>A log with one insertion and no commit: the record stays, and the object of its transaction is never removed.\<close>

definition sample_replayer :: "unit trx_replayer" where
  "sample_replayer = \<lparr> tr_db = sy_db sample_system, tr_objects = (\<lambda>_. None), trx_map = [], kit_trxes = [] \<rparr>"

definition sample_payload :: "byte list" where
  "sample_payload = trx_log_header INSERT_RECORD_LOG 7 @ le_bytes 4 1 @ le_bytes 4 2 @ le_bytes 4 3"

lemma sample_replay:
  obtains st where "trx_replay_all [(0, sample_payload)] sample_replayer = Some (SUCCESS, st)" "kit_trxes st = [0]"
    "current_trx_id (tr_db st) = 7"
proof -
  have f: "log_field 0 sample_payload = log_operation_index INSERT_RECORD_LOG" "log_field (Suc 0) sample_payload = 7"
    "log_field 2 sample_payload = 1" "\<not> length sample_payload < 8" by code_simp+
  obtain st where "trx_replay_all [(0, sample_payload)] sample_replayer = Some (SUCCESS, st) \<and> kit_trxes st = [0] \<and>
      current_trx_id (tr_db st) = 7"
    by (simp add: trx_log_replay_def f sample_replayer_def sample_system_def create_recovering_trx_def
        trx_redo_def find_table_def trx_ended_def Let_def)
  then show thesis by (intro that) auto
qed


end
