(* ===== verification/Float32.thy ===== *)
theory Float32
  imports Complex_Main "HOL-Library.Word"
begin

text \<open>
  The single precision numbers of the source's \<^verbatim>\<open>float\<close>: 32 bit patterns with the arithmetic of IEEE 754
  (round to nearest, ties to even), computed on the rational numbers they stand for.  All results
  that are not a number are the same pattern.
\<close>

unbundle bit_operations_syntax

type_synonym float32 = "32 word"

section \<open>Patterns\<close>

definition fl_sign :: "float32 \<Rightarrow> bool" where "fl_sign x \<longleftrightarrow> bit x 31"

definition fl_exp :: "float32 \<Rightarrow> nat" where "fl_exp x = unat (take_bit 8 (drop_bit 23 x))"

definition fl_frac :: "float32 \<Rightarrow> nat" where "fl_frac x = unat (take_bit 23 x)"

definition fl_is_nan :: "float32 \<Rightarrow> bool" where "fl_is_nan x \<longleftrightarrow> fl_exp x = 255 \<and> fl_frac x \<noteq> 0"

definition fl_is_inf :: "float32 \<Rightarrow> bool" where "fl_is_inf x \<longleftrightarrow> fl_exp x = 255 \<and> fl_frac x = 0"

definition fl_is_zero :: "float32 \<Rightarrow> bool" where "fl_is_zero x \<longleftrightarrow> fl_exp x = 0 \<and> fl_frac x = 0"

definition fl_pack :: "bool \<Rightarrow> nat \<Rightarrow> float32" where
  "fl_pack s n = of_nat (n + (if s then 2 ^ 31 else 0))"

definition fl_nan :: float32 where "fl_nan = 0x7FC00000"

definition fl_inf :: "bool \<Rightarrow> float32" where "fl_inf s = fl_pack s (255 * 2 ^ 23)"

definition fl_max :: float32 where "fl_max = 0x7F7FFFFF"

text \<open>The magnitude and the value of a finite pattern.\<close>

definition fl_mag :: "float32 \<Rightarrow> rat" where
  "fl_mag x =
    (if fl_exp x = 0 then of_nat (fl_frac x) / 2 ^ 149
     else of_nat (2 ^ 23 + fl_frac x) * 2 ^ fl_exp x / 2 ^ 150)"

definition fl_val :: "float32 \<Rightarrow> rat" where
  "fl_val x = (if fl_sign x then - fl_mag x else fl_mag x)"

section \<open>Rounding\<close>

definition round_even :: "rat \<Rightarrow> int" where
  "round_even q =
    (let f = \<lfloor>q\<rfloor>; d = q - of_int f
     in if d < 1 / 2 \<or> d = 1 / 2 \<and> even f then f else f + 1)"

text \<open>
  A magnitude below \<open>2 ^ (k - 125)\<close> has the quantum \<open>2 ^ (k - 149)\<close>; the sum below carries into the exponent
  when the rounding reaches the next power of two.
\<close>

definition fl_round :: "bool \<Rightarrow> rat \<Rightarrow> float32" where
  "fl_round s q =
    (case List.find (\<lambda>k. q < 2 ^ (k + 1) / 2 ^ 126) [0..<254] of
       None \<Rightarrow> fl_inf s
     | Some k \<Rightarrow> fl_pack s (k * 2 ^ 23 + nat (round_even (q * 2 ^ 149 / 2 ^ k))))"

section \<open>Arithmetic\<close>

definition fl_neg :: "float32 \<Rightarrow> float32" where "fl_neg x = x XOR 0x80000000"

definition fl_add :: "float32 \<Rightarrow> float32 \<Rightarrow> float32" where
  "fl_add x y =
    (if fl_is_nan x \<or> fl_is_nan y then fl_nan
     else if fl_is_inf x then if fl_is_inf y \<and> fl_sign x \<noteq> fl_sign y then fl_nan else x
     else if fl_is_inf y then y
     else let v = fl_val x + fl_val y
          in if v = 0 then fl_pack (fl_sign x \<and> fl_sign y) 0 else fl_round (v < 0) \<bar>v\<bar>)"

definition fl_sub :: "float32 \<Rightarrow> float32 \<Rightarrow> float32" where "fl_sub x y = fl_add x (fl_neg y)"

definition fl_mul :: "float32 \<Rightarrow> float32 \<Rightarrow> float32" where
  "fl_mul x y =
    (let s = (fl_sign x \<noteq> fl_sign y)
     in if fl_is_nan x \<or> fl_is_nan y \<or> fl_is_inf x \<and> fl_is_zero y \<or> fl_is_zero x \<and> fl_is_inf y then fl_nan
        else if fl_is_inf x \<or> fl_is_inf y then fl_inf s
        else fl_round s (fl_mag x * fl_mag y))"

definition fl_div :: "float32 \<Rightarrow> float32 \<Rightarrow> float32" where
  "fl_div x y =
    (let s = (fl_sign x \<noteq> fl_sign y)
     in if fl_is_nan x \<or> fl_is_nan y \<or> fl_is_inf x \<and> fl_is_inf y \<or> fl_is_zero x \<and> fl_is_zero y then fl_nan
        else if fl_is_inf x \<or> fl_is_zero y then fl_inf s
        else if fl_is_inf y then fl_pack s 0
        else fl_round s (fl_mag x / fl_mag y))"

text \<open>The integer square root, bit by bit.\<close>

fun isqrt :: "nat \<Rightarrow> nat \<Rightarrow> nat \<Rightarrow> nat" where
  "isqrt 0 r n = r"
| "isqrt (Suc b) r n = isqrt b (if (r + 2 ^ b) ^ 2 \<le> n then r + 2 ^ b else r) n"

definition fl_sqrt :: "float32 \<Rightarrow> float32" where
  "fl_sqrt x =
    (if fl_is_nan x then fl_nan
     else if fl_is_zero x then x
     else if fl_sign x then fl_nan
     else if fl_is_inf x then x
     else case List.find (\<lambda>k. fl_mag x < 4 ^ (k + 1) / 4 ^ 126) [0..<254] of
            None \<Rightarrow> fl_nan
          | Some k \<Rightarrow>
              let s = fl_mag x * 4 ^ 149 / 4 ^ k; f = isqrt 25 0 (nat \<lfloor>s\<rfloor>)
              in fl_pack False (k * 2 ^ 23 + (if s > (of_nat f + 1 / 2) ^ 2 then f + 1 else f)))"

section \<open>Comparison and conversion\<close>

text \<open>Sign and magnitude in one integer; both zeros are zero.\<close>

definition fl_key :: "float32 \<Rightarrow> int" where
  "fl_key x = (let n = uint (take_bit 31 x) in if fl_sign x then - n else n)"

definition fl_less :: "float32 \<Rightarrow> float32 \<Rightarrow> bool" where
  "fl_less x y \<longleftrightarrow> \<not> fl_is_nan x \<and> \<not> fl_is_nan y \<and> fl_key x < fl_key y"

text \<open>Comparison with a number of higher precision.\<close>

definition fl_above :: "float32 \<Rightarrow> rat \<Rightarrow> bool" where
  "fl_above x q \<longleftrightarrow> \<not> fl_is_nan x \<and> (if fl_is_inf x then \<not> fl_sign x else fl_val x > q)"

definition fl_below :: "float32 \<Rightarrow> rat \<Rightarrow> bool" where
  "fl_below x q \<longleftrightarrow> \<not> fl_is_nan x \<and> (if fl_is_inf x then fl_sign x else fl_val x < q)"

definition fl_of_int :: "int \<Rightarrow> float32" where
  "fl_of_int n = fl_round (n < 0) (of_int \<bar>n\<bar>)"

text \<open>The conversion to \<^verbatim>\<open>int\<close> truncates; it is undefined outside the range.\<close>

definition fl_to_int :: "float32 \<Rightarrow> 32 word option" where
  "fl_to_int x =
    (if fl_exp x = 255 then None
     else let n = \<lfloor>fl_mag x\<rfloor>; v = (if fl_sign x then - n else n)
          in if - (2 ^ 31) \<le> v \<and> v < 2 ^ 31 then Some (word_of_int v) else None)"

section \<open>Facts\<close>

lemma fl_less_irrefl: "\<not> fl_less x x"
  by (simp add: fl_less_def)

lemma fl_less_trans: "fl_less x y \<Longrightarrow> fl_less y z \<Longrightarrow> fl_less x z"
  by (auto simp: fl_less_def)

end
