(* ===== verification/Sql_Value.thy ===== *)
theory Sql_Value
  imports Index_Key Float32
begin

text \<open>
  Model of \<^verbatim>\<open>Value\<close> (\<^verbatim>\<open>common/value.cpp\<close>) and of the data types (\<^verbatim>\<open>common/type/*.cpp\<close>): conversion, comparison and
  arithmetic of the values of SQL expressions.

  The text of floating point numbers depends on the locale; \<^verbatim>\<open>strtof\<close>, the output operator and the format
  of two decimals (with the rounding in double precision before it) are arguments, collected in a record.  \<open>None\<close> stands for a failed assertion or a
  conversion that is not defined.  Sums of integers wrap around.
\<close>

section \<open>Values\<close>

datatype Value
  = UndefinedValue
  | IntValue "32 word"
  | FloatValue float32
  | BoolValue bool
  | CharsValue "byte list option"
  | VectorValue "float32 list option"

fun value_attr_type :: "Value \<Rightarrow> AttrType" where
  "value_attr_type UndefinedValue = UNDEFINED"
| "value_attr_type (IntValue _) = INTS"
| "value_attr_type (FloatValue _) = FLOATS"
| "value_attr_type (BoolValue _) = BOOLEANS"
| "value_attr_type (CharsValue _) = CHARS"
| "value_attr_type (VectorValue _) = VECTORS"

fun value_length :: "Value \<Rightarrow> nat" where
  "value_length UndefinedValue = 0"
| "value_length (IntValue _) = 4"
| "value_length (FloatValue _) = 4"
| "value_length (BoolValue _) = 1"
| "value_length (CharsValue s) = (case s of None \<Rightarrow> 0 | Some bs \<Rightarrow> length bs)"
| "value_length (VectorValue v) = (case v of None \<Rightarrow> 0 | Some xs \<Rightarrow> length xs)"

text \<open>A value whose type was set and whose content is the initial zero.\<close>

fun zero_value :: "AttrType \<Rightarrow> Value" where
  "zero_value INTS = IntValue 0"
| "zero_value FLOATS = FloatValue 0"
| "zero_value BOOLEANS = BoolValue False"
| "zero_value CHARS = CharsValue None"
| "zero_value VECTORS = VectorValue None"
| "zero_value _ = UndefinedValue"

text \<open>A copy into a new value: empty strings and vectors lose their memory.\<close>

fun value_copy :: "Value \<Rightarrow> Value" where
  "value_copy (CharsValue (Some [])) = CharsValue None"
| "value_copy (VectorValue (Some [])) = VectorValue None"
| "value_copy v = v"

definition set_string :: "byte list option \<Rightarrow> nat \<Rightarrow> Value" where
  "set_string s len =
    (case s of
       None \<Rightarrow> CharsValue None
     | Some bs \<Rightarrow> CharsValue (Some (takeWhile (\<lambda>c. c \<noteq> 0) (if len > 0 then take len bs else bs))))"

definition set_vector :: "float32 list \<Rightarrow> Value" where
  "set_vector xs = VectorValue (if xs = [] then None else Some xs)"

fun floats_of_bytes :: "nat \<Rightarrow> byte list \<Rightarrow> float32 list" where
  "floats_of_bytes 0 bs = []"
| "floats_of_bytes (Suc n) bs = int_of_bytes bs # floats_of_bytes n (drop 4 bs)"

fun set_data :: "AttrType \<Rightarrow> byte list \<Rightarrow> nat \<Rightarrow> Value" where
  "set_data CHARS bs len = set_string (Some bs) len"
| "set_data INTS bs len = IntValue (int_of_bytes bs)"
| "set_data FLOATS bs len = FloatValue (int_of_bytes bs)"
| "set_data BOOLEANS bs len = BoolValue (int_of_bytes bs \<noteq> 0)"
| "set_data VECTORS bs len = set_vector (floats_of_bytes (len div 4) bs)"
| "set_data t bs len = zero_value t"

section \<open>Text\<close>

record float_text =
  ft_strtof :: "byte list \<Rightarrow> float32 \<times> nat \<times> bool"
  ft_show :: "float32 \<Rightarrow> byte list"
  ft_printf2 :: "float32 \<Rightarrow> byte list"

definition stof :: "float_text \<Rightarrow> byte list \<Rightarrow> float32 option" where
  "stof lib s = (case ft_strtof lib s of (v, n, range_error) \<Rightarrow> if n = 0 \<or> range_error then None else Some v)"

definition isspace :: "byte \<Rightarrow> bool" where "isspace c \<longleftrightarrow> c = 32 \<or> 9 \<le> c \<and> c \<le> 13"

definition isdigit :: "byte \<Rightarrow> bool" where "isdigit c \<longleftrightarrow> 48 \<le> c \<and> c \<le> 57"

definition stol :: "byte list \<Rightarrow> int option" where
  "stol s =
    (let s1 = dropWhile isspace s;
         (neg, s2) = (case s1 of [] \<Rightarrow> (False, s1) | c # r \<Rightarrow> if c = 45 then (True, r) else if c = 43 then (False, r) else (False, s1));
         ds = takeWhile isdigit s2;
         n = foldl (\<lambda>n d. 10 * n + (uint d - 48)) 0 ds;
         v = (if neg then - n else n)
     in if ds = [] \<or> v < - (2 ^ 63) \<or> v \<ge> 2 ^ 63 then None else Some v)"

fun dec_digits :: "nat \<Rightarrow> byte list" where
  "dec_digits n = (if n < 10 then [of_nat (48 + n)] else dec_digits (n div 10) @ [of_nat (48 + n mod 10)])"

declare dec_digits.simps [simp del]

definition show_int :: "int \<Rightarrow> byte list" where
  "show_int n = (if n < 0 then 45 # dec_digits (nat (- n)) else dec_digits (nat n))"

text \<open>\<^verbatim>\<open>double_to_str\<close> cuts the zeros at the end of the two decimals, and then the point.\<close>

definition double_to_str :: "float_text \<Rightarrow> float32 \<Rightarrow> byte list" where
  "double_to_str lib v =
    (let buf = rev (dropWhile (\<lambda>c. c = 48) (rev (ft_printf2 lib v)))
     in if buf \<noteq> [] \<and> last buf = 46 then butlast buf else buf)"

fun commas :: "byte list list \<Rightarrow> byte list" where
  "commas [] = []"
| "commas [x] = x"
| "commas (x # y # xs) = x @ 44 # commas (y # xs)"

definition vector_to_string :: "float_text \<Rightarrow> float32 list \<Rightarrow> byte list" where
  "vector_to_string lib xs = 91 # commas (map (ft_show lib) xs) @ [93]"

text \<open>\<^verbatim>\<open>to_string\<close>; the types without a text give the empty one.\<close>

fun value_to_string :: "float_text \<Rightarrow> Value \<Rightarrow> byte list" where
  "value_to_string lib (IntValue i) = show_int (sint i)"
| "value_to_string lib (FloatValue x) = double_to_str lib x"
| "value_to_string lib (CharsValue s) = (case s of None \<Rightarrow> [] | Some bs \<Rightarrow> bs)"
| "value_to_string lib (VectorValue v) = vector_to_string lib (case v of None \<Rightarrow> [] | Some xs \<Rightarrow> xs)"
| "value_to_string lib _ = []"

text \<open>The elements between the brackets of the text of a vector.\<close>

definition strip_blanks :: "byte list \<Rightarrow> byte list" where
  "strip_blanks s = rev (dropWhile (\<lambda>c. c = 32 \<or> c = 9) (rev s))"

lemma length_dropWhile_less: "dropWhile P xs = y # ys \<Longrightarrow> length ys < length xs"
  by (metis length_dropWhile_le length_Cons less_Suc_eq_le less_le_trans lessI)

lemma rest_shorter: "dropWhile Q xs = y # ys \<Longrightarrow> length (drop 1 (dropWhile P (y # ys))) < length xs"
  using length_dropWhile_less [of Q xs y ys] length_dropWhile_le [of P "y # ys"] by simp

function vector_elements :: "float_text \<Rightarrow> byte list \<Rightarrow> (RC + float32 list)" where
  "vector_elements lib content =
    (case dropWhile (\<lambda>c. c = 32 \<or> c = 9) content of
       [] \<Rightarrow> Inr []
     | c # cs \<Rightarrow>
         let num_str = strip_blanks (takeWhile (\<lambda>c. c \<noteq> 44) (c # cs));
             rest = drop 1 (dropWhile (\<lambda>c. c \<noteq> 44) (c # cs))
         in if num_str = [] then vector_elements lib rest
            else case ft_strtof lib num_str of (v, n, _) \<Rightarrow>
              if n \<noteq> length num_str then Inl INVALID_ARGUMENT
              else case vector_elements lib rest of Inl rc \<Rightarrow> Inl rc | Inr vs \<Rightarrow> Inr (v # vs))"
  by pat_completeness auto
termination
  by (relation "measure (\<lambda>(lib, content). length content)")
    (use rest_shorter in \<open>simp_all only: in_measure prod.case wf_measure\<close>)

declare vector_elements.simps [simp del]

definition vector_from_str :: "float_text \<Rightarrow> byte list \<Rightarrow> (RC + Value)" where
  "vector_from_str lib data =
    (let blank = (\<lambda>c. c = 32 \<or> c = 9 \<or> c = 10 \<or> c = 13);
         s = rev (dropWhile blank (rev (dropWhile blank data)))
     in if s = [] then Inl INVALID_ARGUMENT
        else if hd s \<noteq> 91 \<or> last s \<noteq> 93 then Inl INVALID_ARGUMENT
        else case vector_elements lib (tl (butlast s)) of
               Inl rc \<Rightarrow> Inl rc
             | Inr [] \<Rightarrow> Inl INVALID_ARGUMENT
             | Inr vs \<Rightarrow> Inr (set_vector vs))"

section \<open>Conversion\<close>

fun value_get_int :: "Value \<Rightarrow> 32 word option" where
  "value_get_int (CharsValue s) =
    Some (case s of None \<Rightarrow> 0 | Some bs \<Rightarrow> (case stol bs of None \<Rightarrow> 0 | Some v \<Rightarrow> word_of_int v))"
| "value_get_int (IntValue i) = Some i"
| "value_get_int (FloatValue x) = fl_to_int x"
| "value_get_int (BoolValue b) = Some (if b then 1 else 0)"
| "value_get_int _ = Some 0"

fun value_get_float :: "float_text \<Rightarrow> Value \<Rightarrow> float32" where
  "value_get_float lib (CharsValue s) =
    (case s of None \<Rightarrow> 0 | Some bs \<Rightarrow> (case stof lib bs of None \<Rightarrow> 0 | Some v \<Rightarrow> v))"
| "value_get_float lib (IntValue i) = fl_of_int (sint i)"
| "value_get_float lib (FloatValue x) = x"
| "value_get_float lib (BoolValue b) = fl_of_int (if b then 1 else 0)"
| "value_get_float lib _ = 0"

text \<open>\<^verbatim>\<open>EPSILON\<close> is a number of double precision.\<close>

definition EPSILON :: rat where "EPSILON = 4722366482869645 / 2 ^ 72"

text \<open>A string is true unless it has no memory, whether it reads as a number or not.\<close>

fun value_get_boolean :: "Value \<Rightarrow> bool" where
  "value_get_boolean (CharsValue s) \<longleftrightarrow> s \<noteq> None"
| "value_get_boolean (IntValue i) \<longleftrightarrow> i \<noteq> 0"
| "value_get_boolean (FloatValue x) \<longleftrightarrow>
    \<not> fl_is_nan x \<and> (\<not> fl_below x EPSILON \<or> \<not> fl_above x (- EPSILON))"
| "value_get_boolean (BoolValue b) \<longleftrightarrow> b"
| "value_get_boolean _ \<longleftrightarrow> False"

text \<open>\<^verbatim>\<open>cast_to\<close> of the type of the value; the same type is not cast.\<close>

fun value_cast_to :: "Value \<Rightarrow> AttrType \<Rightarrow> (RC + Value)" where
  "value_cast_to (IntValue i) t = (if t = FLOATS then Inr (FloatValue (fl_of_int (sint i))) else Inl SCHEMA_FIELD_TYPE_MISMATCH)"
| "value_cast_to (CharsValue _) t = Inl UNIMPLEMENTED"
| "value_cast_to _ t = Inl UNSUPPORTED"

definition cast_cost :: "AttrType \<Rightarrow> AttrType \<Rightarrow> int" where
  "cast_cost from to = (if to = from then 0 else if from = INTS \<and> to = FLOATS then 1 else INT32_MAX)"

section \<open>Comparison\<close>

definition compare_float :: "float32 \<Rightarrow> float32 \<Rightarrow> int" where
  "compare_float v1 v2 =
    (let cmp = fl_sub v1 v2
     in if fl_above cmp EPSILON then 1 else if fl_below cmp (- EPSILON) then - 1 else 0)"

fun vector_compare :: "float32 list \<Rightarrow> float32 list \<Rightarrow> int" where
  "vector_compare (l # lv) (r # rv) =
    (if fl_less 0x358637BD (take_bit 31 (fl_sub l r)) then (if fl_less l r then - 1 else 1)
     else vector_compare lv rv)"
| "vector_compare _ _ = 0"

fun value_compare :: "float_text \<Rightarrow> Value \<Rightarrow> Value \<Rightarrow> int option" where
  "value_compare lib (IntValue l) r =
    (case r of
       IntValue i \<Rightarrow> Some (compare_int l i)
     | FloatValue x \<Rightarrow> Some (compare_float (fl_of_int (sint l)) x)
     | _ \<Rightarrow> None)"
| "value_compare lib (FloatValue l) r =
    (case r of
       IntValue _ \<Rightarrow> Some (compare_float l (value_get_float lib r))
     | FloatValue _ \<Rightarrow> Some (compare_float l (value_get_float lib r))
     | _ \<Rightarrow> None)"
| "value_compare lib (CharsValue l) r =
    (case r of
       CharsValue s \<Rightarrow>
         (let bs1 = (case l of None \<Rightarrow> [] | Some bs \<Rightarrow> bs); bs2 = (case s of None \<Rightarrow> [] | Some bs \<Rightarrow> bs)
          in Some (compare_string bs1 (length bs1) bs2 (length bs2)))
     | _ \<Rightarrow> None)"
| "value_compare lib (VectorValue l) r =
    (case r of
       VectorValue v \<Rightarrow>
         (let xs = (case l of None \<Rightarrow> [] | Some xs \<Rightarrow> xs); ys = (case v of None \<Rightarrow> [] | Some ys \<Rightarrow> ys)
          in Some (if length xs \<noteq> length ys then - 1 else vector_compare xs ys))
     | _ \<Rightarrow> None)"
| "value_compare lib _ r = Some INT32_MAX"

section \<open>Arithmetic\<close>

datatype arith_type = ADD | SUB | MUL | DIV | NEGATIVE

text \<open>The operations of the type of the result; the others report \<open>UNSUPPORTED\<close> and leave the result as it is.\<close>

definition integer_arith :: "arith_type \<Rightarrow> Value \<Rightarrow> Value \<Rightarrow> (RC \<times> Value) option" where
  "integer_arith op l r =
    (case op of
       ADD \<Rightarrow> Option.bind (value_get_int l) (\<lambda>a. Option.bind (value_get_int r) (\<lambda>b. Some (SUCCESS, IntValue (a + b))))
     | SUB \<Rightarrow> Option.bind (value_get_int l) (\<lambda>a. Option.bind (value_get_int r) (\<lambda>b. Some (SUCCESS, IntValue (a - b))))
     | MUL \<Rightarrow> Option.bind (value_get_int l) (\<lambda>a. Option.bind (value_get_int r) (\<lambda>b. Some (SUCCESS, IntValue (a * b))))
     | DIV \<Rightarrow> Some (UNSUPPORTED, zero_value INTS)
     | NEGATIVE \<Rightarrow> Option.bind (value_get_int l) (\<lambda>a. Some (SUCCESS, IntValue (- a))))"

definition float_divide :: "float32 \<Rightarrow> float32 \<Rightarrow> float32" where
  "float_divide l r = (if fl_above r (- EPSILON) \<and> fl_below r EPSILON then fl_max else fl_div l r)"

definition float_arith :: "float_text \<Rightarrow> arith_type \<Rightarrow> Value \<Rightarrow> Value \<Rightarrow> (RC \<times> Value) option" where
  "float_arith lib op l r =
    (let a = value_get_float lib l; b = value_get_float lib r
     in Some (SUCCESS, FloatValue (case op of
          ADD \<Rightarrow> fl_add a b | SUB \<Rightarrow> fl_sub a b | MUL \<Rightarrow> fl_mul a b | DIV \<Rightarrow> float_divide a b | NEGATIVE \<Rightarrow> fl_neg a)))"

definition value_arith :: "float_text \<Rightarrow> arith_type \<Rightarrow> AttrType \<Rightarrow> Value \<Rightarrow> Value \<Rightarrow> (RC \<times> Value) option" where
  "value_arith lib op t l r =
    (case t of
       INTS \<Rightarrow> integer_arith op l r
     | FLOATS \<Rightarrow> float_arith lib op l r
     | _ \<Rightarrow> Some (UNSUPPORTED, zero_value t))"

section \<open>Distance of vectors\<close>

definition dot_product :: "float32 list \<Rightarrow> float32 list \<Rightarrow> (RC + float32)" where
  "dot_product a b =
    (if a = [] \<or> b = [] then Inl INVALID_ARGUMENT
     else Inr (fl_neg (foldl (\<lambda>dot (x, y). fl_add dot (fl_mul x y)) 0 (zip a b))))"

definition euclidean_distance :: "float32 list \<Rightarrow> float32 list \<Rightarrow> (RC + float32)" where
  "euclidean_distance a b =
    (if a = [] \<or> b = [] then Inl INVALID_ARGUMENT
     else Inr (foldl (\<lambda>sum (x, y). let diff = fl_sub x y in fl_add sum (fl_mul diff diff)) 0 (zip a b)))"

definition cosine_distance :: "float32 list \<Rightarrow> float32 list \<Rightarrow> (RC + float32)" where
  "cosine_distance a b =
    (if a = [] \<or> b = [] then Inl INVALID_ARGUMENT
     else
       let (dot, na, nb) = foldl (\<lambda>(dot, na, nb) (x, y).
             (fl_add dot (fl_mul x y), fl_add na (fl_mul x x), fl_add nb (fl_mul y y))) (0, 0, 0) (zip a b);
           norm_a = fl_sqrt na; norm_b = fl_sqrt nb
       in if fl_less norm_a 0x322BCC77 \<or> fl_less norm_b 0x322BCC77 then Inl INVALID_ARGUMENT
          else
            let s = fl_div dot (fl_mul norm_a norm_b);
                s1 = (if fl_less 0x3F800000 s then 0x3F800000 else s);
                s2 = (if fl_less s1 0xBF800000 then 0xBF800000 else s1)
            in Inr (fl_sub 0x3F800000 s2))"

section \<open>Facts\<close>

lemma value_copy_idem [simp]: "value_copy (value_copy v) = value_copy v"
  by (cases v rule: value_copy.cases) auto

lemma value_copy_type [simp]: "value_attr_type (value_copy v) = value_attr_type v"
  by (cases v rule: value_copy.cases) auto

lemma zero_value_type: "t \<noteq> MAXTYPE \<Longrightarrow> value_attr_type (zero_value t) = t"
  by (cases t) auto

lemma set_data_type: "t \<noteq> MAXTYPE \<Longrightarrow> value_attr_type (set_data t bs len) = t"
  by (cases t) (auto simp: set_string_def set_vector_def)

lemma value_cast_to_type: "value_cast_to v t = Inr w \<Longrightarrow> value_attr_type w = t"
  by (cases v) (auto split: if_splits)

lemma value_arith_type:
  "value_arith lib op t l r = Some (rc, w) \<Longrightarrow> t \<noteq> MAXTYPE \<Longrightarrow> value_attr_type w = t"
  by (auto simp: value_arith_def integer_arith_def float_arith_def Let_def bind_eq_Some_conv zero_value_type
      split: AttrType.splits arith_type.splits)

end
