(* ===== verification/Sql_Expr.thy ===== *)
theory Sql_Expr
  imports Sql_Value
begin

text \<open>
  Model of expressions (\<^verbatim>\<open>sql/expr/expression.cpp\<close>) and of the tuples they read (\<^verbatim>\<open>sql/expr/tuple.h\<close>): evaluation on a
  tuple, evaluation without one, and the type of an expression.

  The result of an evaluation is a code (\<open>Inl\<close>) or a value (\<open>Inr\<close>); \<open>None\<close> stands for a failed assertion
  or a null pointer that is read.  Values are returned in new variables.
\<close>

section \<open>Tuples\<close>

record field_meta =
  fm_name :: string
  fm_type :: AttrType
  fm_offset :: nat
  fm_len :: nat
  fm_visible :: bool
  fm_id :: int

record cell_spec =
  cs_table :: string
  cs_field :: string
  cs_alias :: string

definition field_spec :: "string \<Rightarrow> string \<Rightarrow> cell_spec" where
  "field_spec table name =
    \<lparr> cs_table = table, cs_field = name, cs_alias = (if table = [] then name else table @ ''.'' @ name) \<rparr>"

definition alias_spec :: "string \<Rightarrow> cell_spec" where
  "alias_spec alias = \<lparr> cs_table = [], cs_field = [], cs_alias = alias \<rparr>"

datatype tuple
  = RowTuple string "field_meta list" "byte list"
  | ValueListTuple "(cell_spec \<times> Value) list"
  | JoinedTuple tuple tuple

fun cell_num :: "tuple \<Rightarrow> nat" where
  "cell_num (RowTuple table fms data) = length fms"
| "cell_num (ValueListTuple cells) = length cells"
| "cell_num (JoinedTuple l r) = cell_num l + cell_num r"

definition field_cell :: "field_meta \<Rightarrow> byte list \<Rightarrow> Value" where
  "field_cell fm data = set_data (fm_type fm) (drop (fm_offset fm) data) (fm_len fm)"

fun cell_at :: "tuple \<Rightarrow> int \<Rightarrow> (RC + Value)" where
  "cell_at (RowTuple table fms data) i =
    (if i < 0 \<or> i \<ge> int (length fms) then Inl INVALID_ARGUMENT else Inr (field_cell (fms ! nat i) data))"
| "cell_at (ValueListTuple cells) i =
    (if i < 0 \<or> i \<ge> int (length cells) then Inl NOTFOUND else Inr (value_copy (snd (cells ! nat i))))"
| "cell_at (JoinedTuple l r) i =
    (if 0 \<le> i \<and> i < int (cell_num l) then cell_at l i
     else if int (cell_num l) \<le> i \<and> i < int (cell_num l) + int (cell_num r) then cell_at r (i - int (cell_num l))
     else Inl NOTFOUND)"

fun spec_at :: "tuple \<Rightarrow> int \<Rightarrow> (RC + cell_spec) option" where
  "spec_at (RowTuple table fms data) i =
    (if i < 0 \<or> i \<ge> int (length fms) then None else Some (Inr (field_spec table (fm_name (fms ! nat i)))))"
| "spec_at (ValueListTuple cells) i =
    Some (if i < 0 \<or> i \<ge> int (length cells) then Inl NOTFOUND else Inr (fst (cells ! nat i)))"
| "spec_at (JoinedTuple l r) i =
    (if 0 \<le> i \<and> i < int (cell_num l) then spec_at l i
     else if int (cell_num l) \<le> i \<and> i < int (cell_num l) + int (cell_num r) then spec_at r (i - int (cell_num l))
     else Some (Inl NOTFOUND))"

fun find_field :: "string \<Rightarrow> field_meta list \<Rightarrow> byte list \<Rightarrow> (RC + Value)" where
  "find_field name [] data = Inl NOTFOUND"
| "find_field name (fm # fms) data = (if fm_name fm = name then Inr (field_cell fm data) else find_field name fms data)"

fun find_spec :: "cell_spec \<Rightarrow> (cell_spec \<times> Value) list \<Rightarrow> (RC + Value)" where
  "find_spec spec [] = Inl NOTFOUND"
| "find_spec spec ((s, v) # cells) = (if s = spec then Inr (value_copy v) else find_spec spec cells)"

fun find_cell :: "tuple \<Rightarrow> cell_spec \<Rightarrow> (RC + Value)" where
  "find_cell (RowTuple table fms data) spec =
    (if cs_table spec \<noteq> table then Inl NOTFOUND else find_field (cs_field spec) fms data)"
| "find_cell (ValueListTuple cells) spec = find_spec spec cells"
| "find_cell (JoinedTuple l r) spec =
    (case find_cell l spec of Inl rc \<Rightarrow> if rc \<noteq> NOTFOUND then Inl rc else find_cell r spec | Inr v \<Rightarrow> Inr v)"

text \<open>\<^verbatim>\<open>ValueListTuple::make\<close> copies the cells of a tuple.\<close>

fun collect_cells :: "tuple \<Rightarrow> nat list \<Rightarrow> (RC + (cell_spec \<times> Value) list) option" where
  "collect_cells t [] = Some (Inr [])"
| "collect_cells t (i # is) =
    (case cell_at t (int i) of
       Inl rc \<Rightarrow> Some (Inl rc)
     | Inr v \<Rightarrow>
         Option.bind (spec_at t (int i)) (\<lambda>s.
           case s of
             Inl rc \<Rightarrow> Some (Inl rc)
           | Inr spec \<Rightarrow>
               map_option (\<lambda>cells. case cells of Inl rc \<Rightarrow> Inl rc | Inr cs \<Rightarrow> Inr ((spec, value_copy v) # cs)) (collect_cells t is)))"

definition make_value_list :: "tuple \<Rightarrow> (RC + tuple) option" where
  "make_value_list t =
    map_option (\<lambda>cells. case cells of Inl rc \<Rightarrow> Inl rc | Inr cs \<Rightarrow> Inr (ValueListTuple cs)) (collect_cells t [0..<cell_num t])"

section \<open>Expressions\<close>

datatype CompOp = EQUAL_TO | LESS_EQUAL | NOT_EQUAL | LESS_THAN | GREAT_EQUAL | GREAT_THAN | NO_OP

datatype conj_type = ConjAnd | ConjOr

datatype aggr_type = AggrCount | AggrSum | AggrAvg | AggrMax | AggrMin

datatype func_type = DISTANCE | VECTOR_TO_STRING | STRING_TO_VECTOR

datatype expr
  = StarExpr string
  | UnboundFieldExpr string string
  | FieldExpr string field_meta
  | ValueExpr Value
  | CastExpr expr AttrType
  | ComparisonExpr CompOp expr expr
  | ConjunctionExpr conj_type "expr list"
  | ArithmeticExpr arith_type expr "expr option"
  | UnboundAggregateExpr string expr
  | AggregateExpr string aggr_type expr
  | UnboundFunctionExpr string "expr list"
  | FunctionExpr func_type "expr list"

fun value_type :: "expr \<Rightarrow> AttrType" where
  "value_type (StarExpr _) = UNDEFINED"
| "value_type (UnboundFieldExpr _ _) = UNDEFINED"
| "value_type (FieldExpr _ fm) = fm_type fm"
| "value_type (ValueExpr v) = value_attr_type v"
| "value_type (CastExpr _ t) = t"
| "value_type (ComparisonExpr _ _ _) = BOOLEANS"
| "value_type (ConjunctionExpr _ _) = BOOLEANS"
| "value_type (ArithmeticExpr op l r) =
    (case r of
       None \<Rightarrow> value_type l
     | Some e \<Rightarrow> if value_type l = INTS \<and> value_type e = INTS \<and> op \<noteq> DIV then INTS else FLOATS)"
| "value_type (UnboundAggregateExpr _ e) = value_type e"
| "value_type (AggregateExpr _ a e) =
    (case a of AggrCount \<Rightarrow> INTS | AggrAvg \<Rightarrow> FLOATS | _ \<Rightarrow> value_type e)"
| "value_type (UnboundFunctionExpr _ _) = UNDEFINED"
| "value_type (FunctionExpr f _) =
    (case f of DISTANCE \<Rightarrow> FLOATS | VECTOR_TO_STRING \<Rightarrow> CHARS | STRING_TO_VECTOR \<Rightarrow> VECTORS)"

text \<open>The parts of the evaluation that work on values.\<close>

definition expr_cast :: "AttrType \<Rightarrow> Value \<Rightarrow> (RC + Value)" where
  "expr_cast t v = (if t = value_attr_type v then Inr (value_copy v) else value_cast_to v t)"

definition comp_holds :: "CompOp \<Rightarrow> int \<Rightarrow> bool option" where
  "comp_holds op cmp =
    (case op of
       EQUAL_TO \<Rightarrow> Some (cmp = 0)
     | LESS_EQUAL \<Rightarrow> Some (cmp \<le> 0)
     | NOT_EQUAL \<Rightarrow> Some (cmp \<noteq> 0)
     | LESS_THAN \<Rightarrow> Some (cmp < 0)
     | GREAT_EQUAL \<Rightarrow> Some (cmp \<ge> 0)
     | GREAT_THAN \<Rightarrow> Some (cmp > 0)
     | NO_OP \<Rightarrow> None)"

definition compare_value :: "float_text \<Rightarrow> CompOp \<Rightarrow> Value \<Rightarrow> Value \<Rightarrow> (RC + bool) option" where
  "compare_value lib op l r =
    map_option (\<lambda>cmp. case comp_holds op cmp of None \<Rightarrow> Inl INTERNAL | Some b \<Rightarrow> Inr b) (value_compare lib l r)"

text \<open>\<^verbatim>\<open>calc_value\<close> drops the code of the operation.\<close>

definition calc_value :: "float_text \<Rightarrow> arith_type \<Rightarrow> AttrType \<Rightarrow> Value \<Rightarrow> Value \<Rightarrow> (RC + Value) option" where
  "calc_value lib op target_type l r = map_option (\<lambda>(rc, v). Inr v) (value_arith lib op target_type l r)"

definition tolower :: "byte \<Rightarrow> byte" where "tolower c = (if 65 \<le> c \<and> c \<le> 90 then c + 32 else c)"

definition strcasecmp :: "byte list \<Rightarrow> string \<Rightarrow> bool" where
  "strcasecmp s t \<longleftrightarrow> map tolower s = map tolower (map of_char t)"

definition vector_of :: "Value \<Rightarrow> float32 list" where
  "vector_of v = (case v of VectorValue (Some xs) \<Rightarrow> xs | _ \<Rightarrow> [])"

definition distance_value :: "float_text \<Rightarrow> Value \<Rightarrow> Value \<Rightarrow> Value \<Rightarrow> (RC + Value)" where
  "distance_value lib v1 v2 m =
    (let method = value_to_string lib m;
         dist = (if strcasecmp method ''cosine'' then cosine_distance (vector_of v1) (vector_of v2)
                 else if strcasecmp method ''dot'' then dot_product (vector_of v1) (vector_of v2)
                 else if strcasecmp method ''euclidean'' \<or> strcasecmp method ''l2'' then euclidean_distance (vector_of v1) (vector_of v2)
                 else Inl INVALID_ARGUMENT)
     in case dist of Inl rc \<Rightarrow> Inl rc | Inr d \<Rightarrow> Inr (FloatValue d))"

definition string_to_vector_value :: "float_text \<Rightarrow> Value \<Rightarrow> (RC + Value)" where
  "string_to_vector_value lib v = vector_from_str lib (value_to_string lib v)"

definition vector_to_string_value :: "float_text \<Rightarrow> Value \<Rightarrow> (RC + Value)" where
  "vector_to_string_value lib v =
    (if value_attr_type v \<noteq> VECTORS then Inl INVALID_ARGUMENT
     else let out = vector_to_string lib (vector_of v) in Inr (set_string (Some out) (length out)))"

section \<open>Evaluation on a tuple\<close>

type_synonym eval = "(RC + Value) option"

definition eval_then :: "eval \<Rightarrow> (Value \<Rightarrow> eval) \<Rightarrow> eval" where
  "eval_then m k = Option.bind m (\<lambda>r. case r of Inl rc \<Rightarrow> Some (Inl rc) | Inr v \<Rightarrow> k v)"

lemma eval_then_cong [fundef_cong]:
  "m = m' \<Longrightarrow> (\<And>v. m' = Some (Inr v) \<Longrightarrow> k v = k' v) \<Longrightarrow> eval_then m k = eval_then m' k'"
  by (auto simp: eval_then_def split: sum.splits Option.bind_splits)

fun get_value :: "float_text \<Rightarrow> tuple \<Rightarrow> expr \<Rightarrow> eval"
  and conjunction_value :: "float_text \<Rightarrow> tuple \<Rightarrow> conj_type \<Rightarrow> expr list \<Rightarrow> eval" where
  "get_value lib t (StarExpr _) = Some (Inl UNIMPLEMENTED)"
| "get_value lib t (UnboundFieldExpr _ _) = Some (Inl INTERNAL)"
| "get_value lib t (FieldExpr table fm) = Some (find_cell t (field_spec table (fm_name fm)))"
| "get_value lib t (ValueExpr v) = Some (Inr (value_copy v))"
| "get_value lib t (CastExpr e ty) = eval_then (get_value lib t e) (\<lambda>v. Some (expr_cast ty v))"
| "get_value lib t (ComparisonExpr op l r) =
    eval_then (get_value lib t l) (\<lambda>a. eval_then (get_value lib t r) (\<lambda>b.
      map_option (\<lambda>c. case c of Inl rc \<Rightarrow> Inl rc | Inr x \<Rightarrow> Inr (BoolValue x)) (compare_value lib op a b)))"
| "get_value lib t (ConjunctionExpr ct es) =
    (if es = [] then Some (Inr (BoolValue True)) else conjunction_value lib t ct es)"
| "get_value lib t (ArithmeticExpr op l r) =
    eval_then (get_value lib t l) (\<lambda>a.
      case r of
        None \<Rightarrow> None
      | Some e \<Rightarrow> eval_then (get_value lib t e) (\<lambda>b. calc_value lib op (value_type (ArithmeticExpr op l r)) a b))"
| "get_value lib t (UnboundAggregateExpr _ _) = Some (Inl INTERNAL)"
| "get_value lib t (AggregateExpr name _ _) = Some (find_cell t (alias_spec name))"
| "get_value lib t (UnboundFunctionExpr _ _) = Some (Inl INTERNAL)"
| "get_value lib t (FunctionExpr f es) =
    (case f of
       DISTANCE \<Rightarrow>
         (case es of
            [e1, e2, e3] \<Rightarrow>
              eval_then (get_value lib t e1) (\<lambda>v1.
                if value_attr_type v1 \<noteq> VECTORS then Some (Inl INVALID_ARGUMENT)
                else eval_then (get_value lib t e2) (\<lambda>v2.
                  if value_attr_type v2 \<noteq> VECTORS then Some (Inl INVALID_ARGUMENT)
                  else if value_length v1 \<noteq> value_length v2 then Some (Inl INVALID_ARGUMENT)
                  else eval_then (get_value lib t e3) (\<lambda>m. Some (distance_value lib v1 v2 m))))
          | _ \<Rightarrow> Some (Inl INVALID_ARGUMENT))
     | STRING_TO_VECTOR \<Rightarrow>
         (case es of
            [e] \<Rightarrow> eval_then (get_value lib t e) (\<lambda>v. Some (string_to_vector_value lib v))
          | _ \<Rightarrow> Some (Inl INVALID_ARGUMENT))
     | VECTOR_TO_STRING \<Rightarrow>
         (case es of
            [e] \<Rightarrow> eval_then (get_value lib t e) (\<lambda>v. Some (vector_to_string_value lib v))
          | _ \<Rightarrow> Some (Inl INVALID_ARGUMENT)))"
| "conjunction_value lib t ct [] = Some (Inr (BoolValue (ct = ConjAnd)))"
| "conjunction_value lib t ct (e # es) =
    eval_then (get_value lib t e) (\<lambda>v.
      let b = value_get_boolean v
      in if ct = ConjAnd \<and> \<not> b \<or> ct = ConjOr \<and> b then Some (Inr (BoolValue b)) else conjunction_value lib t ct es)"

section \<open>Evaluation without a tuple\<close>

fun try_get_value :: "float_text \<Rightarrow> expr \<Rightarrow> eval"
  and try_values :: "float_text \<Rightarrow> expr list \<Rightarrow> (RC + Value list) option" where
  "try_get_value lib (ValueExpr v) = Some (Inr (value_copy v))"
| "try_get_value lib (CastExpr e ty) = eval_then (try_get_value lib e) (\<lambda>v. Some (expr_cast ty v))"
| "try_get_value lib (ComparisonExpr op l r) =
    (case (l, r) of
       (ValueExpr a, ValueExpr b) \<Rightarrow>
         map_option (\<lambda>c. case c of Inl rc \<Rightarrow> Inl rc | Inr x \<Rightarrow> Inr (BoolValue x)) (compare_value lib op a b)
     | _ \<Rightarrow> Some (Inl INVALID_ARGUMENT))"
| "try_get_value lib (ArithmeticExpr op l r) =
    eval_then (try_get_value lib l) (\<lambda>a.
      case r of
        None \<Rightarrow> calc_value lib op (value_type (ArithmeticExpr op l r)) a UndefinedValue
      | Some e \<Rightarrow> eval_then (try_get_value lib e) (\<lambda>b. calc_value lib op (value_type (ArithmeticExpr op l r)) a b))"
| "try_get_value lib (FunctionExpr f es) =
    Option.bind (try_values lib es) (\<lambda>vs.
      case vs of
        Inl rc \<Rightarrow> Some (Inl rc)
      | Inr vs \<Rightarrow>
          Some (case f of
            DISTANCE \<Rightarrow>
              (case vs of
                 [v1, v2, m] \<Rightarrow>
                   if value_attr_type v1 \<noteq> VECTORS \<or> value_attr_type v2 \<noteq> VECTORS then Inl INVALID_ARGUMENT
                   else if value_length v1 \<noteq> value_length v2 then Inl INVALID_ARGUMENT
                   else distance_value lib v1 v2 m
               | _ \<Rightarrow> Inl INVALID_ARGUMENT)
          | STRING_TO_VECTOR \<Rightarrow> (case vs of [v] \<Rightarrow> string_to_vector_value lib v | _ \<Rightarrow> Inl INVALID_ARGUMENT)
          | VECTOR_TO_STRING \<Rightarrow> (case vs of [v] \<Rightarrow> vector_to_string_value lib v | _ \<Rightarrow> Inl INVALID_ARGUMENT)))"
| "try_get_value lib _ = Some (Inl UNIMPLEMENTED)"
| "try_values lib [] = Some (Inr [])"
| "try_values lib (e # es) =
    Option.bind (try_get_value lib e) (\<lambda>r.
      case r of
        Inl rc \<Rightarrow> Some (Inl rc)
      | Inr v \<Rightarrow> map_option (\<lambda>vs. case vs of Inl rc \<Rightarrow> Inl rc | Inr vs \<Rightarrow> Inr (v # vs)) (try_values lib es))"

section \<open>Facts about evaluation\<close>

lemma eval_then_SomeE:
  assumes "eval_then m k = Some (Inr w)"
  obtains v where "m = Some (Inr v)" "k v = Some (Inr w)"
  using assms by (cases m; cases "the m") (auto simp: eval_then_def)

lemma eval_then_simps [simp]:
  "eval_then (Some (Inr v)) k = k v" "eval_then (Some (Inl rc)) k = Some (Inl rc)" "eval_then None k = None"
  by (simp_all add: eval_then_def)

lemma conjunction_value_bool: "conjunction_value lib t ct es = Some (Inr v) \<Longrightarrow> value_attr_type v = BOOLEANS"
proof (induction es)
  case (Cons e es)
  from Cons.prems obtain w where "(if ct = ConjAnd \<and> \<not> value_get_boolean w \<or> ct = ConjOr \<and> value_get_boolean w
      then Some (Inr (BoolValue (value_get_boolean w))) else conjunction_value lib t ct es) = Some (Inr v)"
    by (auto simp: Let_def elim!: eval_then_SomeE)
  with Cons.IH show ?case by (auto split: if_splits)
qed auto

lemma value_compare_copy [simp]: "value_compare lib (value_copy a) (value_copy b) = value_compare lib a b"
  by (cases a rule: value_copy.cases; cases b rule: value_copy.cases) auto

lemma compare_value_copy [simp]: "compare_value lib op (value_copy a) (value_copy b) = compare_value lib op a b"
  by (simp add: compare_value_def)

section \<open>Types\<close>

text \<open>
  A catalog gives the fields of every table.  The tuples of a query are rows of tables, or joined
  ones; the fields of its expressions are in the catalog.
\<close>

type_synonym catalog = "string \<Rightarrow> field_meta list"

definition catalog_ok :: "catalog \<Rightarrow> bool" where
  "catalog_ok cat \<longleftrightarrow> (\<forall>table. distinct (map fm_name (cat table)) \<and> (\<forall>fm \<in> set (cat table). fm_type fm \<noteq> MAXTYPE))"

fun conforms :: "catalog \<Rightarrow> tuple \<Rightarrow> bool" where
  "conforms cat (RowTuple table fms data) \<longleftrightarrow> fms = cat table"
| "conforms cat (ValueListTuple _) \<longleftrightarrow> False"
| "conforms cat (JoinedTuple l r) \<longleftrightarrow> conforms cat l \<and> conforms cat r"

fun bound :: "catalog \<Rightarrow> expr \<Rightarrow> bool" where
  "bound cat (FieldExpr table fm) \<longleftrightarrow> fm \<in> set (cat table)"
| "bound cat (ValueExpr _) \<longleftrightarrow> True"
| "bound cat (CastExpr e _) \<longleftrightarrow> bound cat e"
| "bound cat (ComparisonExpr _ l r) \<longleftrightarrow> bound cat l \<and> bound cat r"
| "bound cat (ConjunctionExpr _ es) \<longleftrightarrow> list_all (bound cat) es"
| "bound cat (ArithmeticExpr _ l r) \<longleftrightarrow> bound cat l \<and> pred_option (bound cat) r"
| "bound cat (FunctionExpr _ es) \<longleftrightarrow> list_all (bound cat) es"
| "bound cat _ \<longleftrightarrow> False"

lemma find_field_type:
  assumes "find_field (fm_name fm) fms data = Inr v" "fm \<in> set fms" "distinct (map fm_name fms)" "\<forall>f \<in> set fms. fm_type f \<noteq> MAXTYPE"
  shows "value_attr_type v = fm_type fm"
  using assms by (induction fms) (auto simp: field_cell_def set_data_type rev_image_eqI split: if_splits)

lemma find_cell_type:
  assumes "find_cell t (field_spec table (fm_name fm)) = Inr v" "conforms cat t" "fm \<in> set (cat table)" "catalog_ok cat"
  shows "value_attr_type v = fm_type fm"
  using assms
proof (induction t)
  case (RowTuple tb fms data)
  then show ?case
    by (auto simp: field_spec_def catalog_ok_def intro: find_field_type split: if_splits)
qed (auto split: sum.splits if_splits)

lemma expr_cast_type: "expr_cast ty v = Inr w \<Longrightarrow> value_attr_type w = ty"
  by (auto simp: expr_cast_def dest: value_cast_to_type split: if_splits)

lemma distance_value_type: "distance_value lib v1 v2 m = Inr w \<Longrightarrow> value_attr_type w = FLOATS"
  by (auto simp: distance_value_def Let_def split: sum.splits)

lemma string_to_vector_type: "string_to_vector_value lib v = Inr w \<Longrightarrow> value_attr_type w = VECTORS"
  unfolding string_to_vector_value_def vector_from_str_def Let_def set_vector_def
  by (simp only: split: if_split_asm sum.split_asm list.split_asm) auto

lemma vector_to_string_type: "vector_to_string_value lib v = Inr w \<Longrightarrow> value_attr_type w = CHARS"
  by (auto simp: vector_to_string_value_def set_string_def Let_def split: if_splits)

lemma calc_value_type:
  assumes "calc_value lib op (value_type (ArithmeticExpr op l (Some r))) a b = Some (Inr v)"
  shows "value_attr_type v = value_type (ArithmeticExpr op l (Some r))"
proof -
  have "value_type (ArithmeticExpr op l (Some r)) \<noteq> MAXTYPE" by simp
  with assms show ?thesis unfolding calc_value_def by (auto dest: value_arith_type)
qed

lemma get_value_type:
  assumes "catalog_ok cat" "conforms cat t"
  shows "bound cat e \<Longrightarrow> get_value lib t e = Some (Inr v) \<Longrightarrow> value_attr_type v = value_type e"
proof (induction e arbitrary: v)
  case (FieldExpr table fm)
  then show ?case using assms by (auto intro: find_cell_type)
next
  case (CastExpr e ty)
  then show ?case by (auto elim!: eval_then_SomeE dest: expr_cast_type)
next
  case (ComparisonExpr op l r)
  then show ?case by (auto elim!: eval_then_SomeE split: sum.splits)
next
  case (ConjunctionExpr ct es)
  then show ?case by (auto dest: conjunction_value_bool split: if_splits)
next
  case (ArithmeticExpr op l r)
  from ArithmeticExpr.prems(2) obtain e a b where "r = Some e" "calc_value lib op (value_type (ArithmeticExpr op l r)) a b = Some (Inr v)"
    by (auto elim!: eval_then_SomeE split: option.splits simp del: value_type.simps)
  then show ?case using calc_value_type by blast
next
  case (FunctionExpr f es)
  show ?case
  proof (cases f)
    case DISTANCE
    with FunctionExpr.prems(2) obtain v1 v2 m where "distance_value lib v1 v2 m = Inr v"
      by (auto elim!: eval_then_SomeE split: list.splits if_splits)
    then show ?thesis by (simp add: DISTANCE distance_value_type)
  next
    case VECTOR_TO_STRING
    with FunctionExpr.prems(2) obtain w where "vector_to_string_value lib w = Inr v"
      by (auto elim!: eval_then_SomeE split: list.splits)
    then show ?thesis by (simp add: VECTOR_TO_STRING vector_to_string_type)
  next
    case STRING_TO_VECTOR
    with FunctionExpr.prems(2) obtain w where "string_to_vector_value lib w = Inr v"
      by (auto elim!: eval_then_SomeE split: list.splits)
    then show ?thesis by (simp add: STRING_TO_VECTOR string_to_vector_type)
  qed
qed auto

section \<open>Constants\<close>

text \<open>Every arithmetic operation has two operands.\<close>

fun two_operands :: "expr \<Rightarrow> bool" where
  "two_operands (CastExpr e _) \<longleftrightarrow> two_operands e"
| "two_operands (ComparisonExpr _ l r) \<longleftrightarrow> two_operands l \<and> two_operands r"
| "two_operands (ConjunctionExpr _ es) \<longleftrightarrow> list_all two_operands es"
| "two_operands (ArithmeticExpr _ l r) \<longleftrightarrow> two_operands l \<and> (case r of None \<Rightarrow> False | Some e \<Rightarrow> two_operands e)"
| "two_operands (FunctionExpr _ es) \<longleftrightarrow> list_all two_operands es"
| "two_operands _ \<longleftrightarrow> True"

lemma try_values_list: "try_values lib es = Some (Inr vs) \<longleftrightarrow> list_all2 (\<lambda>e v. try_get_value lib e = Some (Inr v)) es vs"
proof (induction es arbitrary: vs)
  case (Cons e es)
  have "try_values lib (e # es) = Some (Inr vs) \<longleftrightarrow>
      (\<exists>v ws. try_get_value lib e = Some (Inr v) \<and> try_values lib es = Some (Inr ws) \<and> vs = v # ws)"
    by (cases "try_get_value lib e"; cases "the (try_get_value lib e)"; cases "try_values lib es"; cases "the (try_values lib es)") auto
  then show ?case by (auto simp: Cons.IH list_all2_Cons1)
qed auto

lemma try_get_value_sound:
  "two_operands e \<Longrightarrow> try_get_value lib e = Some (Inr v) \<Longrightarrow> get_value lib t e = Some (Inr v)"
proof (induction e arbitrary: v)
  case (CastExpr e ty)
  then show ?case by (auto elim!: eval_then_SomeE)
next
  case (ComparisonExpr op l r)
  then show ?case by (auto split: expr.splits)
next
  case (ArithmeticExpr op l r)
  then show ?case by (cases r) (auto elim!: eval_then_SomeE)
next
  case (FunctionExpr f es)
  from FunctionExpr.prems(2) obtain vs where vs: "list_all2 (\<lambda>e v. try_get_value lib e = Some (Inr v)) es vs"
    by (cases "try_values lib es"; cases "the (try_values lib es)") (auto simp: try_values_list)
  have "list_all2 (\<lambda>e v. get_value lib t e = Some (Inr v)) es vs"
    using vs FunctionExpr.IH FunctionExpr.prems(1)
    by (auto simp: list_all2_conv_all_nth list_all_length)
  moreover have "try_values lib es = Some (Inr vs)" using vs by (simp add: try_values_list)
  ultimately show ?case using FunctionExpr.prems(2)
    by (auto simp: list_all2_Cons2 list_all2_Cons1 split: func_type.splits list.splits if_splits)
qed auto

lemma negation_reads_null:
  "get_value lib t e = Some (Inr v) \<Longrightarrow> get_value lib t (ArithmeticExpr NEGATIVE e None) = None"
  by simp

section \<open>Properties\<close>

definition sample_text :: float_text where
  "sample_text = \<lparr> ft_strtof = (\<lambda>_. (0, 0, False)), ft_show = (\<lambda>_. []), ft_printf2 = (\<lambda>_. []) \<rparr>"

definition id_field :: field_meta where
  "id_field = \<lparr> fm_name = ''id'', fm_type = INTS, fm_offset = 0, fm_len = 4, fm_visible = True, fm_id = 0 \<rparr>"

definition sample_catalog :: catalog where
  "sample_catalog table = (if table = ''t'' then [id_field] else [])"

text \<open>
  C33: evaluation respects types.  On a row of the tables, or a join of rows, an expression whose
  fields are in the catalog gives a value of the type that value_type announces, whenever it
  gives a value: comparisons and conjunctions a boolean, sums of integers an integer, any other
  arithmetic a floating point number, functions the type of their result.
\<close>

theorem expr_type_sound:
  assumes "catalog_ok cat" "conforms cat t" "bound cat e" "get_value lib t e = Some (Inr v)"
  shows "value_attr_type v = value_type e"
  by (rule get_value_type [OF assms])

theorem expr_type_sound_witness:
  "get_value sample_text (RowTuple ''t'' [id_field] [5, 0, 0, 0])
      (ArithmeticExpr ADD (FieldExpr ''t'' id_field) (Some (ValueExpr (IntValue 1)))) = Some (Inr (IntValue 6)) \<and>
   value_attr_type (IntValue 6) = value_type (ArithmeticExpr ADD (FieldExpr ''t'' id_field) (Some (ValueExpr (IntValue 1))))"
proof -
  have cat: "catalog_ok sample_catalog" by (simp add: catalog_ok_def sample_catalog_def id_field_def)
  have v: "get_value sample_text (RowTuple ''t'' [id_field] [5, 0, 0, 0])
      (ArithmeticExpr ADD (FieldExpr ''t'' id_field) (Some (ValueExpr (IntValue 1)))) = Some (Inr (IntValue 6))"
    by (simp add: id_field_def field_spec_def field_cell_def calc_value_def value_arith_def integer_arith_def int_of_bytes_def)
  with expr_type_sound [OF cat _ _ v] show ?thesis by (simp add: sample_catalog_def)
qed

text \<open>
  C35: what try_get_value finds without a tuple is what get_value finds on every tuple, for
  expressions whose arithmetic operations have both operands.
\<close>

theorem constant_folding:
  assumes "two_operands e" "try_get_value lib e = Some (Inr v)"
  shows "get_value lib t e = Some (Inr v)"
  by (rule try_get_value_sound [OF assms])

theorem constant_folding_witness:
  "get_value sample_text (ValueListTuple []) (ComparisonExpr LESS_THAN (ValueExpr (IntValue 1)) (ValueExpr (IntValue 2))) =
    Some (Inr (BoolValue True))"
  by (rule constant_folding) (simp_all add: compare_value_def comp_holds_def compare_int_def)

end
