(* ===== verification/Expr_Rewrite.thy ===== *)
theory Expr_Rewrite
  imports Sql_Expr
begin

text \<open>
  Model of the rules that simplify expressions (\<^verbatim>\<open>sql/optimizer/expression_rewriter.cpp\<close>,
  \<^verbatim>\<open>comparison_simplification_rule.cpp\<close>, \<^verbatim>\<open>conjunction_simplification_rule.cpp\<close>).  The rules always report
  \<open>SUCCESS\<close>; a result is whether a change was made, and the expression.
\<close>

section \<open>The rules\<close>

definition comparison_rule :: "float_text \<Rightarrow> expr \<Rightarrow> (bool \<times> expr) option" where
  "comparison_rule lib e =
    (case e of
       ComparisonExpr op l r \<Rightarrow>
         map_option (\<lambda>res. case res of Inl rc \<Rightarrow> (False, e) | Inr v \<Rightarrow> (True, ValueExpr (value_copy v))) (try_get_value lib e)
     | _ \<Rightarrow> Some (False, e))"

definition try_to_get_bool_constant :: "expr \<Rightarrow> bool option" where
  "try_to_get_bool_constant e = (case e of ValueExpr (BoolValue b) \<Rightarrow> Some b | _ \<Rightarrow> None)"

text \<open>
  The loop over the children, with those it has kept.  A constant that does not matter is erased;
  at a constant that decides the conjunction the loop ends with the first of the children.
\<close>

fun simplify_children :: "conj_type \<Rightarrow> expr list \<Rightarrow> expr list \<Rightarrow> (expr + expr list)" where
  "simplify_children ct kept [] = Inr kept"
| "simplify_children ct kept (e # es) =
    (case try_to_get_bool_constant e of
       None \<Rightarrow> simplify_children ct (kept @ [e]) es
     | Some b \<Rightarrow> if b = (ct = ConjAnd) then simplify_children ct kept es else Inl (hd (kept @ [e])))"

definition conjunction_rule :: "expr \<Rightarrow> bool \<times> expr" where
  "conjunction_rule e =
    (case e of
       ConjunctionExpr ct es \<Rightarrow>
         (case simplify_children ct [] es of
            Inl front \<Rightarrow> (False, front)
          | Inr kept \<Rightarrow> if length kept = 1 then (True, hd kept) else (False, ConjunctionExpr ct kept))
     | _ \<Rightarrow> (False, e))"

lemma size_list_member: "x \<in> set xs \<Longrightarrow> size (x :: expr) \<le> size_list size xs"
  by (induction xs) auto

lemma simplify_children_cases:
  "case simplify_children ct kept es of
     Inl front \<Rightarrow> front \<in> set (kept @ es)
   | Inr ks \<Rightarrow> size_list size ks \<le> size_list size (kept @ es)"
proof (induction ct kept es rule: simplify_children.induct)
  case (2 ct kept e es)
  have "hd (kept @ [e]) \<in> set (kept @ e # es)" by (cases kept) auto
  moreover have "x \<in> set (kept @ es) \<Longrightarrow> x \<in> set (kept @ e # es)" "size_list size (kept @ es) \<le> size_list size (kept @ e # es)" for x
    by (simp_all add: size_list_append)
  ultimately show ?case using 2
    by (cases "try_to_get_bool_constant e"; cases "the (try_to_get_bool_constant e) = (ct = ConjAnd)")
      (simp_all add: order_trans split: sum.splits)
qed simp

lemma conjunction_rule_size: "conjunction_rule e = (c, e') \<Longrightarrow> size e' \<le> size e \<and> (c \<longrightarrow> size e' < size e)"
proof (cases e)
  case (ConjunctionExpr ct es)
  assume "conjunction_rule e = (c, e')"
  with simplify_children_cases [where ct = ct and kept = "[]" and es = es] show ?thesis
    by (auto simp: conjunction_rule_def ConjunctionExpr length_Suc_conv dest: size_list_member split: sum.splits if_splits)
qed (auto simp: conjunction_rule_def)

lemma try_comparison:
  "try_get_value lib (ComparisonExpr op l r) = Some (Inr v) \<Longrightarrow> \<exists>a b. l = ValueExpr a \<and> r = ValueExpr b"
  by (cases l; cases r) auto

lemma comparison_rule_cases:
  assumes "comparison_rule lib e = Some (c, e')"
  obtains (same) "\<not> c" "e' = e"
  | (folded) op a b v where "c" "e = ComparisonExpr op (ValueExpr a) (ValueExpr b)" "try_get_value lib e = Some (Inr v)" "e' = ValueExpr (value_copy v)"
proof (cases "\<exists>op l r. e = ComparisonExpr op l r")
  case True
  then obtain op l r where e: "e = ComparisonExpr op l r" by blast
  with assms obtain res where res: "try_get_value lib e = Some res"
    "(c, e') = (case res of Inl rc \<Rightarrow> (False, e) | Inr v \<Rightarrow> (True, ValueExpr (value_copy v)))"
    by (auto simp: comparison_rule_def simp del: try_get_value.simps)
  show thesis
  proof (cases res)
    case (Inl rc)
    with res(2) same show ?thesis by simp
  next
    case (Inr v)
    with res e try_comparison [of lib op l r v] folded show ?thesis by auto
  qed
next
  case False
  with assms same show thesis by (cases e) (auto simp: comparison_rule_def)
qed

lemma comparison_rule_size: "comparison_rule lib e = Some (c, e') \<Longrightarrow> size e' \<le> size e \<and> (c \<longrightarrow> size e' < size e)"
  by (erule comparison_rule_cases) auto

text \<open>One pass over an expression.  Below a change nothing is looked at.\<close>

function rewrite_expression :: "float_text \<Rightarrow> expr \<Rightarrow> (bool \<times> expr) option"
  and rewrite_children :: "float_text \<Rightarrow> expr list \<Rightarrow> (bool \<times> expr list) option" where
  "rewrite_expression lib e =
    Option.bind (comparison_rule lib e) (\<lambda>(c1, e1).
      case conjunction_rule e1 of
        (c2, e2) \<Rightarrow>
          if c1 \<or> c2 then Some (True, e2)
          else
            case e2 of
              CastExpr child t \<Rightarrow> map_option (\<lambda>(c, x). (c, CastExpr x t)) (rewrite_expression lib child)
            | ComparisonExpr op l r \<Rightarrow>
                Option.bind (rewrite_expression lib l) (\<lambda>(cl, l').
                  Option.bind (rewrite_expression lib r) (\<lambda>(cr, r'). Some (cl \<or> cr, ComparisonExpr op l' r')))
            | ConjunctionExpr ct es \<Rightarrow> map_option (\<lambda>(c, xs). (c, ConjunctionExpr ct xs)) (rewrite_children lib es)
            | FunctionExpr f es \<Rightarrow> map_option (\<lambda>(c, xs). (c, FunctionExpr f xs)) (rewrite_children lib es)
            | _ \<Rightarrow> Some (False, e2))"
| "rewrite_children lib [] = Some (False, [])"
| "rewrite_children lib (e # es) =
    Option.bind (rewrite_expression lib e) (\<lambda>(c, x).
      map_option (\<lambda>(c', xs). (c \<or> c', x # xs)) (rewrite_children lib es))"
  by pat_completeness auto
termination
proof (relation "measure (\<lambda>a. case a of Inl (lib, e) \<Rightarrow> 2 * size e | Inr (lib, es) \<Rightarrow> Suc (2 * size_list size es))")
qed (auto dest!: comparison_rule_size conjunction_rule_size [OF sym])

declare rewrite_expression.simps [simp del]

text \<open>The descent, after the rules have left the expression alone.\<close>

fun rewrite_below :: "float_text \<Rightarrow> expr \<Rightarrow> (bool \<times> expr) option" where
  "rewrite_below lib (CastExpr child t) = map_option (\<lambda>(c, x). (c, CastExpr x t)) (rewrite_expression lib child)"
| "rewrite_below lib (ComparisonExpr op l r) =
    Option.bind (rewrite_expression lib l) (\<lambda>(cl, l').
      Option.bind (rewrite_expression lib r) (\<lambda>(cr, r'). Some (cl \<or> cr, ComparisonExpr op l' r')))"
| "rewrite_below lib (ConjunctionExpr ct es) = map_option (\<lambda>(c, xs). (c, ConjunctionExpr ct xs)) (rewrite_children lib es)"
| "rewrite_below lib (FunctionExpr f es) = map_option (\<lambda>(c, xs). (c, FunctionExpr f xs)) (rewrite_children lib es)"
| "rewrite_below lib e = Some (False, e)"

lemma rewrite_expression_rules:
  assumes "comparison_rule lib e = Some (c1, e1)" "conjunction_rule e1 = (c2, e2)"
  shows "rewrite_expression lib e = (if c1 \<or> c2 then Some (True, e2) else rewrite_below lib e2)"
  by (subst rewrite_expression.simps) (cases e2; simp add: assms)

lemma rewrite_expression_rulesE:
  assumes "rewrite_expression lib e = Some r"
  obtains c1 e1 where "comparison_rule lib e = Some (c1, e1)"
  using assms by (subst (asm) rewrite_expression.simps) (auto simp: bind_eq_Some_conv)

section \<open>Expressions without conjunctions\<close>

text \<open>No conjunction where the rewriter looks: it enters casts, comparisons and functions.\<close>

fun plain :: "expr \<Rightarrow> bool" where
  "plain (CastExpr e _) \<longleftrightarrow> plain e"
| "plain (ComparisonExpr _ l r) \<longleftrightarrow> plain l \<and> plain r"
| "plain (ConjunctionExpr _ _) \<longleftrightarrow> False"
| "plain (FunctionExpr _ es) \<longleftrightarrow> list_all plain es"
| "plain _ \<longleftrightarrow> True"

definition same_value :: "float_text \<Rightarrow> expr \<Rightarrow> expr \<Rightarrow> bool" where
  "same_value lib e e' \<longleftrightarrow> (\<forall>t. get_value lib t e' = get_value lib t e)"

lemma same_value_refl [simp]: "same_value lib e e"
  by (simp add: same_value_def)

lemma same_value_function:
  assumes "list_all2 (same_value lib) es es'"
  shows "same_value lib (FunctionExpr f es) (FunctionExpr f es')"
proof -
  have "length es' = length es" using assms by (simp add: list_all2_lengthD)
  with assms show ?thesis unfolding same_value_def
    by (auto simp: list_all2_Cons1 list_all2_Cons2 cong: if_cong split: func_type.split list.split)
qed

lemma folded_same:
  assumes "try_get_value lib (ComparisonExpr op (ValueExpr a) (ValueExpr b)) = Some (Inr v)"
  shows "same_value lib (ComparisonExpr op (ValueExpr a) (ValueExpr b)) (ValueExpr (value_copy v))"
  using assms unfolding same_value_def
  by (cases "compare_value lib op a b"; cases "the (compare_value lib op a b)") auto

lemma conjunction_rule_other: "(\<And>ct es. e \<noteq> ConjunctionExpr ct es) \<Longrightarrow> conjunction_rule e = (False, e)"
  by (cases e) (auto simp: conjunction_rule_def)

lemma plain_not_conjunction: "plain e \<Longrightarrow> conjunction_rule e = (False, e)"
  by (rule conjunction_rule_other) auto

lemma plain_rewrite:
  "plain e \<Longrightarrow> rewrite_expression lib e = Some (c, e') \<Longrightarrow> plain e' \<and> same_value lib e e'"
  "list_all plain es \<Longrightarrow> rewrite_children lib es = Some (d, es') \<Longrightarrow> list_all plain es' \<and> list_all2 (same_value lib) es es'"
proof (induction lib e and lib es arbitrary: c e' and d es' rule: rewrite_expression_rewrite_children.induct)
  case (1 lib e)
  from "1.prems"(2) obtain c1 e1 where r: "comparison_rule lib e = Some (c1, e1)" by (rule rewrite_expression_rulesE)
  then show ?case
  proof (cases rule: comparison_rule_cases)
    case (folded op a b v)
    have cr: "conjunction_rule e1 = (False, e1)" by (rule conjunction_rule_other) (simp add: folded)
    with "1.prems"(2) folded(1) have "e' = e1" by (simp add: rewrite_expression_rules [OF r cr])
    with folded folded_same show ?thesis by auto
  next
    case same
    have cr: "conjunction_rule e1 = (False, e1)" using plain_not_conjunction [OF "1.prems"(1)] same by simp
    note IH = "1.IH" [OF r refl cr [symmetric]]
    have run: "rewrite_below lib e = Some (c, e')" using "1.prems"(2) same by (simp add: rewrite_expression_rules [OF r cr])
    show ?thesis
    proof (cases e)
      case (CastExpr x ty)
      with run obtain x' where x: "rewrite_expression lib x = Some (c, x')" "e' = CastExpr x' ty" by auto
      with IH(1) [of x ty] "1.prems"(1) same CastExpr show ?thesis by (auto simp: same_value_def)
    next
      case (ComparisonExpr op l r')
      with run obtain cl l2 cr2 r2 where x: "rewrite_expression lib l = Some (cl, l2)" "rewrite_expression lib r' = Some (cr2, r2)"
        "e' = ComparisonExpr op l2 r2" by (auto simp: bind_eq_Some_conv)
      have "plain l2 \<and> same_value lib l l2"
        by (rule IH(2) [OF _ _ _ x(1)]) (use "1.prems"(1) same ComparisonExpr in simp_all)
      moreover have "plain r2 \<and> same_value lib r' r2"
        by (rule IH(3) [OF _ _ x(1) refl _ x(2)]) (use "1.prems"(1) same ComparisonExpr in simp_all)
      ultimately show ?thesis using x(3) ComparisonExpr by (simp add: same_value_def)
    next
      case (FunctionExpr f es)
      with run obtain es2 where x: "rewrite_children lib es = Some (c, es2)" "e' = FunctionExpr f es2" by auto
      with IH(5) [of f es] "1.prems"(1) same FunctionExpr show ?thesis by (auto intro: same_value_function)
    qed (use "1.prems"(1) run in auto)
  qed
next
  case (3 lib e es)
  from "3.prems"(2) obtain c1 x c2 xs where "rewrite_expression lib e = Some (c1, x)" "rewrite_children lib es = Some (c2, xs)" "es' = x # xs"
    by (auto simp: bind_eq_Some_conv)
  with 3 show ?case by auto
qed simp

section \<open>Conditions\<close>

text \<open>
  A condition is a conjunction (\<^verbatim>\<open>AND\<close>) of conditions, or an expression without conjunctions: its atoms.
  It is live when no atom is false on every tuple.
\<close>

fun condition :: "expr \<Rightarrow> bool" where
  "condition (ConjunctionExpr ct es) \<longleftrightarrow> ct = ConjAnd \<and> list_all condition es"
| "condition e \<longleftrightarrow> plain e"

fun atoms :: "expr \<Rightarrow> expr list" where
  "atoms (ConjunctionExpr ct es) = concat (map atoms es)"
| "atoms e = [e]"

definition live :: "float_text \<Rightarrow> expr \<Rightarrow> bool" where
  "live lib e \<longleftrightarrow> (\<forall>a \<in> set (atoms e). \<exists>t. get_value lib t a \<noteq> Some (Inr (BoolValue False)))"

text \<open>What a filter asks for: the code, or whether the value counts as true.\<close>

definition truth :: "float_text \<Rightarrow> tuple \<Rightarrow> expr \<Rightarrow> (RC + bool) option" where
  "truth lib t e = map_option (map_sum id value_get_boolean) (get_value lib t e)"

fun all_true :: "(RC + bool) option list \<Rightarrow> (RC + bool) option" where
  "all_true [] = Some (Inr True)"
| "all_true (x # xs) = (if x = Some (Inr True) then all_true xs else x)"

definition same_truth :: "float_text \<Rightarrow> expr \<Rightarrow> expr \<Rightarrow> bool" where
  "same_truth lib e e' \<longleftrightarrow> (\<forall>t. truth lib t e' = truth lib t e)"

lemma truth_conjunction: "truth lib t (ConjunctionExpr ConjAnd es) = all_true (map (truth lib t) es)"
proof -
  have "map_option (map_sum id value_get_boolean) (conjunction_value lib t ConjAnd es) = all_true (map (truth lib t) es)" for es
  proof (induction es)
    case (Cons e es)
    show ?case
    proof (cases "get_value lib t e")
      case (Some r)
      with Cons show ?thesis by (cases r) (auto simp: truth_def Let_def)
    qed (simp add: truth_def)
  qed simp
  then show ?thesis by (simp add: truth_def)
qed

lemma all_true_append: "all_true (xs @ ys) = (if all_true xs = Some (Inr True) then all_true ys else all_true xs)"
  by (induction xs) auto

lemma plain_condition: "plain e \<Longrightarrow> condition e \<and> atoms e = [e]"
  by (cases e) auto

lemma simplify_children_live:
  assumes "\<And>e. e \<in> set es \<Longrightarrow> e \<noteq> ValueExpr (BoolValue False)"
  shows "simplify_children ConjAnd kept es = Inr (kept @ filter (\<lambda>e. e \<noteq> ValueExpr (BoolValue True)) es)"
  using assms
proof (induction es arbitrary: kept)
  case (Cons e es)
  have "try_to_get_bool_constant e = (if e = ValueExpr (BoolValue True) then Some True else None)"
    using Cons.prems [of e] by (auto simp: try_to_get_bool_constant_def split: expr.splits Value.splits)
  with Cons show ?case by simp
qed simp

lemma all_true_filter:
  "all_true (map (truth lib t) (filter (\<lambda>e. e \<noteq> ValueExpr (BoolValue True)) es)) = all_true (map (truth lib t) es)"
  by (induction es) (auto simp: truth_def)

lemma conjunction_rule_sound:
  assumes "condition e" "live lib e" "conjunction_rule e = (c, e')"
  shows "condition e' \<and> live lib e' \<and> same_truth lib e e' \<and>
    (\<not> plain e \<longrightarrow> \<not> c \<longrightarrow> (\<exists>ks. e' = ConjunctionExpr ConjAnd ks))"
proof (cases e)
  case (ConjunctionExpr ct es)
  let ?ks = "filter (\<lambda>e. e \<noteq> ValueExpr (BoolValue True)) es"
  have ct: "ct = ConjAnd" using assms(1) ConjunctionExpr by simp
  have "x \<noteq> ValueExpr (BoolValue False)" if "x \<in> set es" for x
    using that assms(2) by (force simp: ConjunctionExpr live_def)
  then have ks: "simplify_children ct [] es = Inr ?ks" unfolding ct by (simp add: simplify_children_live)
  have sub: "condition k" "live lib k" if "k \<in> set ?ks" for k
    using that assms(1,2) by (auto simp: ConjunctionExpr list_all_iff live_def)
  have same: "truth lib t (ConjunctionExpr ct ?ks) = truth lib t e" for t
    by (simp add: ConjunctionExpr ct truth_conjunction all_true_filter)
  show ?thesis
  proof (cases "length ?ks = 1")
    case True
    then obtain k where k: "?ks = [k]" by (auto simp: length_Suc_conv)
    have "truth lib t k = truth lib t e" for t
      using same [of t] unfolding k ct truth_conjunction by (auto split: if_splits)
    with assms(3) ks sub [of k] k show ?thesis
      by (auto simp: conjunction_rule_def ConjunctionExpr same_truth_def)
  next
    case False
    have "condition (ConjunctionExpr ct ?ks)" "live lib (ConjunctionExpr ct ?ks)"
      using sub ct by (auto simp: list_all_iff live_def)
    with False assms(3) ks same show ?thesis by (auto simp: conjunction_rule_def ConjunctionExpr same_truth_def)
  qed
qed (use assms in \<open>auto simp: conjunction_rule_def same_truth_def\<close>)

lemma plain_rewrite_condition:
  assumes "plain e" "live lib e" "rewrite_expression lib e = Some (c, e')"
  shows "condition e' \<and> live lib e' \<and> same_truth lib e e'"
proof -
  have e': "plain e'" "same_value lib e e'" using plain_rewrite(1) [OF assms(1,3)] by auto
  with plain_condition [OF e'(1)] plain_condition [OF assms(1)] assms(2) show ?thesis
    by (simp add: live_def same_truth_def truth_def same_value_def)
qed

lemma rewrite_condition:
  "condition e \<Longrightarrow> live lib e \<Longrightarrow> rewrite_expression lib e = Some (c, e') \<Longrightarrow> condition e' \<and> live lib e' \<and> same_truth lib e e'"
  "list_all condition es \<Longrightarrow> list_all (live lib) es \<Longrightarrow> rewrite_children lib es = Some (d, es') \<Longrightarrow>
    list_all condition es' \<and> list_all (live lib) es' \<and> list_all2 (same_truth lib) es es'"
proof (induction lib e and lib es arbitrary: c e' and d es' rule: rewrite_expression_rewrite_children.induct)
  case (1 lib e)
  show ?case
  proof (cases "plain e")
    case True
    with "1.prems" show ?thesis by (intro plain_rewrite_condition) auto
  next
    case False
    with "1.prems"(1) obtain es where e: "e = ConjunctionExpr ConjAnd es" by (cases e) auto
    have r: "comparison_rule lib e = Some (False, e)" by (simp add: comparison_rule_def e)
    obtain c2 e2 where cr: "conjunction_rule e = (c2, e2)" by fastforce
    note sound = conjunction_rule_sound [OF "1.prems"(1,2) cr]
    show ?thesis
    proof (cases c2)
      case True
      with "1.prems"(3) sound show ?thesis by (simp add: rewrite_expression_rules [OF r cr])
    next
      case no: False
      with sound False obtain ks where ks: "e2 = ConjunctionExpr ConjAnd ks" by auto
      with "1.prems"(3) no obtain ks' where ks': "rewrite_children lib ks = Some (c, ks')" "e' = ConjunctionExpr ConjAnd ks'"
        by (auto simp: rewrite_expression_rules [OF r cr])
      have "list_all condition ks" "list_all (live lib) ks" using sound by (auto simp: ks live_def list_all_iff)
      then have "list_all condition ks' \<and> list_all (live lib) ks' \<and> list_all2 (same_truth lib) ks ks'"
        by (intro "1.IH"(4) [OF r refl cr [symmetric] _ ks _ _ ks'(1)]) (use no in simp_all)
      moreover from this have "map (truth lib t) ks' = map (truth lib t) ks" for t
        by (intro nth_equalityI) (auto simp: list_all2_conv_all_nth same_truth_def)
      ultimately show ?thesis using sound ks'(2)
        by (auto simp: ks same_truth_def truth_conjunction live_def list_all_iff)
    qed
  qed
next
  case (3 lib e es)
  from "3.prems"(3) obtain c1 x c2 xs where "rewrite_expression lib e = Some (c1, x)" "rewrite_children lib es = Some (c2, xs)" "es' = x # xs"
    by (auto simp: bind_eq_Some_conv)
  with 3 show ?case by auto
qed simp

section \<open>Sizes\<close>

lemma rewrite_size:
  "rewrite_expression lib e = Some (c, e') \<Longrightarrow> size e' \<le> size e \<and> (c \<longrightarrow> size e' < size e)"
  "rewrite_children lib es = Some (d, es') \<Longrightarrow> size_list size es' \<le> size_list size es \<and> (d \<longrightarrow> size_list size es' < size_list size es)"
proof (induction lib e and lib es arbitrary: c e' and d es' rule: rewrite_expression_rewrite_children.induct)
  case (1 lib e)
  from "1.prems" obtain c1 e1 where r: "comparison_rule lib e = Some (c1, e1)" by (rule rewrite_expression_rulesE)
  obtain c2 e2 where cr: "conjunction_rule e1 = (c2, e2)" by fastforce
  note sizes = comparison_rule_size [OF r] conjunction_rule_size [OF cr]
  show ?case
  proof (cases "c1 \<or> c2")
    case True
    with "1.prems" have "e' = e2" by (simp add: rewrite_expression_rules [OF r cr])
    with sizes True show ?thesis by auto
  next
    case False
    note IH = "1.IH" [OF r refl cr [symmetric] False]
    have run: "rewrite_below lib e2 = Some (c, e')" using "1.prems" False by (simp add: rewrite_expression_rules [OF r cr])
    have "size e' \<le> size e2 \<and> (c \<longrightarrow> size e' < size e2)"
    proof (cases e2)
      case (CastExpr x ty)
      with run IH(1) [OF CastExpr] show ?thesis by fastforce
    next
      case (ComparisonExpr op l r')
      with run obtain cl l2 cr2 r2 where x: "rewrite_expression lib l = Some (cl, l2)" "rewrite_expression lib r' = Some (cr2, r2)"
        "e' = ComparisonExpr op l2 r2" "c = (cl \<or> cr2)" by (auto simp: bind_eq_Some_conv)
      from IH(2) [OF ComparisonExpr x(1)] IH(3) [OF ComparisonExpr x(1) refl x(2)] x(3,4) show ?thesis
        by (auto simp: ComparisonExpr)
    next
      case (ConjunctionExpr ct es)
      with run IH(4) [OF ConjunctionExpr] show ?thesis by fastforce
    next
      case (FunctionExpr f es)
      with run IH(5) [OF FunctionExpr] show ?thesis by fastforce
    qed (use run in auto)
    with sizes show ?thesis by auto
  qed
next
  case (3 lib e es)
  from "3.prems" obtain c1 x c2 xs where "rewrite_expression lib e = Some (c1, x)" "rewrite_children lib es = Some (c2, xs)" "es' = x # xs"
    "d = (c1 \<or> c2)" by (auto simp: bind_eq_Some_conv)
  with 3 show ?case by fastforce
qed simp

section \<open>Properties\<close>

text \<open>
  C36: a condition that is constantly false is lost when another condition stands before it.  For
  \<open>c AND a = b\<close> with constants that are not equal, one pass folds the comparison, and the next one
  takes the first child \<open>c\<close> for the whole conjunction instead of the false constant; the
  conjunction is false wherever \<open>c\<close> is true.
\<close>

theorem constant_false_dropped:
  assumes "plain c" "try_to_get_bool_constant c = None" "rewrite_expression lib c = Some (False, c)"
    "compare_value lib op a b = Some (Inr False)" "truth lib t c = Some (Inr True)"
  shows "\<exists>e1. rewrite_expression lib (ConjunctionExpr ConjAnd [c, ComparisonExpr op (ValueExpr a) (ValueExpr b)]) = Some (True, e1) \<and>
    rewrite_expression lib e1 = Some (False, c) \<and>
    truth lib t (ConjunctionExpr ConjAnd [c, ComparisonExpr op (ValueExpr a) (ValueExpr b)]) = Some (Inr False)"
proof -
  let ?f = "ComparisonExpr op (ValueExpr a) (ValueExpr b)" and ?v = "ValueExpr (BoolValue False)"
  have rule: "comparison_rule lib (ConjunctionExpr ConjAnd es) = Some (False, ConjunctionExpr ConjAnd es)" for es
    by (simp add: comparison_rule_def)
  have cv: "conjunction_rule ?v = (False, ?v)" by (simp add: conjunction_rule_def)
  have "comparison_rule lib ?f = Some (True, ?v)" using assms(4) by (simp add: comparison_rule_def)
  from rewrite_expression_rules [OF this cv] have fold: "rewrite_expression lib ?f = Some (True, ?v)" by simp
  have "conjunction_rule (ConjunctionExpr ConjAnd [c, ?f]) = (False, ConjunctionExpr ConjAnd [c, ?f])"
    using assms(2) by (simp add: conjunction_rule_def) (simp add: try_to_get_bool_constant_def)
  from rewrite_expression_rules [OF rule this] have first: "rewrite_expression lib (ConjunctionExpr ConjAnd [c, ?f]) = Some (True, ConjunctionExpr ConjAnd [c, ?v])"
    by (simp add: assms(3) fold)
  obtain c1 e1 where r: "comparison_rule lib c = Some (c1, e1)" using rewrite_expression_rulesE [OF assms(3)] .
  have "rewrite_below lib c = Some (False, c)"
  proof (rule comparison_rule_cases [OF r])
    assume "\<not> c1" "e1 = c"
    with assms(3) rewrite_expression_rules [OF r, of False c] plain_not_conjunction [OF assms(1)] show ?thesis by simp
  next
    fix op' a' b' v
    assume "c1" "e1 = ValueExpr (value_copy v)"
    with assms(3) rewrite_expression_rules [OF r conjunction_rule_other [of e1]] show ?thesis by simp
  qed
  moreover have "conjunction_rule (ConjunctionExpr ConjAnd [c, ?v]) = (False, c)"
    using assms(2) by (simp add: conjunction_rule_def) (simp add: try_to_get_bool_constant_def)
  from rewrite_expression_rules [OF rule this]
  have "rewrite_expression lib (ConjunctionExpr ConjAnd [c, ?v]) = rewrite_below lib c" by simp
  ultimately have "rewrite_expression lib (ConjunctionExpr ConjAnd [c, ?v]) = Some (False, c)" by simp
  with first assms(4,5) show ?thesis by (simp add: truth_conjunction) (simp add: truth_def)
qed

theorem constant_false_dropped_witness:
  "\<exists>e1. rewrite_expression sample_text (ConjunctionExpr ConjAnd [ComparisonExpr EQUAL_TO (FieldExpr ''t'' id_field) (ValueExpr (IntValue 5)),
      ComparisonExpr EQUAL_TO (ValueExpr (IntValue 1)) (ValueExpr (IntValue 2))]) = Some (True, e1) \<and>
    rewrite_expression sample_text e1 = Some (False, ComparisonExpr EQUAL_TO (FieldExpr ''t'' id_field) (ValueExpr (IntValue 5))) \<and>
    truth sample_text (RowTuple ''t'' [id_field] [5, 0, 0, 0]) (ConjunctionExpr ConjAnd
      [ComparisonExpr EQUAL_TO (FieldExpr ''t'' id_field) (ValueExpr (IntValue 5)),
       ComparisonExpr EQUAL_TO (ValueExpr (IntValue 1)) (ValueExpr (IntValue 2))]) = Some (Inr False)"
proof (rule constant_false_dropped)
  let ?c = "ComparisonExpr EQUAL_TO (FieldExpr ''t'' id_field) (ValueExpr (IntValue 5))"
  show "plain ?c" "try_to_get_bool_constant ?c = None" by (simp_all add: try_to_get_bool_constant_def)
  have atom: "rewrite_expression sample_text e = Some (False, e)" if "e = FieldExpr ''t'' id_field \<or> e = ValueExpr (IntValue 5)" for e
    by (subst rewrite_expression_rules [of sample_text e False e False e])
      (use that in \<open>auto simp: comparison_rule_def conjunction_rule_def\<close>)
  show "rewrite_expression sample_text ?c = Some (False, ?c)"
    by (subst rewrite_expression_rules [of sample_text ?c False ?c False ?c])
      (simp_all add: comparison_rule_def conjunction_rule_def atom)
  show "compare_value sample_text EQUAL_TO (IntValue 1) (IntValue 2) = Some (Inr False)"
    by (simp add: compare_value_def comp_holds_def compare_int_def)
  show "truth sample_text (RowTuple ''t'' [id_field] [5, 0, 0, 0]) ?c = Some (Inr True)"
    by (simp add: truth_def id_field_def field_spec_def field_cell_def compare_value_def comp_holds_def compare_int_def int_of_bytes_def)
qed

end
