(* ===== verification/Sql_Plan.thy ===== *)
theory Sql_Plan
  imports Expr_Rewrite
begin

text \<open>
  Model of logical plans (\<^verbatim>\<open>sql/operator/logical_operator.h\<close>) and of the rules that rewrite them
  (\<^verbatim>\<open>sql/optimizer/rewriter.cpp\<close> with \<^verbatim>\<open>expression_rewriter.cpp\<close>, \<^verbatim>\<open>predicate_rewrite.cpp\<close> and
  \<^verbatim>\<open>predicate_pushdown_rewriter.cpp\<close>; the loop of \<^verbatim>\<open>optimize_stage.cpp\<close>).
\<close>

section \<open>Logical operators\<close>

datatype lop_type
  = CALC
  | TABLE_GET string ReadWriteMode "expr list"
  | PREDICATE
  | PROJECTION
  | JOIN
  | INSERT string "Value list"
  | DELETE string
  | EXPLAIN
  | GROUP_BY "expr list" "expr list"
  | ORDER_BY "bool list"
  | LIMIT int
  | VECTOR_INDEX_SCAN

datatype lop = LOp lop_type (lop_expressions: "expr list") (lop_children: "lop list")

section \<open>The rules\<close>

fun expression_rewriter :: "float_text \<Rightarrow> lop \<Rightarrow> (bool \<times> lop) option"
  and expression_rewriters :: "float_text \<Rightarrow> lop list \<Rightarrow> (bool \<times> lop list) option" where
  "expression_rewriter lib (LOp k es cs) =
    Option.bind (rewrite_children lib es) (\<lambda>(c, es').
      map_option (\<lambda>(c', cs'). (c \<or> c', LOp k es' cs')) (expression_rewriters lib cs))"
| "expression_rewriters lib [] = Some (False, [])"
| "expression_rewriters lib (x # xs) =
    Option.bind (expression_rewriter lib x) (\<lambda>(c, x').
      map_option (\<lambda>(c', xs'). (c \<or> c', x' # xs')) (expression_rewriters lib xs))"

definition predicate_rewrite :: "lop \<Rightarrow> bool \<times> lop" where
  "predicate_rewrite p =
    (case p of
       LOp k es [LOp PREDICATE [ValueExpr v] grand_children] \<Rightarrow>
         (True, LOp k es (if value_get_boolean v then grand_children else []))
     | _ \<Rightarrow> (False, p))"

text \<open>
  \<^verbatim>\<open>get_exprs_can_pushdown\<close>: what is left of the expression (nothing, when it was moved) and the
  expressions that are pushed down.  After an error the plan is dropped.
\<close>

fun get_exprs_can_pushdown :: "expr \<Rightarrow> RC + expr option \<times> expr list"
  and pushdown_children :: "expr list \<Rightarrow> RC + expr list \<times> expr list" where
  "get_exprs_can_pushdown (ConjunctionExpr ct es) =
    (if ct = ConjOr then Inl UNIMPLEMENTED
     else case pushdown_children es of
            Inl rc \<Rightarrow> Inl rc
          | Inr (es', ps) \<Rightarrow> Inr (Some (ConjunctionExpr ct es'), ps))"
| "get_exprs_can_pushdown (ComparisonExpr op l r) = Inr (None, [ComparisonExpr op l r])"
| "get_exprs_can_pushdown e = Inr (Some e, [])"
| "pushdown_children [] = Inr ([], [])"
| "pushdown_children (e # es) =
    (case get_exprs_can_pushdown e of
       Inl rc \<Rightarrow> Inl rc
     | Inr (rest, ps) \<Rightarrow>
         (case pushdown_children es of
            Inl rc \<Rightarrow> Inl rc
          | Inr (es', ps') \<Rightarrow> Inr ((case rest of None \<Rightarrow> es' | Some x \<Rightarrow> x # es'), ps @ ps')))"

definition is_empty_predicate :: "expr option \<Rightarrow> bool" where
  "is_empty_predicate e = (case e of None \<Rightarrow> True | Some (ConjunctionExpr _ []) \<Rightarrow> True | _ \<Rightarrow> False)"

definition predicate_pushdown :: "lop \<Rightarrow> RC + bool \<times> lop" where
  "predicate_pushdown p =
    (case p of
       LOp PREDICATE [e] [LOp (TABLE_GET table mode preds) tes tcs] \<Rightarrow>
         (case get_exprs_can_pushdown e of
            Inl rc \<Rightarrow> Inl rc
          | Inr (rest, ps) \<Rightarrow>
              let e' = (if is_empty_predicate rest then ValueExpr (BoolValue True) else the rest);
                  preds' = (if ps \<noteq> [] then ps else preds)
              in Inr (ps \<noteq> [], LOp PREDICATE [e'] [LOp (TABLE_GET table mode preds') tes tcs]))
     | _ \<Rightarrow> Inr (False, p))"

definition rewrite_rules :: "float_text \<Rightarrow> lop \<Rightarrow> (RC + bool \<times> lop) option" where
  "rewrite_rules lib p =
    map_option (\<lambda>(c1, p1).
      case predicate_rewrite p1 of
        (c2, p2) \<Rightarrow>
          (case predicate_pushdown p2 of
             Inl rc \<Rightarrow> Inl rc
           | Inr (c3, p3) \<Rightarrow> Inr (c1 \<or> c2 \<or> c3, p3)))
      (expression_rewriter lib p)"

section \<open>Weight\<close>

text \<open>
  The number of operators and the sizes of their expressions, the pushed ones apart: every change
  makes it smaller.
\<close>

fun weight :: "lop \<Rightarrow> nat" where
  "weight (LOp k es cs) = Suc (size_list size es + sum_list (map weight cs))"

lemma expression_rewriter_weight:
  "expression_rewriter lib p = Some (c, p') \<Longrightarrow> weight p' \<le> weight p \<and> (c \<longrightarrow> weight p' < weight p)"
  "expression_rewriters lib ps = Some (d, ps') \<Longrightarrow>
    sum_list (map weight ps') \<le> sum_list (map weight ps) \<and> (d \<longrightarrow> sum_list (map weight ps') < sum_list (map weight ps))"
proof (induction lib p and lib ps arbitrary: c p' and d ps' rule: expression_rewriter_expression_rewriters.induct)
  case (1 lib k es cs)
  from "1.prems" obtain c1 es' c2 cs' where "rewrite_children lib es = Some (c1, es')" "expression_rewriters lib cs = Some (c2, cs')"
    "p' = LOp k es' cs'" "c = (c1 \<or> c2)" by (auto simp: bind_eq_Some_conv)
  with 1 rewrite_size(2) [of lib es c1 es'] show ?case by fastforce
next
  case (3 lib x xs)
  from "3.prems" obtain c1 x' c2 xs' where "expression_rewriter lib x = Some (c1, x')" "expression_rewriters lib xs = Some (c2, xs')"
    "ps' = x' # xs'" "d = (c1 \<or> c2)" by (auto simp: bind_eq_Some_conv)
  with 3 show ?case by fastforce
qed simp

lemma predicate_rewrite_weight: "predicate_rewrite p = (c, p') \<Longrightarrow> weight p' \<le> weight p \<and> (c \<longrightarrow> weight p' < weight p)"
  by (auto simp: predicate_rewrite_def split: lop.splits list.splits lop_type.splits expr.splits if_splits)

lemma pushdown_size:
  "get_exprs_can_pushdown e = Inr (rest, ps) \<Longrightarrow>
    (case rest of None \<Rightarrow> 0 < size e | Some x \<Rightarrow> size x \<le> size e \<and> (ps \<noteq> [] \<longrightarrow> size x < size e))"
  "pushdown_children es = Inr (es', ps') \<Longrightarrow>
    size_list size es' \<le> size_list size es \<and> (ps' \<noteq> [] \<longrightarrow> size_list size es' < size_list size es)"
proof (induction e and es arbitrary: rest ps and es' ps' rule: get_exprs_can_pushdown_pushdown_children.induct)
  case (1 ct es)
  then show ?case by (fastforce split: if_splits sum.splits prod.splits)
next
  case (5 e es)
  from "5.prems" obtain rest1 ps1 es2 ps2 where e: "get_exprs_can_pushdown e = Inr (rest1, ps1)"
    "pushdown_children es = Inr (es2, ps2)" "es' = (case rest1 of None \<Rightarrow> es2 | Some x \<Rightarrow> x # es2)" "ps' = ps1 @ ps2"
    by (auto split: sum.splits prod.splits)
  with 5 show ?case by (cases rest1) fastforce+
qed auto

lemma predicate_pushdown_weight:
  assumes "predicate_pushdown p = Inr (c, p')"
  shows "weight p' \<le> weight p \<and> (c \<longrightarrow> weight p' < weight p)"
proof (cases "predicate_pushdown p = Inr (False, p)")
  case False
  then obtain e table mode preds tes tcs where p: "p = LOp PREDICATE [e] [LOp (TABLE_GET table mode preds) tes tcs]"
    by (auto simp: predicate_pushdown_def split: lop.splits list.splits lop_type.splits)
  with assms obtain rest ps where g: "get_exprs_can_pushdown e = Inr (rest, ps)" "c = (ps \<noteq> [])"
    "p' = LOp PREDICATE [if is_empty_predicate rest then ValueExpr (BoolValue True) else the rest]
            [LOp (TABLE_GET table mode (if ps \<noteq> [] then ps else preds)) tes tcs]"
    by (auto simp: predicate_pushdown_def Let_def split: sum.splits)
  with pushdown_size(1) [of e rest ps] p show ?thesis by (cases rest) (auto simp: is_empty_predicate_def)
qed (use assms in auto)

lemma rewrite_rules_weight:
  assumes "rewrite_rules lib p = Some (Inr (c, p'))"
  shows "weight p' \<le> weight p \<and> (c \<longrightarrow> weight p' < weight p)"
proof -
  from assms obtain c1 p1 where e: "expression_rewriter lib p = Some (c1, p1)" by (auto simp: rewrite_rules_def)
  obtain c2 p2 where r: "predicate_rewrite p1 = (c2, p2)" by fastforce
  from assms e r obtain c3 where "predicate_pushdown p2 = Inr (c3, p')" "c = (c1 \<or> c2 \<or> c3)"
    by (auto simp: rewrite_rules_def split: sum.splits)
  with e r expression_rewriter_weight(1) predicate_rewrite_weight predicate_pushdown_weight show ?thesis by fastforce
qed

section \<open>The rewriter\<close>

lemma weight_positive [simp]: "0 < weight p"
  by (cases p) simp

text \<open>The rules at an operator, one after the other, and then at each child of the result.\<close>

function rewriter :: "float_text \<Rightarrow> lop \<Rightarrow> (RC + bool \<times> lop) option"
  and rewriters :: "float_text \<Rightarrow> lop list \<Rightarrow> (RC + bool \<times> lop list) option" where
  "rewriter lib p =
    (case rewrite_rules lib p of
       None \<Rightarrow> None
     | Some (Inl rc) \<Rightarrow> Some (Inl rc)
     | Some (Inr (c, LOp k es cs)) \<Rightarrow>
         (case rewriters lib cs of
            None \<Rightarrow> None
          | Some (Inl rc) \<Rightarrow> Some (Inl rc)
          | Some (Inr (c', cs')) \<Rightarrow> Some (Inr (c \<or> c', LOp k es cs'))))"
| "rewriters lib [] = Some (Inr (False, []))"
| "rewriters lib (x # xs) =
    (case rewriter lib x of
       None \<Rightarrow> None
     | Some (Inl rc) \<Rightarrow> Some (Inl rc)
     | Some (Inr (c, x')) \<Rightarrow>
         (case rewriters lib xs of
            None \<Rightarrow> None
          | Some (Inl rc) \<Rightarrow> Some (Inl rc)
          | Some (Inr (c', xs')) \<Rightarrow> Some (Inr (c \<or> c', x' # xs'))))"
  by pat_completeness auto

termination
  by (relation "measures [\<lambda>x. case x of Inl (_, p) \<Rightarrow> weight p | Inr (_, ps) \<Rightarrow> sum_list (map weight ps),
      \<lambda>x. case x of Inl _ \<Rightarrow> 0 | Inr (_, ps) \<Rightarrow> Suc (length ps)]") (auto dest: rewrite_rules_weight)

declare rewriter.simps [simp del]

lemma rewriter_weight:
  "rewriter lib p = Some (Inr (c, p')) \<Longrightarrow> weight p' \<le> weight p \<and> (c \<longrightarrow> weight p' < weight p)"
  "rewriters lib ps = Some (Inr (d, ps')) \<Longrightarrow>
    sum_list (map weight ps') \<le> sum_list (map weight ps) \<and> (d \<longrightarrow> sum_list (map weight ps') < sum_list (map weight ps))"
proof (induction lib p and lib ps arbitrary: c p' and d ps' rule: rewriter_rewriters.induct)
  case (1 lib p)
  from "1.prems" obtain c1 k es cs c2 cs' where r: "rewrite_rules lib p = Some (Inr (c1, LOp k es cs))"
    "rewriters lib cs = Some (Inr (c2, cs'))" "c = (c1 \<or> c2)" "p' = LOp k es cs'"
    by (auto simp: rewriter.simps [of lib p] split: option.splits sum.splits prod.splits lop.splits)
  from "1.IH" [OF r(1) refl refl refl r(2)] rewrite_rules_weight [OF r(1)] r show ?case by fastforce
next
  case (3 lib x xs)
  from "3.prems" obtain c1 x' c2 xs' where r: "rewriter lib x = Some (Inr (c1, x'))"
    "rewriters lib xs = Some (Inr (c2, xs'))" "d = (c1 \<or> c2)" "ps' = x' # xs'"
    by (auto split: option.splits sum.splits prod.splits)
  with "3.IH"(1) [OF r(1)] "3.IH"(2) [OF r(1) refl refl r(2)] show ?case by fastforce
qed simp

text \<open>
  \<^verbatim>\<open>OptimizeStage::rewrite\<close>: a loop, so that not returning is \<open>None\<close>; the inner \<open>None\<close> is the access
  through a null pointer of \<^const>\<open>rewriter\<close>.
\<close>

partial_function (option) rewrite_loop :: "float_text \<Rightarrow> lop \<Rightarrow> (RC + lop) option option" where
  [code]: "rewrite_loop lib p =
    (case rewriter lib p of
       None \<Rightarrow> Some None
     | Some (Inl rc) \<Rightarrow> Some (Some (Inl rc))
     | Some (Inr (c, p')) \<Rightarrow> if c then rewrite_loop lib p' else Some (Some (Inr p')))"

section \<open>Properties\<close>


end
