(* ===== verification/Sql_Exec.thy ===== *)
theory Sql_Exec
  imports Sql_Plan
begin

text \<open>
  Model of the physical operators that read rows (\<^verbatim>\<open>sql/operator/*_physical_operator.cpp\<close>): table scan, index
  scan, vector index scan, predicate, nested loop join, order by, limit and projection, each with its
  \<^verbatim>\<open>open\<close>, \<^verbatim>\<open>next\<close>, \<^verbatim>\<open>close\<close> and \<^verbatim>\<open>current_tuple\<close>; of the loop that writes the rows of a result to the
  client (\<^verbatim>\<open>net/plain_communicator.cpp\<close>); and of the choice of the operators
  (\<^verbatim>\<open>sql/optimizer/physical_plan_generator.cpp\<close>).

  The operator itself (\<open>phys\<close>) is what its constructor is given; what its methods change is its
  state (\<open>pstate\<close>).  A record scanner is the list of the records it has yet to deliver, with the code it
  ends with; an index scanner is such a list of record identifiers.  The code runs a loop in \<^verbatim>\<open>next\<close>;
  \<open>None\<close> stands for a loop that does not end, for a failed assertion and for a null pointer that is read.
\<close>

section \<open>The storage below\<close>

record exec_env =
  ee_fields :: "string \<Rightarrow> field_meta list"
  ee_scanner :: "string \<Rightarrow> ReadWriteMode \<Rightarrow> RC + byte list list \<times> RC"
  ee_find_index :: "string \<Rightarrow> string \<Rightarrow> (string \<times> bool) option"
  ee_index_scanner :: "string \<Rightarrow> string \<Rightarrow> Value \<Rightarrow> Value \<Rightarrow> (rid list \<times> RC) option"
  ee_ann_search :: "string \<Rightarrow> string \<Rightarrow> float32 list \<Rightarrow> nat \<Rightarrow> rid list option"
  ee_get_record :: "string \<Rightarrow> rid \<Rightarrow> RC + byte list"
  ee_visit_record :: "string \<Rightarrow> byte list \<Rightarrow> ReadWriteMode \<Rightarrow> RC"
  ee_sort :: "(nat \<Rightarrow> nat \<Rightarrow> bool) \<Rightarrow> nat list \<Rightarrow> nat list"

definition row_tuple :: "exec_env \<Rightarrow> string \<Rightarrow> byte list \<Rightarrow> tuple" where
  "row_tuple env table data = RowTuple table (ee_fields env table) data"

section \<open>Operators and their states\<close>

datatype phys
  = TableScanOp string ReadWriteMode "expr list"
  | IndexScanOp string string ReadWriteMode Value Value "expr list"
  | VectorScanOp string string "float32 list" int "expr list"
  | PredicateOp expr phys
  | LimitOp int "phys option"
  | JoinOp phys phys
  | OrderByOp "expr list" "bool list" "phys option"

record join_state =
  left_tuple :: "tuple option"
  right_tuple :: "tuple option"
  round_done :: bool
  right_closed :: bool

datatype pstate
  = TableScanS "(byte list list \<times> RC) option" "byte list"
  | IndexScanS "(rid list \<times> RC) option" "byte list"
  | VectorScanS "rid list" "byte list"
  | PredicateS pstate
  | LimitS int "tuple option" "pstate option"
  | JoinS pstate pstate join_state
  | OrderByS "tuple list" int "pstate option"

section \<open>Filters and scans\<close>

text \<open>\<^verbatim>\<open>filter\<close> of the three scans.\<close>

fun filter_tuple :: "float_text \<Rightarrow> tuple \<Rightarrow> expr list \<Rightarrow> (RC + bool) option" where
  "filter_tuple lib t [] = Some (Inr True)"
| "filter_tuple lib t (e # es) =
    (case get_value lib t e of
       None \<Rightarrow> None
     | Some (Inl rc) \<Rightarrow> Some (Inl rc)
     | Some (Inr v) \<Rightarrow> if \<not> value_get_boolean v then Some (Inr False) else filter_tuple lib t es)"

fun table_scan_next ::
  "float_text \<Rightarrow> (byte list \<Rightarrow> tuple) \<Rightarrow> expr list \<Rightarrow> byte list list \<Rightarrow> RC \<Rightarrow> byte list \<Rightarrow> (RC \<times> pstate) option" where
  "table_scan_next lib row ps [] end_rc cur = Some (end_rc, TableScanS (Some ([], end_rc)) cur)"
| "table_scan_next lib row ps (r # rs) end_rc cur =
    (case filter_tuple lib (row r) ps of
       None \<Rightarrow> None
     | Some (Inl rc) \<Rightarrow> Some (rc, TableScanS (Some (rs, end_rc)) r)
     | Some (Inr True) \<Rightarrow> Some (SUCCESS, TableScanS (Some (rs, end_rc)) r)
     | Some (Inr False) \<Rightarrow> table_scan_next lib row ps rs end_rc r)"

fun index_scan_next ::
  "float_text \<Rightarrow> exec_env \<Rightarrow> string \<Rightarrow> ReadWriteMode \<Rightarrow> expr list \<Rightarrow> rid list \<Rightarrow> RC \<Rightarrow> byte list \<Rightarrow> (RC \<times> pstate) option" where
  "index_scan_next lib env table mode ps [] end_rc cur = Some (end_rc, IndexScanS (Some ([], end_rc)) cur)"
| "index_scan_next lib env table mode ps (r # rs) end_rc cur =
    (case ee_get_record env table r of
       Inl rc \<Rightarrow> Some (rc, IndexScanS (Some (rs, end_rc)) cur)
     | Inr data \<Rightarrow>
         (case filter_tuple lib (row_tuple env table data) ps of
            None \<Rightarrow> None
          | Some (Inl rc) \<Rightarrow> Some (rc, IndexScanS (Some (rs, end_rc)) data)
          | Some (Inr False) \<Rightarrow> index_scan_next lib env table mode ps rs end_rc data
          | Some (Inr True) \<Rightarrow>
              (let rc = ee_visit_record env table data mode
               in if rc = RECORD_INVISIBLE then index_scan_next lib env table mode ps rs end_rc data
                  else Some (rc, IndexScanS (Some (rs, end_rc)) data))))"

fun vector_scan_next ::
  "float_text \<Rightarrow> exec_env \<Rightarrow> string \<Rightarrow> expr list \<Rightarrow> rid list \<Rightarrow> byte list \<Rightarrow> (RC \<times> pstate) option" where
  "vector_scan_next lib env table ps [] cur = Some (RECORD_EOF, VectorScanS [] cur)"
| "vector_scan_next lib env table ps (r # rs) cur =
    (case ee_get_record env table r of
       Inl rc \<Rightarrow> vector_scan_next lib env table ps rs cur
     | Inr data \<Rightarrow>
         (case filter_tuple lib (row_tuple env table data) ps of
            None \<Rightarrow> None
          | Some (Inl rc) \<Rightarrow> Some (rc, VectorScanS rs data)
          | Some (Inr True) \<Rightarrow> Some (SUCCESS, VectorScanS rs data)
          | Some (Inr False) \<Rightarrow> vector_scan_next lib env table ps rs data))"

section \<open>Predicate\<close>

partial_function (option) predicate_next ::
  "float_text \<Rightarrow> expr \<Rightarrow> ('s \<Rightarrow> (RC \<times> 's) option) \<Rightarrow> ('s \<Rightarrow> tuple option) \<Rightarrow> 's \<Rightarrow> (RC \<times> 's) option" where
  [code]: "predicate_next lib e nxt current s =
    Option.bind (nxt s) (\<lambda>(rc, s').
      if rc \<noteq> SUCCESS then Some (rc, s')
      else case current s' of
             None \<Rightarrow> Some (INTERNAL, s')
           | Some t \<Rightarrow>
               Option.bind (get_value lib t e) (\<lambda>r.
                 case r of
                   Inl rc \<Rightarrow> Some (rc, s')
                 | Inr v \<Rightarrow> if value_get_boolean v then Some (SUCCESS, s') else predicate_next lib e nxt current s'))"

section \<open>Nested loop join\<close>

definition left_next ::
  "('s \<Rightarrow> (RC \<times> 's) option) \<Rightarrow> ('s \<Rightarrow> tuple option) \<Rightarrow> 's \<Rightarrow> join_state \<Rightarrow> (RC \<times> 's \<times> join_state) option" where
  "left_next nxt current l j =
    map_option (\<lambda>(rc, l'). if rc \<noteq> SUCCESS then (rc, l', j) else (rc, l', j\<lparr>left_tuple := current l'\<rparr>)) (nxt l)"

definition right_round ::
  "('s \<Rightarrow> (RC \<times> 's) option) \<Rightarrow> ('s \<Rightarrow> (RC \<times> 's) option) \<Rightarrow> 's \<Rightarrow> join_state \<Rightarrow> (RC \<times> 's \<times> join_state) option" where
  "right_round opn cls r j =
    (if \<not> round_done j then Some (SUCCESS, r, j)
     else
       Option.bind (if right_closed j then Some (SUCCESS, r) else cls r) (\<lambda>(rc, r1).
         let j1 = j\<lparr>right_closed := True\<rparr>
         in if rc \<noteq> SUCCESS then Some (rc, r1, j1)
            else map_option (\<lambda>(rc, r2).
                   if rc \<noteq> SUCCESS then (rc, r2, j1) else (SUCCESS, r2, j1\<lparr>right_closed := False, round_done := False\<rparr>)) (opn r1)))"

definition right_next ::
  "('s \<Rightarrow> (RC \<times> 's) option) \<Rightarrow> ('s \<Rightarrow> (RC \<times> 's) option) \<Rightarrow> ('s \<Rightarrow> (RC \<times> 's) option) \<Rightarrow> ('s \<Rightarrow> tuple option) \<Rightarrow>
    's \<Rightarrow> join_state \<Rightarrow> (RC \<times> 's \<times> join_state) option" where
  "right_next opn nxt cls current r j =
    Option.bind (right_round opn cls r j) (\<lambda>(rc, r1, j1).
      if rc \<noteq> SUCCESS then Some (rc, r1, j1)
      else map_option (\<lambda>(rc, r2).
             if rc \<noteq> SUCCESS then (rc, r2, if rc = RECORD_EOF then j1\<lparr>round_done := True\<rparr> else j1)
             else (rc, r2, j1\<lparr>right_tuple := current r2\<rparr>)) (nxt r1))"

text \<open>The loop of \<^verbatim>\<open>next\<close> goes on as long as the code is \<^verbatim>\<open>SUCCESS\<close>.\<close>

partial_function (option) join_next ::
  "('l \<Rightarrow> join_state \<Rightarrow> (RC \<times> 'l \<times> join_state) option) \<Rightarrow> ('r \<Rightarrow> join_state \<Rightarrow> (RC \<times> 'r \<times> join_state) option) \<Rightarrow>
    'l \<Rightarrow> 'r \<Rightarrow> join_state \<Rightarrow> (RC \<times> 'l \<times> 'r \<times> join_state) option" where
  [code]: "join_next lnext rnext l r j =
    Option.bind (if left_tuple j = None \<or> round_done j then lnext l j else Some (SUCCESS, l, j)) (\<lambda>(rc, l1, j1).
      if rc \<noteq> SUCCESS then Some (rc, l1, r, j1)
      else
        Option.bind (rnext r j1) (\<lambda>(rc, r2, j2).
          if rc = RECORD_EOF then join_next lnext rnext l1 r2 (j2\<lparr>round_done := True\<rparr>)
          else if rc \<noteq> SUCCESS then Some (rc, l1, r2, j2)
          else join_next lnext rnext l1 r2 j2))"

section \<open>Order by\<close>

partial_function (option) fetch_tuples ::
  "('s \<Rightarrow> (RC \<times> 's) option) \<Rightarrow> ('s \<Rightarrow> tuple option) \<Rightarrow> 's \<Rightarrow> tuple list \<Rightarrow> (RC \<times> tuple list \<times> 's) option" where
  [code]: "fetch_tuples nxt current s acc =
    Option.bind (nxt s) (\<lambda>(rc, s').
      if rc = RECORD_EOF then Some (SUCCESS, acc, s')
      else if rc \<noteq> SUCCESS then Some (rc, acc, s')
      else case current s' of
             None \<Rightarrow> Some (INTERNAL, acc, s')
           | Some t \<Rightarrow>
               Option.bind (make_value_list t) (\<lambda>r.
                 case r of Inl rc \<Rightarrow> Some (rc, acc, s') | Inr t' \<Rightarrow> fetch_tuples nxt current s' (acc @ [t'])))"

fun sort_key :: "float_text \<Rightarrow> tuple \<Rightarrow> expr list \<Rightarrow> Value list option" where
  "sort_key lib t [] = Some []"
| "sort_key lib t (e # es) =
    Option.bind (get_value lib t e) (\<lambda>r.
      map_option (Cons (case r of Inl rc \<Rightarrow> UndefinedValue | Inr v \<Rightarrow> value_copy v)) (sort_key lib t es))"

fun key_before :: "float_text \<Rightarrow> bool list \<Rightarrow> Value list \<Rightarrow> Value list \<Rightarrow> bool option" where
  "key_before lib (asc # ascs) (a # as) (b # bs) =
    (if value_attr_type a = UNDEFINED \<and> value_attr_type b = UNDEFINED then key_before lib ascs as bs
     else if value_attr_type a = UNDEFINED then Some False
     else if value_attr_type b = UNDEFINED then Some True
     else Option.bind (value_compare lib a b) (\<lambda>cmp.
            if cmp \<noteq> 0 then Some (if asc then cmp < 0 else 0 < cmp) else key_before lib ascs as bs))"
| "key_before lib ascs as bs = Some False"

text \<open>\<^verbatim>\<open>std::sort\<close> may compare any two elements: a comparison that cannot be made is the result \<open>None\<close>.\<close>

definition sort_tuples :: "float_text \<Rightarrow> exec_env \<Rightarrow> expr list \<Rightarrow> bool list \<Rightarrow> tuple list \<Rightarrow> tuple list option" where
  "sort_tuples lib env es ascs ts =
    (if es = [] \<or> length ts \<le> 1 then Some ts
     else Option.bind (those (map (\<lambda>t. sort_key lib t es) ts)) (\<lambda>keys.
       if \<forall>a \<in> set keys. \<forall>b \<in> set keys. key_before lib ascs a b \<noteq> None
       then Some (map ((!) ts) (ee_sort env (\<lambda>i k. key_before lib ascs (keys ! i) (keys ! k) = Some True) [0..<length ts]))
       else None))"

section \<open>The operators\<close>

fun current_op :: "exec_env \<Rightarrow> phys \<Rightarrow> pstate \<Rightarrow> tuple option" where
  "current_op env (TableScanOp table _ _) st = (case st of TableScanS _ cur \<Rightarrow> Some (row_tuple env table cur) | _ \<Rightarrow> None)"
| "current_op env (IndexScanOp table _ _ _ _ _) st = (case st of IndexScanS _ cur \<Rightarrow> Some (row_tuple env table cur) | _ \<Rightarrow> None)"
| "current_op env (VectorScanOp table _ _ _ _) st = (case st of VectorScanS _ cur \<Rightarrow> Some (row_tuple env table cur) | _ \<Rightarrow> None)"
| "current_op env (PredicateOp _ c) st = (case st of PredicateS s \<Rightarrow> current_op env c s | _ \<Rightarrow> None)"
| "current_op env (LimitOp _ _) st = (case st of LimitS _ t _ \<Rightarrow> t | _ \<Rightarrow> None)"
| "current_op env (JoinOp _ _) st =
    (case st of
       JoinS _ _ j \<Rightarrow> (case (left_tuple j, right_tuple j) of (Some l, Some r) \<Rightarrow> Some (JoinedTuple l r) | _ \<Rightarrow> None)
     | _ \<Rightarrow> None)"
| "current_op env (OrderByOp _ _ _) st =
    (case st of OrderByS ts i _ \<Rightarrow> if i < 0 \<or> int (length ts) \<le> i then None else Some (ts ! nat i) | _ \<Rightarrow> None)"

fun close_op :: "phys \<Rightarrow> pstate \<Rightarrow> (RC \<times> pstate) option" where
  "close_op (TableScanOp _ _ _) st = (case st of TableScanS _ cur \<Rightarrow> Some (SUCCESS, TableScanS None cur) | _ \<Rightarrow> None)"
| "close_op (IndexScanOp _ _ _ _ _ _) st =
    (case st of IndexScanS (Some _) cur \<Rightarrow> Some (SUCCESS, IndexScanS None cur) | _ \<Rightarrow> None)"
| "close_op (VectorScanOp _ _ _ _ _) st = (case st of VectorScanS _ cur \<Rightarrow> Some (SUCCESS, VectorScanS [] cur) | _ \<Rightarrow> None)"
| "close_op (PredicateOp _ c) st =
    (case st of PredicateS s \<Rightarrow> map_option (\<lambda>(_, s'). (SUCCESS, PredicateS s')) (close_op c s) | _ \<Rightarrow> None)"
| "close_op (LimitOp n None) st = (case st of LimitS _ t None \<Rightarrow> Some (SUCCESS, LimitS 0 t None) | _ \<Rightarrow> None)"
| "close_op (LimitOp n (Some c)) st =
    (case st of LimitS _ t (Some s) \<Rightarrow> map_option (\<lambda>(rc, s'). (rc, LimitS 0 t (Some s'))) (close_op c s) | _ \<Rightarrow> None)"
| "close_op (JoinOp lc rc) st =
    (case st of
       JoinS l r j \<Rightarrow>
         Option.bind (close_op lc l) (\<lambda>(code, l').
           if right_closed j then Some (code, JoinS l' r j)
           else map_option (\<lambda>(code', r'). (code', JoinS l' r' (if code' = SUCCESS then j\<lparr>right_closed := True\<rparr> else j))) (close_op rc r))
     | _ \<Rightarrow> None)"
| "close_op (OrderByOp _ _ None) st = (case st of OrderByS _ _ None \<Rightarrow> Some (SUCCESS, OrderByS [] (-1) None) | _ \<Rightarrow> None)"
| "close_op (OrderByOp _ _ (Some c)) st =
    (case st of
       OrderByS _ _ (Some s) \<Rightarrow> map_option (\<lambda>(_, s'). (SUCCESS, OrderByS [] (-1) (Some s'))) (close_op c s)
     | _ \<Rightarrow> None)"

definition limit_step :: "int \<Rightarrow> int \<Rightarrow> ('s \<Rightarrow> (RC \<times> 's) option) \<Rightarrow> ('s \<Rightarrow> tuple option) \<Rightarrow> tuple option \<Rightarrow> 's \<Rightarrow>
    (RC \<times> int \<times> tuple option \<times> 's) option" where
  "limit_step n count nxt current t s =
    (if n \<ge> 0 \<and> count \<ge> n then Some (RECORD_EOF, count, t, s)
     else map_option (\<lambda>(rc, s'). if rc = SUCCESS then (rc, count + 1, current s', s') else (rc, count, t, s')) (nxt s))"

fun open_op :: "float_text \<Rightarrow> exec_env \<Rightarrow> phys \<Rightarrow> pstate \<Rightarrow> (RC \<times> pstate) option"
  and next_op :: "float_text \<Rightarrow> exec_env \<Rightarrow> phys \<Rightarrow> pstate \<Rightarrow> (RC \<times> pstate) option" where
  "open_op lib env (TableScanOp table mode ps) st =
    (case st of
       TableScanS _ cur \<Rightarrow>
         (case ee_scanner env table mode of
            Inl rc \<Rightarrow> Some (rc, TableScanS (Some ([], rc)) cur)
          | Inr sc \<Rightarrow> Some (SUCCESS, TableScanS (Some sc) cur))
     | _ \<Rightarrow> None)"
| "open_op lib env (IndexScanOp table index mode lv rv ps) st =
    (case st of
       IndexScanS old cur \<Rightarrow>
         (case ee_index_scanner env table index lv rv of
            None \<Rightarrow> Some (INTERNAL, IndexScanS old cur)
          | Some sc \<Rightarrow> Some (SUCCESS, IndexScanS (Some sc) cur))
     | _ \<Rightarrow> None)"
| "open_op lib env (VectorScanOp table index query limit ps) st =
    (case st of
       VectorScanS old cur \<Rightarrow>
         (case ee_ann_search env table index query (if limit > 0 then nat limit else 100) of
            None \<Rightarrow> Some (INTERNAL, VectorScanS old cur)
          | Some rs \<Rightarrow> Some (SUCCESS, VectorScanS rs cur))
     | _ \<Rightarrow> None)"
| "open_op lib env (PredicateOp e c) st =
    (case st of PredicateS s \<Rightarrow> map_option (\<lambda>(rc, s'). (rc, PredicateS s')) (open_op lib env c s) | _ \<Rightarrow> None)"
| "open_op lib env (LimitOp n None) st =
    (case st of LimitS count t None \<Rightarrow> Some (INVALID_ARGUMENT, LimitS count t None) | _ \<Rightarrow> None)"
| "open_op lib env (LimitOp n (Some c)) st =
    (case st of
       LimitS count t (Some s) \<Rightarrow> map_option (\<lambda>(rc, s'). (rc, LimitS 0 t (Some s'))) (open_op lib env c s)
     | _ \<Rightarrow> None)"
| "open_op lib env (JoinOp lc rc) st =
    (case st of
       JoinS l r j \<Rightarrow>
         map_option (\<lambda>(code, l'). (code, JoinS l' r (j\<lparr>right_closed := True, round_done := True\<rparr>))) (open_op lib env lc l)
     | _ \<Rightarrow> None)"
| "open_op lib env (OrderByOp es ascs None) st =
    (case st of OrderByS ts i None \<Rightarrow> Some (SUCCESS, OrderByS ts i None) | _ \<Rightarrow> None)"
| "open_op lib env (OrderByOp es ascs (Some c)) st =
    (case st of
       OrderByS ts i (Some s) \<Rightarrow>
         Option.bind (open_op lib env c s) (\<lambda>(rc, s1).
           if rc \<noteq> SUCCESS then Some (rc, OrderByS ts i (Some s1))
           else Option.bind (fetch_tuples (next_op lib env c) (current_op env c) s1 []) (\<lambda>(rc, all_tuples, s2).
             if rc \<noteq> SUCCESS then Some (rc, OrderByS ts i (Some s2))
             else map_option (\<lambda>sorted. (SUCCESS, OrderByS sorted (-1) (Some s2))) (sort_tuples lib env es ascs all_tuples)))
     | _ \<Rightarrow> None)"
| "next_op lib env (TableScanOp table mode ps) st =
    (case st of
       TableScanS (Some (rs, end_rc)) cur \<Rightarrow> table_scan_next lib (row_tuple env table) ps rs end_rc cur
     | _ \<Rightarrow> None)"
| "next_op lib env (IndexScanOp table index mode lv rv ps) st =
    (case st of
       IndexScanS (Some (rs, end_rc)) cur \<Rightarrow> index_scan_next lib env table mode ps rs end_rc cur
     | _ \<Rightarrow> None)"
| "next_op lib env (VectorScanOp table index query limit ps) st =
    (case st of VectorScanS rs cur \<Rightarrow> vector_scan_next lib env table ps rs cur | _ \<Rightarrow> None)"
| "next_op lib env (PredicateOp e c) st =
    (case st of
       PredicateS s \<Rightarrow> map_option (\<lambda>(rc, s'). (rc, PredicateS s')) (predicate_next lib e (next_op lib env c) (current_op env c) s)
     | _ \<Rightarrow> None)"
| "next_op lib env (LimitOp n None) st =
    (case st of
       LimitS count t None \<Rightarrow> if n \<ge> 0 \<and> count \<ge> n then Some (RECORD_EOF, LimitS count t None) else None
     | _ \<Rightarrow> None)"
| "next_op lib env (LimitOp n (Some c)) st =
    (case st of
       LimitS count t (Some s) \<Rightarrow>
         map_option (\<lambda>(rc, count', t', s'). (rc, LimitS count' t' (Some s'))) (limit_step n count (next_op lib env c) (current_op env c) t s)
     | _ \<Rightarrow> None)"
| "next_op lib env (JoinOp lc rc) st =
    (case st of
       JoinS l r j \<Rightarrow>
         map_option (\<lambda>(code, l', r', j'). (code, JoinS l' r' j'))
           (join_next (left_next (next_op lib env lc) (current_op env lc))
             (right_next (open_op lib env rc) (next_op lib env rc) (close_op rc) (current_op env rc)) l r j)
     | _ \<Rightarrow> None)"
| "next_op lib env (OrderByOp es ascs c) st =
    (case st of
       OrderByS ts i s \<Rightarrow> Some (if i + 1 \<ge> int (length ts) then RECORD_EOF else SUCCESS, OrderByS ts (i + 1) s)
     | _ \<Rightarrow> None)"

section \<open>Choice of the operators\<close>

text \<open>
  A vector index serves a call of \<^verbatim>\<open>DISTANCE\<close> with a vector field that has such an index and a second
  argument that is known.
\<close>

definition vector_query :: "float_text \<Rightarrow> exec_env \<Rightarrow> string \<Rightarrow> expr \<Rightarrow> (string \<times> float32 list) option option" where
  "vector_query lib env table e =
    (case e of
       FunctionExpr DISTANCE (FieldExpr _ fm # arg # _) \<Rightarrow>
         (if fm_type fm \<noteq> VECTORS then Some None
          else case ee_find_index env table (fm_name fm) of
                 Some (index, True) \<Rightarrow>
                   map_option (\<lambda>r. case r of
                       Inl rc \<Rightarrow> None
                     | Inr v \<Rightarrow> if value_attr_type v \<noteq> VECTORS then None else Some (index, vector_of v))
                     (case arg of ValueExpr v \<Rightarrow> Some (Inr v) | _ \<Rightarrow> try_get_value lib arg)
               | _ \<Rightarrow> Some None)
     | _ \<Rightarrow> Some None)"

fun first_vector_query :: "float_text \<Rightarrow> exec_env \<Rightarrow> string \<Rightarrow> expr list \<Rightarrow> (string \<times> float32 list) option option" where
  "first_vector_query lib env table [] = Some None"
| "first_vector_query lib env table (e # es) =
    Option.bind (vector_query lib env table e) (\<lambda>q.
      case q of None \<Rightarrow> first_vector_query lib env table es | Some q' \<Rightarrow> Some (Some q'))"

fun predicate_sides :: "expr \<Rightarrow> expr list" where
  "predicate_sides (ComparisonExpr _ l r) = [l, r]"
| "predicate_sides (FunctionExpr f es) = [FunctionExpr f es]"
| "predicate_sides _ = []"

fun index_query :: "exec_env \<Rightarrow> string \<Rightarrow> expr list \<Rightarrow> (string \<times> Value) option" where
  "index_query env table [] = None"
| "index_query env table (p # ps) =
    (case (case p of
             ComparisonExpr op l r \<Rightarrow>
               if op \<noteq> EQUAL_TO \<and> op \<noteq> NOT_EQUAL then None
               else (case (l, r) of
                       (FieldExpr _ fm, ValueExpr v) \<Rightarrow> map_option (\<lambda>(index, _). (index, v)) (ee_find_index env table (fm_name fm))
                     | (ValueExpr v, FieldExpr _ fm) \<Rightarrow> map_option (\<lambda>(index, _). (index, v)) (ee_find_index env table (fm_name fm))
                     | _ \<Rightarrow> None)
           | _ \<Rightarrow> None) of
       Some q \<Rightarrow> Some q
     | None \<Rightarrow> index_query env table ps)"

definition table_get_plan :: "float_text \<Rightarrow> exec_env \<Rightarrow> string \<Rightarrow> ReadWriteMode \<Rightarrow> expr list \<Rightarrow> phys option" where
  "table_get_plan lib env table mode ps =
    map_option (\<lambda>q.
      case q of
        Some (index, query) \<Rightarrow> VectorScanOp table index query 100 ps
      | None \<Rightarrow>
          (case index_query env table ps of
             Some (index, v) \<Rightarrow> IndexScanOp table index mode (value_copy v) (value_copy v) ps
           | None \<Rightarrow> TableScanOp table mode ps))
      (first_vector_query lib env table (concat (map predicate_sides ps)))"

text \<open>The operators that read rows; the other kinds and the projection, which stands on top, are no part of it.\<close>

fun create_plan :: "float_text \<Rightarrow> exec_env \<Rightarrow> lop \<Rightarrow> (RC + phys) option" where
  "create_plan lib env (LOp k es cs) =
    (case k of
       TABLE_GET table mode ps \<Rightarrow> map_option Inr (table_get_plan lib env table mode ps)
     | PREDICATE \<Rightarrow>
         (case cs of
            [c] \<Rightarrow>
              Option.bind (create_plan lib env c) (\<lambda>r.
                case r of
                  Inl rc \<Rightarrow> Some (Inl rc)
                | Inr child \<Rightarrow>
                    (case es of [e] \<Rightarrow> if value_type e = BOOLEANS then Some (Inr (PredicateOp e child)) else None | _ \<Rightarrow> None))
          | _ \<Rightarrow> None)
     | JOIN \<Rightarrow>
         (case cs of
            [l, r] \<Rightarrow>
              Option.bind (create_plan lib env l) (\<lambda>x.
                case x of
                  Inl rc \<Rightarrow> Some (Inl rc)
                | Inr lp \<Rightarrow> map_option (\<lambda>y. case y of Inl rc \<Rightarrow> Inl rc | Inr rp \<Rightarrow> Inr (JoinOp lp rp)) (create_plan lib env r))
          | _ \<Rightarrow> Some (Inl INTERNAL))
     | ORDER_BY ascs \<Rightarrow>
         (case cs of
            [] \<Rightarrow> Some (Inr (OrderByOp es ascs None))
          | c # _ \<Rightarrow> map_option (\<lambda>x. case x of Inl rc \<Rightarrow> Inl rc | Inr child \<Rightarrow> Inr (OrderByOp es ascs (Some child))) (create_plan lib env c))
     | LIMIT n \<Rightarrow>
         (case cs of
            [] \<Rightarrow> Some (Inr (LimitOp n None))
          | c # _ \<Rightarrow> map_option (\<lambda>x. case x of Inl rc \<Rightarrow> Inl rc | Inr child \<Rightarrow> Inr (LimitOp n (Some child))) (create_plan lib env c))
     | _ \<Rightarrow> None)"

section \<open>Projection and the result of a statement\<close>

datatype project = ProjectOp "expr list" "phys option"

definition create_project :: "float_text \<Rightarrow> exec_env \<Rightarrow> lop \<Rightarrow> (RC + project) option" where
  "create_project lib env p =
    (case p of
       LOp PROJECTION es [] \<Rightarrow> Some (Inr (ProjectOp es None))
     | LOp PROJECTION es (c # _) \<Rightarrow>
         map_option (\<lambda>x. case x of Inl rc \<Rightarrow> Inl rc | Inr child \<Rightarrow> Inr (ProjectOp es (Some child))) (create_plan lib env c)
     | _ \<Rightarrow> None)"

text \<open>A cell of an \<^verbatim>\<open>ExpressionTuple\<close>.\<close>

definition expression_cell :: "float_text \<Rightarrow> tuple option \<Rightarrow> expr \<Rightarrow> (RC + Value) option" where
  "expression_cell lib child e = (case child of Some t \<Rightarrow> get_value lib t e | None \<Rightarrow> try_get_value lib e)"

text \<open>The cells of a row, with a bar between them; the writes themselves succeed.\<close>

fun write_cells :: "float_text \<Rightarrow> tuple option \<Rightarrow> expr list \<Rightarrow> byte list \<Rightarrow> (RC \<times> byte list) option" where
  "write_cells lib child [] out = Some (SUCCESS, out)"
| "write_cells lib child (e # es) out =
    Option.bind (expression_cell lib child e) (\<lambda>r.
      case r of
        Inl rc \<Rightarrow> Some (rc, out)
      | Inr v \<Rightarrow>
          let out' = out @ value_to_string lib v
          in if es = [] then Some (SUCCESS, out') else write_cells lib child es (out' @ [32, 124, 32]))"

partial_function (option) write_tuple_result ::
  "float_text \<Rightarrow> expr list \<Rightarrow> ('s \<Rightarrow> (RC \<times> 's) option) \<Rightarrow> ('s \<Rightarrow> tuple option) \<Rightarrow> 's \<Rightarrow> byte list \<Rightarrow> (RC \<times> byte list) option" where
  [code]: "write_tuple_result lib es nxt current s out =
    Option.bind (nxt s) (\<lambda>(rc, s').
      if rc = RECORD_EOF then Some (SUCCESS, out)
      else if rc \<noteq> SUCCESS then Some (rc, out)
      else Option.bind (write_cells lib (current s') es out) (\<lambda>(rc, out').
        if rc \<noteq> SUCCESS then Some (rc, out')
        else write_tuple_result lib es nxt current s' (out' @ [10])))"

text \<open>The state of a new operator.\<close>

primrec init_op :: "phys \<Rightarrow> pstate" where
  "init_op (TableScanOp _ _ _) = TableScanS None []"
| "init_op (IndexScanOp _ _ _ _ _ _) = IndexScanS None []"
| "init_op (VectorScanOp _ _ _ _ _) = VectorScanS [] []"
| "init_op (PredicateOp _ c) = PredicateS (init_op c)"
| "init_op (LimitOp _ c) = LimitS 0 None (map_option init_op c)"
| "init_op (JoinOp l r) =
    JoinS (init_op l) (init_op r) \<lparr> left_tuple = None, right_tuple = None, round_done = True, right_closed = True \<rparr>"
| "init_op (OrderByOp _ _ c) = OrderByS [] (-1) (map_option init_op c)"

definition run_project :: "float_text \<Rightarrow> exec_env \<Rightarrow> project \<Rightarrow> (RC \<times> byte list) option" where
  "run_project lib env p =
    (case p of
       ProjectOp es None \<Rightarrow> Some (SUCCESS, [])
     | ProjectOp es (Some c) \<Rightarrow>
         Option.bind (open_op lib env c (init_op c)) (\<lambda>(rc, s).
           if rc \<noteq> SUCCESS then Some (rc, []) else write_tuple_result lib es (next_op lib env c) (current_op env c) s []))"

definition run_plan :: "float_text \<Rightarrow> exec_env \<Rightarrow> lop \<Rightarrow> (RC \<times> byte list) option" where
  "run_plan lib env p =
    Option.bind (create_project lib env p) (\<lambda>r. case r of Inl rc \<Rightarrow> Some (rc, []) | Inr pr \<Rightarrow> run_project lib env pr)"

end
