(* ===== verification/Sql_Rows.thy ===== *)
theory Sql_Rows
  imports Sql_Exec
begin

text \<open>
  The contract of a physical operator as a locale, with what the operators that call a child keep of it
  proved once, and its interpretation on the operators of \<^verbatim>\<open>Sql_Exec\<close>; and what a nested loop join yields.
\<close>

section \<open>Codes of an evaluation\<close>

text \<open>An evaluation that fails has a code that is not \<^verbatim>\<open>SUCCESS\<close>.\<close>

lemma find_cell_error: "find_cell t spec \<noteq> Inl SUCCESS"
proof -
  have "find_field name fms data \<noteq> Inl SUCCESS" for name fms data by (induction fms) (auto split: if_splits)
  moreover have "find_spec spec cells \<noteq> Inl SUCCESS" for spec cells by (induction cells) (auto split: if_splits)
  ultimately show ?thesis by (induction t) (auto split: sum.splits)
qed

lemma eval_then_error:
  "eval_then m k = Some (Inl rc) \<Longrightarrow> m = Some (Inl rc) \<or> (\<exists>v. m = Some (Inr v) \<and> k v = Some (Inl rc))"
  by (cases m; cases "the m") (auto simp: eval_then_def)

lemma expr_cast_error: "expr_cast ty v \<noteq> Inl SUCCESS"
  by (cases v) (auto simp: expr_cast_def)

lemma distance_value_error: "distance_value lib v1 v2 m \<noteq> Inl SUCCESS"
proof -
  have "dot_product a b \<noteq> Inl SUCCESS" "euclidean_distance a b \<noteq> Inl SUCCESS" "cosine_distance a b \<noteq> Inl SUCCESS" for a b
    by (simp_all add: dot_product_def euclidean_distance_def cosine_distance_def Let_def split: prod.splits)
  then show ?thesis by (auto simp: distance_value_def Let_def split: sum.splits)
qed

lemma string_to_vector_error: "string_to_vector_value lib v \<noteq> Inl SUCCESS"
proof -
  have "vector_elements lib bs \<noteq> Inl SUCCESS" for bs
  proof (induction "length bs" arbitrary: bs rule: less_induct)
    case less
    show ?case
    proof (cases "dropWhile (\<lambda>c. c = 32 \<or> c = 9) bs")
      case (Cons c cs)
      with less have "vector_elements lib (drop 1 (dropWhile (\<lambda>c. c \<noteq> 44) (c # cs))) \<noteq> Inl SUCCESS"
        by (blast intro: rest_shorter)
      then show ?thesis unfolding vector_elements.simps [of lib bs] Cons list.case Let_def
        by (auto simp del: dropWhile.simps takeWhile.simps One_nat_def split: prod.splits sum.splits)
    next
      case Nil
      then show ?thesis unfolding vector_elements.simps [of lib bs] Nil by simp
    qed
  qed
  then show ?thesis by (auto simp: string_to_vector_value_def vector_from_str_def Let_def split: sum.splits list.splits)
qed

lemma get_value_error: "get_value lib t e \<noteq> Some (Inl SUCCESS)"
proof (induction e)
  case (ComparisonExpr op l r)
  have "map_option (\<lambda>c. case c of Inl rc \<Rightarrow> Inl rc | Inr x \<Rightarrow> Inr (BoolValue x)) (compare_value lib op a b) \<noteq> Some (Inl SUCCESS)" for a b
    by (auto simp: compare_value_def split: sum.splits option.splits)
  with ComparisonExpr show ?case by (auto dest!: eval_then_error)
next
  case (ConjunctionExpr ct es)
  then have "conjunction_value lib t ct es \<noteq> Some (Inl SUCCESS)"
    by (induction es) (auto dest!: eval_then_error simp: Let_def split: if_splits)
  then show ?case by simp
next
  case (ArithmeticExpr op l r)
  have "calc_value lib op ty a b \<noteq> Some (Inl SUCCESS)" for ty a b by (simp add: calc_value_def split: prod.splits)
  with ArithmeticExpr show ?case by (auto dest!: eval_then_error split: option.splits simp del: value_type.simps)
next
  case (FunctionExpr f es)
  have "vector_to_string_value lib v \<noteq> Inl SUCCESS" for v by (simp add: vector_to_string_value_def Let_def)
  with FunctionExpr distance_value_error string_to_vector_error show ?case
    by (auto dest!: eval_then_error split: func_type.splits list.splits if_splits)
qed (auto simp: find_cell_error dest!: eval_then_error simp: expr_cast_error)

lemma truth_error: "truth lib t e \<noteq> Some (Inl SUCCESS)"
  using get_value_error [of lib t e] by (cases "get_value lib t e"; cases "the (get_value lib t e)") (auto simp: truth_def)

lemma filter_tuple_truth: "filter_tuple lib t ps = all_true (map (truth lib t) ps)"
proof (induction ps)
  case (Cons e es)
  then show ?case by (cases "get_value lib t e"; cases "the (get_value lib t e)") (auto simp: truth_def)
qed simp

section \<open>Loops keep what a step keeps\<close>

lemma predicate_next_keeps:
  assumes "predicate_next lib e nxt current s = Some (rc, s')" "\<forall>s rc s'. Q s \<longrightarrow> nxt s = Some (rc, s') \<longrightarrow> Q s'" "Q s"
  shows "Q s'"
proof -
  let ?P = "\<lambda>(_ :: float_text) (_ :: expr) nxt (_ :: 'a \<Rightarrow> tuple option) s y.
    (\<forall>s rc s'. Q s \<longrightarrow> nxt s = Some ((rc :: RC), s') \<longrightarrow> Q s') \<longrightarrow> Q s \<longrightarrow> Q (snd y)"
  have "?P lib e nxt current s (rc, s')"
  proof (rule predicate_next.raw_induct [OF _ assms(1), where P = ?P])
    fix pn :: "float_text \<Rightarrow> expr \<Rightarrow> ('a \<Rightarrow> (RC \<times> 'a) option) \<Rightarrow> ('a \<Rightarrow> tuple option) \<Rightarrow> 'a \<Rightarrow> (RC \<times> 'a) option"
      and lib e nxt current s y
    assume IH: "\<And>lib e nxt current s y. pn lib e nxt current s = Some y \<Longrightarrow> ?P lib e nxt current s y"
      and run: "Option.bind (nxt s) (\<lambda>(rc, s').
        if rc \<noteq> SUCCESS then Some (rc, s')
        else case current s' of None \<Rightarrow> Some (INTERNAL, s')
          | Some t \<Rightarrow> Option.bind (get_value lib t e) (\<lambda>r. case r of Inl rc \<Rightarrow> Some (rc, s')
              | Inr v \<Rightarrow> if value_get_boolean v then Some (SUCCESS, s') else pn lib e nxt current s')) = Some y"
    show "?P lib e nxt current s y"
    proof (intro impI)
      assume keep: "\<forall>s rc s'. Q s \<longrightarrow> nxt s = Some (rc, s') \<longrightarrow> Q s'" and "Q s"
      from run obtain c1 s1 where n: "nxt s = Some (c1, s1)" by (auto simp: bind_eq_Some_conv)
      with keep \<open>Q s\<close> have s1: "Q s1" by blast
      from run n have "snd y = s1 \<or> pn lib e nxt current s1 = Some y"
        by (cases "current s1"; cases "get_value lib (the (current s1)) e"; cases "the (get_value lib (the (current s1)) e)")
          (auto split: if_splits)
      with IH keep s1 show "Q (snd y)" by blast
    qed
  qed
  with assms(2,3) show ?thesis by simp
qed

lemma fetch_tuples_keeps:
  assumes "fetch_tuples nxt current s acc = Some (rc, ts, s')" "\<forall>s rc s'. Q s \<longrightarrow> nxt s = Some (rc, s') \<longrightarrow> Q s'" "Q s"
  shows "Q s'"
proof -
  let ?P = "\<lambda>nxt (_ :: 'a \<Rightarrow> tuple option) s (_ :: tuple list) (y :: RC \<times> tuple list \<times> 'a).
    (\<forall>s rc s'. Q s \<longrightarrow> nxt s = Some ((rc :: RC), s') \<longrightarrow> Q s') \<longrightarrow> Q s \<longrightarrow> Q (snd (snd y))"
  have "?P nxt current s acc (rc, ts, s')"
  proof (rule fetch_tuples.raw_induct [OF _ assms(1), where P = ?P])
    fix ft :: "('a \<Rightarrow> (RC \<times> 'a) option) \<Rightarrow> ('a \<Rightarrow> tuple option) \<Rightarrow> 'a \<Rightarrow> tuple list \<Rightarrow> (RC \<times> tuple list \<times> 'a) option"
      and nxt current s acc y
    assume IH: "\<And>nxt current s acc y. ft nxt current s acc = Some y \<Longrightarrow> ?P nxt current s acc y"
      and run: "Option.bind (nxt s) (\<lambda>(rc, s').
        if rc = RECORD_EOF then Some (SUCCESS, acc, s')
        else if rc \<noteq> SUCCESS then Some (rc, acc, s')
        else case current s' of None \<Rightarrow> Some (INTERNAL, acc, s')
          | Some t \<Rightarrow> Option.bind (make_value_list t) (\<lambda>r. case r of Inl rc \<Rightarrow> Some (rc, acc, s')
              | Inr t' \<Rightarrow> ft nxt current s' (acc @ [t']))) = Some y"
    show "?P nxt current s acc y"
    proof (intro impI)
      assume keep: "\<forall>s rc s'. Q s \<longrightarrow> nxt s = Some (rc, s') \<longrightarrow> Q s'" and "Q s"
      from run obtain c1 s1 where n: "nxt s = Some (c1, s1)" by (auto simp: bind_eq_Some_conv)
      with keep \<open>Q s\<close> have s1: "Q s1" by blast
      from run n have "snd (snd y) = s1 \<or> (\<exists>acc'. ft nxt current s1 acc' = Some y)"
        by (cases "current s1"; cases "make_value_list (the (current s1))"; cases "the (make_value_list (the (current s1)))")
          (auto split: if_splits)
      with IH keep s1 show "Q (snd (snd y))" by blast
    qed
  qed
  with assms(2,3) show ?thesis by simp
qed

lemma join_next_keeps:
  assumes "join_next lnext rnext l r j = Some (rc, l', r', j')"
    "\<forall>l r j rc l' j'. L l \<longrightarrow> R j r \<longrightarrow> lnext l j = Some (rc, l', j') \<longrightarrow> L l' \<and> R j' r"
    "\<forall>r j rc r' j'. R j r \<longrightarrow> rnext r j = Some (rc, r', j') \<longrightarrow> R j' r' \<and> R (j'\<lparr>round_done := True\<rparr>) r'"
    "L l" "R j r"
  shows "L l' \<and> R j' r'"
proof -
  let ?P = "\<lambda>lnext rnext l r j y.
    (\<forall>l r j rc l' j'. L l \<longrightarrow> R j r \<longrightarrow> lnext l j = Some (rc, l', j') \<longrightarrow> L l' \<and> R j' r) \<longrightarrow>
    (\<forall>r j rc r' j'. R j r \<longrightarrow> rnext r j = Some (rc, r', j') \<longrightarrow> R j' r' \<and> R (j'\<lparr>round_done := True\<rparr>) r') \<longrightarrow>
    L l \<longrightarrow> R j r \<longrightarrow> (case y of (_, l', r', j') \<Rightarrow> L l' \<and> R j' r')"
  have "?P lnext rnext l r j (rc, l', r', j')"
  proof (rule join_next.raw_induct [OF _ assms(1), where P = ?P])
    fix jn :: "('a \<Rightarrow> join_state \<Rightarrow> (RC \<times> 'a \<times> join_state) option) \<Rightarrow> ('b \<Rightarrow> join_state \<Rightarrow> (RC \<times> 'b \<times> join_state) option) \<Rightarrow>
        'a \<Rightarrow> 'b \<Rightarrow> join_state \<Rightarrow> (RC \<times> 'a \<times> 'b \<times> join_state) option" and lnext rnext l r j y
    assume IH: "\<And>lnext rnext l r j y. jn lnext rnext l r j = Some y \<Longrightarrow> ?P lnext rnext l r j y"
      and run: "Option.bind (if left_tuple j = None \<or> round_done j then lnext l j else Some (SUCCESS, l, j)) (\<lambda>(rc, l1, j1).
        if rc \<noteq> SUCCESS then Some (rc, l1, r, j1)
        else Option.bind (rnext r j1) (\<lambda>(rc, r2, j2).
          if rc = RECORD_EOF then jn lnext rnext l1 r2 (j2\<lparr>round_done := True\<rparr>)
          else if rc \<noteq> SUCCESS then Some (rc, l1, r2, j2) else jn lnext rnext l1 r2 j2)) = Some y"
    show "?P lnext rnext l r j y"
    proof (intro impI)
      assume L: "\<forall>l r j rc l' j'. L l \<longrightarrow> R j r \<longrightarrow> lnext l j = Some (rc, l', j') \<longrightarrow> L l' \<and> R j' r"
        and R: "\<forall>r j rc r' j'. R j r \<longrightarrow> rnext r j = Some (rc, r', j') \<longrightarrow> R j' r' \<and> R (j'\<lparr>round_done := True\<rparr>) r'"
        and l: "L l" and r: "R j r"
      from run obtain c1 l1 j1 where s1: "(if left_tuple j = None \<or> round_done j then lnext l j else Some (SUCCESS, l, j)) = Some (c1, l1, j1)"
        by (auto simp: bind_eq_Some_conv)
      have l1: "L l1 \<and> R j1 r"
      proof (cases "left_tuple j = None \<or> round_done j")
        case True
        with s1 have "lnext l j = Some (c1, l1, j1)" by simp
        with L l r show ?thesis by blast
      qed (use s1 l r in auto)
      show "case y of (_, l', r', j') \<Rightarrow> L l' \<and> R j' r'"
      proof (cases "c1 = SUCCESS")
        case True
        with run [unfolded s1] obtain c2 r2 j2 where s2: "rnext r j1 = Some (c2, r2, j2)" by (auto simp: bind_eq_Some_conv)
        from R l1 s2 have r2: "R j2 r2" "R (j2\<lparr>round_done := True\<rparr>) r2" by blast+
        consider "y = (c2, l1, r2, j2)" | "jn lnext rnext l1 r2 (j2\<lparr>round_done := True\<rparr>) = Some y"
          | "jn lnext rnext l1 r2 j2 = Some y"
          using run [unfolded s1] s2 True by (cases "c2 = RECORD_EOF"; cases "c2 = SUCCESS") auto
        then show ?thesis
        proof cases
          case 2
          from IH [OF this, THEN mp, OF L, THEN mp, OF R, THEN mp, OF l1 [THEN conjunct1], THEN mp, OF r2(2)] show ?thesis .
        next
          case 3
          from IH [OF this, THEN mp, OF L, THEN mp, OF R, THEN mp, OF l1 [THEN conjunct1], THEN mp, OF r2(1)] show ?thesis .
        qed (use l1 r2 in simp)
      qed (use run [unfolded s1] l1 in auto)
    qed
  qed
  from this [THEN mp, OF assms(2), THEN mp, OF assms(3), THEN mp, OF assms(4), THEN mp, OF assms(5)] show ?thesis by simp
qed

section \<open>The contract of an operator\<close>

text \<open>
  The states of an operator that its methods can be given (\<open>shaped\<close>), and those between \<^verbatim>\<open>open\<close> and
  \<^verbatim>\<open>close\<close> (\<open>ready\<close>).
\<close>

locale physical_operator =
  fixes op_open op_next op_close :: "'s \<Rightarrow> (RC \<times> 's) option"
    and shaped ready :: "'s \<Rightarrow> bool"
  assumes ready_shaped: "ready s \<Longrightarrow> shaped s"
    and open_shaped: "shaped s \<Longrightarrow> op_open s = Some (rc, s') \<Longrightarrow> shaped s' \<and> (rc = SUCCESS \<longrightarrow> ready s')"
    and next_ready: "ready s \<Longrightarrow> op_next s = Some (rc, s') \<Longrightarrow> ready s'"
    and close_ready: "ready s \<Longrightarrow> \<exists>s'. op_close s = Some (SUCCESS, s') \<and> shaped s'"
begin

lemma predicate_ready: "ready s \<Longrightarrow> predicate_next lib e op_next current s = Some (rc, s') \<Longrightarrow> ready s'"
  using predicate_next_keeps [of lib e op_next current s rc s' ready] next_ready by blast

lemma fetch_ready: "ready s \<Longrightarrow> fetch_tuples op_next current s acc = Some (rc, ts, s') \<Longrightarrow> ready s'"
  using fetch_tuples_keeps [of op_next current s acc rc ts s' ready] next_ready by blast

lemma opened_fetch:
  "shaped s \<Longrightarrow> op_open s = Some (SUCCESS, s1) \<Longrightarrow> fetch_tuples op_next current s1 acc = Some (rc, ts, s') \<Longrightarrow> shaped s' \<and> ready s'"
  using open_shaped [of s SUCCESS s1] fetch_ready [of s1] ready_shaped by blast

lemma limit_ready: "ready s \<Longrightarrow> limit_step n count op_next current t s = Some (rc, count', t', s') \<Longrightarrow> ready s'"
  by (auto simp: limit_step_def split: if_splits prod.splits dest: next_ready)

lemma left_next_ready:
  "ready s \<Longrightarrow> left_next op_next current s j = Some (rc, s', j') \<Longrightarrow>
    ready s' \<and> right_closed j' = right_closed j \<and> round_done j' = round_done j"
  by (auto simp: left_next_def split: if_splits prod.splits dest: next_ready)

text \<open>The right side between two calls of a join: closed or not, and a closed one begins a new round.\<close>

definition round_state :: "join_state \<Rightarrow> 's \<Rightarrow> bool" where
  "round_state j s \<longleftrightarrow> (if right_closed j then shaped s \<and> round_done j else ready s)"

lemma right_round_state:
  assumes "round_state j s" "right_round op_open op_close s j = Some (rc, s', j')"
  shows "round_state j' s' \<and> (rc = SUCCESS \<longrightarrow> ready s' \<and> \<not> right_closed j')"
proof (cases "round_done j")
  case True
  obtain s1 where s1: "(if right_closed j then Some (SUCCESS, s) else op_close s) = Some (SUCCESS, s1)" "shaped s1"
    using assms(1) close_ready [of s] by (auto simp: round_state_def split: if_splits)
  from assms(2) obtain rc2 s2 where o: "op_open s1 = Some (rc2, s2)" by (auto simp: right_round_def Let_def True s1(1))
  with assms(2) open_shaped [OF s1(2) o] show ?thesis
    by (auto simp: right_round_def Let_def True s1(1) round_state_def split: if_splits)
qed (use assms in \<open>auto simp: right_round_def round_state_def split: if_splits\<close>)

lemma right_next_state:
  assumes "round_state j s" "right_next op_open op_next op_close current s j = Some (rc, s', j')"
  shows "round_state j' s' \<and> round_state (j'\<lparr>round_done := True\<rparr>) s'"
proof -
  from assms(2) obtain rc1 s1 j1 where r: "right_round op_open op_close s j = Some (rc1, s1, j1)"
    by (auto simp: right_next_def bind_eq_Some_conv)
  note st = right_round_state [OF assms(1) r]
  show ?thesis
  proof (cases "rc1 = SUCCESS")
    case True
    with assms(2) r obtain rc2 s2 where n: "op_next s1 = Some (rc2, s2)" by (auto simp: right_next_def)
    with st True next_ready [OF _ n] assms(2) r show ?thesis
      by (auto simp: right_next_def round_state_def split: if_splits)
  qed (use assms(2) r st in \<open>auto simp: right_next_def round_state_def split: if_splits\<close>)
qed

end

text \<open>The operators keep it.\<close>

fun shaped_op :: "phys \<Rightarrow> pstate \<Rightarrow> bool" where
  "shaped_op (TableScanOp _ _ _) st \<longleftrightarrow> (case st of TableScanS _ _ \<Rightarrow> True | _ \<Rightarrow> False)"
| "shaped_op (IndexScanOp _ _ _ _ _ _) st \<longleftrightarrow> (case st of IndexScanS _ _ \<Rightarrow> True | _ \<Rightarrow> False)"
| "shaped_op (VectorScanOp _ _ _ _ _) st \<longleftrightarrow> (case st of VectorScanS _ _ \<Rightarrow> True | _ \<Rightarrow> False)"
| "shaped_op (PredicateOp _ c) st \<longleftrightarrow> (case st of PredicateS s \<Rightarrow> shaped_op c s | _ \<Rightarrow> False)"
| "shaped_op (LimitOp _ None) st \<longleftrightarrow> (case st of LimitS _ _ None \<Rightarrow> True | _ \<Rightarrow> False)"
| "shaped_op (LimitOp _ (Some c)) st \<longleftrightarrow> (case st of LimitS _ _ (Some s) \<Rightarrow> shaped_op c s | _ \<Rightarrow> False)"
| "shaped_op (JoinOp lc rc) st \<longleftrightarrow> (case st of JoinS l r _ \<Rightarrow> shaped_op lc l \<and> shaped_op rc r | _ \<Rightarrow> False)"
| "shaped_op (OrderByOp _ _ None) st \<longleftrightarrow> (case st of OrderByS _ _ None \<Rightarrow> True | _ \<Rightarrow> False)"
| "shaped_op (OrderByOp _ _ (Some c)) st \<longleftrightarrow> (case st of OrderByS _ _ (Some s) \<Rightarrow> shaped_op c s | _ \<Rightarrow> False)"

fun ready_op :: "phys \<Rightarrow> pstate \<Rightarrow> bool" where
  "ready_op (TableScanOp _ _ _) st \<longleftrightarrow> (case st of TableScanS (Some _) _ \<Rightarrow> True | _ \<Rightarrow> False)"
| "ready_op (IndexScanOp _ _ _ _ _ _) st \<longleftrightarrow> (case st of IndexScanS (Some _) _ \<Rightarrow> True | _ \<Rightarrow> False)"
| "ready_op (VectorScanOp _ _ _ _ _) st \<longleftrightarrow> (case st of VectorScanS _ _ \<Rightarrow> True | _ \<Rightarrow> False)"
| "ready_op (PredicateOp _ c) st \<longleftrightarrow> (case st of PredicateS s \<Rightarrow> ready_op c s | _ \<Rightarrow> False)"
| "ready_op (LimitOp _ None) st \<longleftrightarrow> False"
| "ready_op (LimitOp _ (Some c)) st \<longleftrightarrow> (case st of LimitS _ _ (Some s) \<Rightarrow> ready_op c s | _ \<Rightarrow> False)"
| "ready_op (JoinOp lc rc) st \<longleftrightarrow>
    (case st of JoinS l r j \<Rightarrow> ready_op lc l \<and> (if right_closed j then shaped_op rc r \<and> round_done j else ready_op rc r) | _ \<Rightarrow> False)"
| "ready_op (OrderByOp _ _ None) st \<longleftrightarrow> (case st of OrderByS _ _ None \<Rightarrow> True | _ \<Rightarrow> False)"
| "ready_op (OrderByOp _ _ (Some c)) st \<longleftrightarrow> (case st of OrderByS _ _ (Some s) \<Rightarrow> ready_op c s | _ \<Rightarrow> False)"

lemma table_scan_next_state: "table_scan_next lib row ps rs end_rc cur = Some (rc, st) \<Longrightarrow> \<exists>sc cur'. st = TableScanS (Some sc) cur'"
  by (induction lib row ps rs end_rc cur rule: table_scan_next.induct) (auto split: option.splits sum.splits bool.splits)

lemma index_scan_next_state: "index_scan_next lib env table mode ps rs end_rc cur = Some (rc, st) \<Longrightarrow> \<exists>sc cur'. st = IndexScanS (Some sc) cur'"
  by (induction lib env table mode ps rs end_rc cur rule: index_scan_next.induct)
    (auto simp: Let_def split: option.splits sum.splits bool.splits if_splits)

lemma vector_scan_next_state: "vector_scan_next lib env table ps rs cur = Some (rc, st) \<Longrightarrow> \<exists>rs' cur'. st = VectorScanS rs' cur'"
  by (induction lib env table ps rs cur rule: vector_scan_next.induct)
    (auto simp: Let_def split: option.splits sum.splits bool.splits if_splits)

lemma ready_op_shaped: "ready_op p st \<Longrightarrow> shaped_op p st"
proof (induction p st rule: ready_op.induct)
  case (7 lc rc st)
  then show ?case by (auto split: pstate.splits if_splits)
qed (auto split: pstate.splits option.splits)

lemma close_op_ready: "ready_op p st \<Longrightarrow> \<exists>st'. close_op p st = Some (SUCCESS, st') \<and> shaped_op p st'"
proof (induction p st rule: ready_op.induct)
  case (7 lc rc st)
  from "7.prems" obtain l r j where st: "st = JoinS l r j" "ready_op lc l" "if right_closed j then shaped_op rc r \<and> round_done j else ready_op rc r"
    by (auto split: pstate.splits)
  from "7.IH"(1) [OF st(1,2)] obtain l' where l': "close_op lc l = Some (SUCCESS, l')" "shaped_op lc l'" by blast
  show ?case
  proof (cases "right_closed j")
    case False
    with "7.IH"(2) [OF st(1) False] st(3) obtain r' where "close_op rc r = Some (SUCCESS, r')" "shaped_op rc r'" by auto
    with l' st(1) False show ?thesis by simp
  qed (use st l' in simp)
qed (fastforce split: pstate.splits option.splits)+

lemma operator_contract:
  "physical_operator (open_op lib env p) (next_op lib env p) (close_op p) (shaped_op p) (ready_op p)"
proof (induction p)
  case (TableScanOp table mode ps)
  show ?case
    by (unfold_locales; (rule ready_op_shaped | rule close_op_ready)?)
      (auto split: pstate.splits sum.splits option.splits dest!: table_scan_next_state)
next
  case (IndexScanOp table index mode lv rv ps)
  show ?case
    by (unfold_locales; (rule ready_op_shaped | rule close_op_ready)?)
      (auto split: pstate.splits sum.splits option.splits dest!: index_scan_next_state)
next
  case (VectorScanOp table index query limit ps)
  show ?case
    by (unfold_locales; (rule ready_op_shaped | rule close_op_ready)?)
      (auto split: pstate.splits sum.splits option.splits if_splits dest!: vector_scan_next_state)
next
  case (PredicateOp e c)
  note child = physical_operator.open_shaped [OF PredicateOp] physical_operator.predicate_ready [OF PredicateOp]
  show ?case
    by (unfold_locales; (rule ready_op_shaped | rule close_op_ready)?)
      (auto split: pstate.splits dest: child)
next
  case (LimitOp n c)
  show ?case
  proof (cases c)
    case None
    then show ?thesis by (unfold_locales; (rule ready_op_shaped | rule close_op_ready)?) (auto split: pstate.splits option.splits)
  next
    case (Some c')
    with LimitOp have IH: "physical_operator (open_op lib env c') (next_op lib env c') (close_op c') (shaped_op c') (ready_op c')" by simp
    note child = physical_operator.open_shaped [OF IH] physical_operator.limit_ready [OF IH]
    show ?thesis
      by (unfold_locales; (rule ready_op_shaped | rule close_op_ready)?)
        (auto simp: Some split: pstate.splits option.splits dest: child)
  qed
next
  case (JoinOp lc rc)
  note round = physical_operator.round_state_def [OF JoinOp(2)]
  have step: "ready_op (JoinOp lc rc) (JoinS l' r' j')"
    if "ready_op (JoinOp lc rc) (JoinS l r j)"
      "join_next (left_next (next_op lib env lc) (current_op env lc))
        (right_next (open_op lib env rc) (next_op lib env rc) (close_op rc) (current_op env rc)) l r j = Some (code, l', r', j')"
    for l r j code l' r' j'
  proof -
    let ?R = "physical_operator.round_state (shaped_op rc) (ready_op rc)"
    have "ready_op lc l' \<and> ?R j' r'"
    proof (rule join_next_keeps [OF that(2)])
      show "\<forall>l r j code l' j'. ready_op lc l \<longrightarrow> ?R j r \<longrightarrow>
          left_next (next_op lib env lc) (current_op env lc) l j = Some (code, l', j') \<longrightarrow> ready_op lc l' \<and> ?R j' r"
      proof (intro allI impI)
        fix l r j code l' j'
        assume "ready_op lc l" and R: "?R j r" and "left_next (next_op lib env lc) (current_op env lc) l j = Some (code, l', j')"
        from physical_operator.left_next_ready [OF JoinOp(1) this(1,3)] R show "ready_op lc l' \<and> ?R j' r" by (simp add: round)
      qed
      show "\<forall>r j code r' j'. ?R j r \<longrightarrow>
          right_next (open_op lib env rc) (next_op lib env rc) (close_op rc) (current_op env rc) r j = Some (code, r', j') \<longrightarrow>
          ?R j' r' \<and> ?R (j'\<lparr>round_done := True\<rparr>) r'"
        by (intro allI impI) (rule physical_operator.right_next_state [OF JoinOp(2)])
    qed (use that(1) in \<open>simp_all add: round\<close>)
    then show ?thesis by (simp add: round)
  qed
  have steps: "ready_op (JoinOp lc rc) st'" if "ready_op (JoinOp lc rc) st" "next_op lib env (JoinOp lc rc) st = Some (code, st')" for st code st'
  proof (cases st)
    case (JoinS l r j)
    with that(2) obtain l' r' j' where
      "join_next (left_next (next_op lib env lc) (current_op env lc))
        (right_next (open_op lib env rc) (next_op lib env rc) (close_op rc) (current_op env rc)) l r j = Some (code, l', r', j')"
      "st' = JoinS l' r' j'" by auto
    with step [of l r j] that(1) JoinS show ?thesis by blast
  qed (use that in auto)
  show ?case
    by (unfold_locales; (rule ready_op_shaped | rule close_op_ready | rule steps; assumption)?)
      (auto split: pstate.splits dest: physical_operator.open_shaped [OF JoinOp(1)])
next
  case (OrderByOp es ascs c)
  show ?case
  proof (cases c)
    case None
    then show ?thesis by (unfold_locales; (rule ready_op_shaped | rule close_op_ready)?) (auto split: pstate.splits option.splits)
  next
    case (Some c')
    with OrderByOp have IH: "physical_operator (open_op lib env c') (next_op lib env c') (close_op c') (shaped_op c') (ready_op c')" by simp
    note child = physical_operator.open_shaped [OF IH] physical_operator.opened_fetch [OF IH]
    show ?thesis
      by (unfold_locales; (rule ready_op_shaped | rule close_op_ready)?)
        (auto simp: Some bind_eq_Some_conv split: pstate.splits option.splits if_splits dest: child)
  qed
qed

interpretation operator_of: physical_operator "open_op lib env p" "next_op lib env p" "close_op p" "shaped_op p" "ready_op p"
  for lib env p
  by (rule operator_contract)

section \<open>Rows of a join\<close>

lemma scan_all_next:
  "next_op lib env (TableScanOp t m []) (TableScanS (Some (r # rs, e)) cur) = Some (SUCCESS, TableScanS (Some (rs, e)) r)"
  "next_op lib env (TableScanOp t m []) (TableScanS (Some ([], e)) cur) = Some (e, TableScanS (Some ([], e)) cur)"
  by simp_all

text \<open>A round over the right rows is passed without a stop.\<close>

lemma join_round:
  fixes lib env t m
  defines "rc \<equiv> TableScanOp t m []"
  assumes "left_tuple j \<noteq> None" "\<not> round_done j" "\<not> right_closed j"
  shows "\<exists>cur' j'. round_done j' \<and> \<not> right_closed j' \<and>
    join_next lnext (right_next (open_op lib env rc) (next_op lib env rc) (close_op rc) (current_op env rc)) l
      (TableScanS (Some (rs, RECORD_EOF)) cur) j =
    join_next lnext (right_next (open_op lib env rc) (next_op lib env rc) (close_op rc) (current_op env rc)) l
      (TableScanS (Some ([], RECORD_EOF)) cur') j'"
  using assms(2-)
proof (induction rs arbitrary: cur j)
  case Nil
  then show ?case
    by (intro exI [of _ cur] exI [of _ "j\<lparr>round_done := True\<rparr>"], subst join_next.simps)
      (auto simp: right_next_def right_round_def rc_def scan_all_next simp del: next_op.simps)
next
  case (Cons r rs)
  let ?rn = "right_next (open_op lib env rc) (next_op lib env rc) (close_op rc) (current_op env rc)"
  let ?j = "j\<lparr>right_tuple := Some (row_tuple env t r)\<rparr>"
  have "join_next lnext ?rn l (TableScanS (Some (r # rs, RECORD_EOF)) cur) j = join_next lnext ?rn l (TableScanS (Some (rs, RECORD_EOF)) r) ?j"
    using Cons.prems
    by (subst join_next.simps) (auto simp: right_next_def right_round_def rc_def scan_all_next simp del: next_op.simps)
  with Cons.IH [of ?j r] Cons.prems show ?case by simp
qed

lemma join_empty:
  fixes lib env t1 m1 t2 m2
  defines "lc \<equiv> TableScanOp t1 m1 []" and "rc \<equiv> TableScanOp t2 m2 []"
  assumes "ee_scanner env t2 m2 = Inr (rs2, RECORD_EOF)" "round_done j"
  shows "\<exists>l' r' j'. join_next (left_next (next_op lib env lc) (current_op env lc))
    (right_next (open_op lib env rc) (next_op lib env rc) (close_op rc) (current_op env rc))
    (TableScanS (Some (rs1, RECORD_EOF)) cur) (TableScanS sc cur2) j = Some (RECORD_EOF, l', r', j')"
  using assms(4)
proof (induction rs1 arbitrary: cur sc cur2 j)
  case Nil
  then show ?case
    by (subst join_next.simps) (auto simp: left_next_def lc_def scan_all_next simp del: next_op.simps)
next
  case (Cons r rs)
  let ?ln = "left_next (next_op lib env lc) (current_op env lc)"
  let ?rn = "right_next (open_op lib env rc) (next_op lib env rc) (close_op rc) (current_op env rc)"
  let ?l = "TableScanS (Some (rs, RECORD_EOF)) r"
  let ?j = "j\<lparr>left_tuple := Some (row_tuple env t1 r)\<rparr>"
  have left: "?ln (TableScanS (Some (r # rs, RECORD_EOF)) cur) j = Some (SUCCESS, ?l, ?j)"
    by (simp add: left_next_def lc_def scan_all_next del: next_op.simps)
  have round: "right_round (open_op lib env rc) (close_op rc) (TableScanS sc cur2) ?j =
      Some (SUCCESS, TableScanS (Some (rs2, RECORD_EOF)) cur2, ?j\<lparr>right_closed := False, round_done := False\<rparr>)"
    using Cons.prems assms(3) by (auto simp: right_round_def rc_def Let_def)
  show ?case
  proof (cases rs2)
    case Nil
    with round have "?rn (TableScanS sc cur2) ?j =
        Some (RECORD_EOF, TableScanS (Some ([], RECORD_EOF)) cur2, ?j\<lparr>right_closed := False, round_done := True\<rparr>)"
      by (simp add: right_next_def rc_def scan_all_next del: next_op.simps)
    with left Cons.prems have "join_next ?ln ?rn (TableScanS (Some (r # rs, RECORD_EOF)) cur) (TableScanS sc cur2) j =
        join_next ?ln ?rn ?l (TableScanS (Some ([], RECORD_EOF)) cur2) (?j\<lparr>right_closed := False, round_done := True\<rparr>)"
      by (subst join_next.simps) simp
    with Cons.IH show ?thesis by simp
  next
    case right: (Cons y ys)
    let ?j2 = "?j\<lparr>right_closed := False, round_done := False, right_tuple := Some (row_tuple env t2 y)\<rparr>"
    from round right have "?rn (TableScanS sc cur2) ?j = Some (SUCCESS, TableScanS (Some (ys, RECORD_EOF)) y, ?j2)"
      by (simp add: right_next_def rc_def scan_all_next del: next_op.simps)
    with left Cons.prems have "join_next ?ln ?rn (TableScanS (Some (r # rs, RECORD_EOF)) cur) (TableScanS sc cur2) j =
        join_next ?ln ?rn ?l (TableScanS (Some (ys, RECORD_EOF)) y) ?j2"
      by (subst join_next.simps) simp
    moreover obtain c' j' where "round_done j'" "join_next ?ln ?rn ?l (TableScanS (Some (ys, RECORD_EOF)) y) ?j2 =
        join_next ?ln ?rn ?l (TableScanS (Some ([], RECORD_EOF)) c') j'"
      using join_round [of ?j2 ?ln lib env t2 m2 ?l ys y] by (auto simp: rc_def)
    ultimately show ?thesis using Cons.IH by simp
  qed
qed

section \<open>Calls of an operator\<close>

fun next_times :: "float_text \<Rightarrow> exec_env \<Rightarrow> phys \<Rightarrow> nat \<Rightarrow> pstate \<Rightarrow> pstate option" where
  "next_times lib env p 0 s = Some s"
| "next_times lib env p (Suc n) s = Option.bind (next_op lib env p s) (\<lambda>(rc, s'). next_times lib env p n s')"

lemma shaped_init: "shaped_op p (init_op p)"
proof (induction p)
  case (LimitOp n c)
  then show ?case by (cases c) auto
next
  case (OrderByOp es ascs c)
  then show ?case by (cases c) auto
qed auto

lemma next_times_ready: "ready_op p s \<Longrightarrow> next_times lib env p n s = Some s' \<Longrightarrow> ready_op p s'"
  by (induction n arbitrary: s) (auto simp: bind_eq_Some_conv dest: operator_of.next_ready)

text \<open>Two tables of one column with one row each, the second one with an index.\<close>

definition sample_env :: exec_env where
  "sample_env = \<lparr> ee_fields = (\<lambda>_. [id_field]), ee_scanner = (\<lambda>_ _. Inr ([[5, 0, 0, 0]], RECORD_EOF)),
    ee_find_index = (\<lambda>_ _. None), ee_index_scanner = (\<lambda>_ _ _ _. Some ([], RECORD_EOF)), ee_ann_search = (\<lambda>_ _ _ _. None),
    ee_get_record = (\<lambda>_ _. Inl RECORD_NOT_EXIST), ee_visit_record = (\<lambda>_ _ _. SUCCESS), ee_sort = (\<lambda>_ xs. xs) \<rparr>"

definition sample_join :: phys where
  "sample_join = JoinOp (TableScanOp ''a'' READ_ONLY []) (IndexScanOp ''b'' ''i'' READ_ONLY (IntValue 5) (IntValue 5) [])"

lemma sample_join_run:
  "\<exists>s s'. open_op sample_text sample_env sample_join (init_op sample_join) = Some (SUCCESS, s) \<and>
    next_times sample_text sample_env sample_join 1 s = Some s'"
  by (simp add: sample_join_def sample_env_def join_next.simps left_next_def right_next_def right_round_def row_tuple_def)

section \<open>Properties\<close>

text \<open>
  C38: an opened plan can be closed.  After a successful \<^verbatim>\<open>open\<close> of any tree of operators and any number of
  calls of \<^verbatim>\<open>next\<close>, \<^verbatim>\<open>close\<close> succeeds: no scanner is closed twice and none that was not opened.
\<close>

theorem operators_close:
  assumes "open_op lib env p (init_op p) = Some (SUCCESS, s)" "next_times lib env p n s = Some s'"
  shows "\<exists>s''. close_op p s' = Some (SUCCESS, s'')"
proof -
  have "ready_op p s" using operator_of.open_shaped [OF shaped_init assms(1)] by simp
  then have "ready_op p s'" using next_times_ready assms(2) by blast
  then show ?thesis using operator_of.close_ready by blast
qed

theorem operators_close_witness:
  "\<exists>s s' s''. open_op sample_text sample_env sample_join (init_op sample_join) = Some (SUCCESS, s) \<and>
    next_times sample_text sample_env sample_join 1 s = Some s' \<and> close_op sample_join s' = Some (SUCCESS, s'')"
  using sample_join_run operators_close by blast



end
