(* ===== verification/Sql_Select.thy ===== *)
theory Sql_Select
  imports Sql_Rows
begin

text \<open>
  The optimizer on queries over one table: the plan that the loop of rewriting returns writes the same
  rows as the plan it was given.  Conditions are described by their atoms; the operators that
  deliver rows share the locale \<open>row_source\<close>, with the rows that are written as a reference.
\<close>

section \<open>Rows of a source\<close>

text \<open>
  The rows of a source for which a condition holds, as they are written; the first code that is not
  \<^verbatim>\<open>SUCCESS\<close> ends them.
\<close>

fun select_rows :: "float_text \<Rightarrow> ('r \<Rightarrow> (RC + bool) option) \<Rightarrow> ('r \<Rightarrow> tuple) \<Rightarrow> expr list \<Rightarrow> 'r list \<Rightarrow>
    byte list \<Rightarrow> (RC \<times> byte list) option" where
  "select_rows lib W row es [] out = Some (SUCCESS, out)"
| "select_rows lib W row es (r # rs) out =
    (case W r of
       None \<Rightarrow> None
     | Some (Inl rc) \<Rightarrow> Some (if rc = RECORD_EOF then SUCCESS else rc, out)
     | Some (Inr False) \<Rightarrow> select_rows lib W row es rs out
     | Some (Inr True) \<Rightarrow>
         Option.bind (write_cells lib (Some (row r)) es out) (\<lambda>(rc, out').
           if rc \<noteq> SUCCESS then Some (rc, out') else select_rows lib W row es rs (out' @ [10])))"

text \<open>
  A source walks over items (\<open>'r\<close>), for each of which the condition \<open>W\<close> has a result; it holds the \<open>data\<close> of the
  item it has come to.
\<close>

locale row_source =
  fixes src_next :: "'s \<Rightarrow> (RC \<times> 's) option"
    and src_current :: "'s \<Rightarrow> tuple option"
    and src_state :: "'r list \<Rightarrow> byte list \<Rightarrow> 's"
    and data :: "'r \<Rightarrow> byte list"
    and row :: "byte list \<Rightarrow> tuple"
    and W :: "'r \<Rightarrow> (RC + bool) option"
  assumes no_more: "src_next (src_state [] cur) = Some (RECORD_EOF, src_state [] cur)"
    and stuck: "W r = None \<Longrightarrow> src_next (src_state (r # rs) cur) = None"
    and fails: "W r = Some (Inl rc) \<Longrightarrow> \<exists>s. src_next (src_state (r # rs) cur) = Some (rc, s)"
    and found: "W r = Some (Inr True) \<Longrightarrow> src_next (src_state (r # rs) cur) = Some (SUCCESS, src_state rs (data r))"
    and skipped: "W r = Some (Inr False) \<Longrightarrow> src_next (src_state (r # rs) cur) = src_next (src_state rs (data r))"
    and current: "src_current (src_state rs cur) = Some (row cur)"
begin

lemma written:
  assumes "\<forall>r \<in> set rs. W r \<noteq> Some (Inl SUCCESS)"
  shows "write_tuple_result lib es src_next src_current (src_state rs cur) out = select_rows lib W (\<lambda>r. row (data r)) es rs out"
  using assms
proof (induction rs arbitrary: cur out)
  case Nil
  then show ?case by (simp add: write_tuple_result.simps no_more)
next
  case (Cons r rs)
  show ?case
  proof (cases "W r")
    case None
    then show ?thesis by (simp add: write_tuple_result.simps stuck)
  next
    case (Some w)
    show ?thesis
    proof (cases w)
      case (Inl rc)
      with Some fails [of r rc rs cur] Cons.prems show ?thesis by (auto simp: write_tuple_result.simps)
    next
      case (Inr b)
      show ?thesis
      proof (cases b)
        case True
        with Some Inr Cons show ?thesis
          by (subst write_tuple_result.simps) (simp add: found current cong: if_cong)
      next
        case False
        with Some Inr have "write_tuple_result lib es src_next src_current (src_state (r # rs) cur) out =
            write_tuple_result lib es src_next src_current (src_state rs (data r)) out"
          by (subst (1 2) write_tuple_result.simps) (simp add: skipped)
        with Some Inr False Cons show ?thesis by simp
      qed
    qed
  qed
qed

end

lemma all_true_error: "(\<And>x. x \<in> set xs \<Longrightarrow> x \<noteq> Some (Inl SUCCESS)) \<Longrightarrow> all_true xs \<noteq> Some (Inl SUCCESS)"
  by (induction xs) auto

lemma filter_error: "all_true (map (truth lib t) ps) \<noteq> Some (Inl SUCCESS)"
  by (rule all_true_error) (auto simp: truth_error)

interpretation scan_rows: row_source "next_op lib env (TableScanOp t m ps)" "current_op env (TableScanOp t m ps)"
    "\<lambda>rs cur. TableScanS (Some (rs, RECORD_EOF)) cur" "\<lambda>r. r" "row_tuple env t" "\<lambda>r. all_true (map (truth lib (row_tuple env t r)) ps)"
  for lib env t m ps
  by unfold_locales (auto simp: filter_tuple_truth)

lemma predicate_next_truth:
  assumes "nxt s = Some (SUCCESS, s')" "cur s' = Some x"
  shows "predicate_next lib e nxt cur s =
    (case truth lib x e of
       None \<Rightarrow> None
     | Some (Inl rc) \<Rightarrow> Some (rc, s')
     | Some (Inr b) \<Rightarrow> if b then Some (SUCCESS, s') else predicate_next lib e nxt cur s')"
  by (subst predicate_next.simps; cases "get_value lib x e"; cases "the (get_value lib x e)") (simp_all add: assms truth_def)

lemma predicate_next_cong: "nxt s = nxt s' \<Longrightarrow> predicate_next lib e nxt cur s = predicate_next lib e nxt cur s'"
  by (subst (1 2) predicate_next.simps) simp

lemma predicate_next_stop: "nxt s = None \<Longrightarrow> predicate_next lib e nxt cur s = None"
  "nxt s = Some (rc, s') \<Longrightarrow> rc \<noteq> SUCCESS \<Longrightarrow> predicate_next lib e nxt cur s = Some (rc, s')"
  by (simp_all add: predicate_next.simps)

interpretation filtered_rows: row_source "next_op lib env (PredicateOp e (TableScanOp t m ps))"
    "current_op env (PredicateOp e (TableScanOp t m ps))"
    "\<lambda>rs cur. PredicateS (TableScanS (Some (rs, RECORD_EOF)) cur)" "\<lambda>r. r" "row_tuple env t"
    "\<lambda>r. all_true (map (truth lib (row_tuple env t r)) (ps @ [e]))"
  for lib env e t m ps
proof -
  let ?nxt = "next_op lib env (TableScanOp t m ps)" and ?cur = "current_op env (TableScanOp t m ps)"
  let ?st = "\<lambda>rs cur. TableScanS (Some (rs, RECORD_EOF)) cur"
  let ?W = "\<lambda>r. all_true (map (truth lib (row_tuple env t r)) ps)" and ?V = "\<lambda>r. all_true (map (truth lib (row_tuple env t r)) (ps @ [e]))"
  let ?pn = "predicate_next lib e ?nxt ?cur"
  have passed: "?pn (?st (r # rs) cur) =
      (case truth lib (row_tuple env t r) e of
         None \<Rightarrow> None
       | Some (Inl rc) \<Rightarrow> Some (rc, ?st rs r)
       | Some (Inr b) \<Rightarrow> if b then Some (SUCCESS, ?st rs r) else ?pn (?st rs r))" if "?W r = Some (Inr True)" for r rs cur
    by (rule predicate_next_truth) (use scan_rows.found [OF that] in simp_all)
  have nil: "?pn (?st [] cur) = Some (RECORD_EOF, ?st [] cur)" for cur
    by (rule predicate_next_stop(2) [of ?nxt, OF scan_rows.no_more]) simp
  have none: "?pn (?st (r # rs) cur) = None" if "?V r = None" for r rs cur
  proof (cases "?W r = Some (Inr True)")
    case False
    with that have "?W r = None" by (simp add: all_true_append)
    from predicate_next_stop(1) [of ?nxt, OF scan_rows.stuck [OF this]] show ?thesis .
  qed (use that passed in \<open>simp add: all_true_append split: if_splits\<close>)
  have error: "\<exists>s. ?pn (?st (r # rs) cur) = Some (rc, s)" if "?V r = Some (Inl rc)" for r rs cur rc
  proof (cases "?W r = Some (Inr True)")
    case False
    with that have w: "?W r = Some (Inl rc)" by (simp add: all_true_append)
    moreover have "rc \<noteq> SUCCESS" using filter_error [of lib "row_tuple env t r" ps] w by auto
    ultimately show ?thesis using scan_rows.fails [OF w] predicate_next_stop(2) [of ?nxt] by blast
  qed (use that passed in \<open>simp add: all_true_append split: if_splits\<close>)
  have hit: "?pn (?st (r # rs) cur) = Some (SUCCESS, ?st rs r)" if "?V r = Some (Inr True)" for r rs cur
    using that passed [of r] by (auto simp: all_true_append split: if_splits)
  have miss: "?pn (?st (r # rs) cur) = ?pn (?st rs r)" if "?V r = Some (Inr False)" for r rs cur
  proof (cases "?W r = Some (Inr True)")
    case False
    with that have "?W r = Some (Inr False)" by (simp add: all_true_append)
    from predicate_next_cong [of ?nxt, OF scan_rows.skipped [OF this]] show ?thesis .
  qed (use that passed in \<open>simp add: all_true_append split: if_splits\<close>)
  show "row_source (next_op lib env (PredicateOp e (TableScanOp t m ps))) (current_op env (PredicateOp e (TableScanOp t m ps)))
      (\<lambda>rs cur. PredicateS (?st rs cur)) (\<lambda>r. r) (row_tuple env t) ?V"
  proof
    show "\<exists>s. next_op lib env (PredicateOp e (TableScanOp t m ps)) (PredicateS (?st (r # rs) cur)) = Some (rc, s)"
      if "?V r = Some (Inl rc)" for r rc rs cur
      using error [OF that, of rs cur] by auto
  qed (simp_all add: nil none hit miss del: map_append)
qed

section \<open>Atoms of a condition\<close>

abbreviation true_const :: expr where "true_const \<equiv> ValueExpr (BoolValue True)"

fun is_comparison :: "expr \<Rightarrow> bool" where
  "is_comparison (ComparisonExpr _ _ _) \<longleftrightarrow> True"
| "is_comparison _ \<longleftrightarrow> False"

lemma condition_not_conjunction: "condition e \<Longrightarrow> (\<And>ct es. e \<noteq> ConjunctionExpr ct es) \<Longrightarrow> plain e \<and> atoms e = [e]"
  by (cases e) auto

lemma truth_atoms: "condition e \<Longrightarrow> truth lib t e = all_true (map (truth lib t) (atoms e))"
proof (induction e rule: atoms.induct)
  case (1 ct es)
  then have es: "map (truth lib t) es = map (\<lambda>x. all_true (map (truth lib t) (atoms x))) es" by (simp add: list_all_iff)
  have "all_true (map (\<lambda>x. all_true (map (truth lib t) (atoms x))) xs) = all_true (map (truth lib t) (concat (map atoms xs)))" for xs
    by (induction xs) (auto simp: all_true_append)
  from this [of es] 1 show ?case unfolding es [symmetric] by (simp add: truth_conjunction)
qed (auto split: if_splits)

lemma conjunction_rule_atoms:
  assumes "condition e" "live lib e" "conjunction_rule e = (c, e')"
  shows "set (atoms e') \<subseteq> set (atoms e)"
proof (cases e)
  case (ConjunctionExpr ct es)
  let ?ks = "filter (\<lambda>e. e \<noteq> true_const) es"
  have ct: "ct = ConjAnd" using assms(1) ConjunctionExpr by simp
  have "x \<noteq> ValueExpr (BoolValue False)" if "x \<in> set es" for x
    using that assms(2) by (force simp: ConjunctionExpr live_def)
  then have "simplify_children ct [] es = Inr ?ks" unfolding ct by (simp add: simplify_children_live)
  moreover have "hd ?ks \<in> set es" if "length ?ks = 1" using that hd_in_set [of ?ks] by fastforce
  ultimately show ?thesis using assms(3) by (auto simp: conjunction_rule_def ConjunctionExpr split: if_splits)
qed (use assms in \<open>auto simp: conjunction_rule_def\<close>)

definition atom_after :: "float_text \<Rightarrow> expr list \<Rightarrow> expr \<Rightarrow> bool" where
  "atom_after lib as a' \<longleftrightarrow> (\<exists>a \<in> set as. a' = a \<or> (\<exists>d. rewrite_expression lib a = Some (d, a')))"

lemma atom_after_mono: "atom_after lib as a \<Longrightarrow> set as \<subseteq> set bs \<Longrightarrow> atom_after lib bs a"
  by (auto simp: atom_after_def)

lemma rewrite_atoms:
  "condition e \<Longrightarrow> live lib e \<Longrightarrow> rewrite_expression lib e = Some (c, e') \<Longrightarrow> list_all (atom_after lib (atoms e)) (atoms e')"
  "list_all condition es \<Longrightarrow> list_all (live lib) es \<Longrightarrow> rewrite_children lib es = Some (d, es') \<Longrightarrow>
    list_all (atom_after lib (concat (map atoms es))) (concat (map atoms es'))"
proof (induction lib e and lib es arbitrary: c e' and d es' rule: rewrite_expression_rewrite_children.induct)
  case (1 lib e)
  show ?case
  proof (cases "plain e")
    case True
    with plain_rewrite(1) [OF True "1.prems"(3)] "1.prems"(3) plain_condition [of e] plain_condition [of e'] show ?thesis
      by (auto simp: atom_after_def)
  next
    case False
    with "1.prems"(1) obtain es where e: "e = ConjunctionExpr ConjAnd es" by (cases e) auto
    have r: "comparison_rule lib e = Some (False, e)" by (simp add: comparison_rule_def e)
    obtain c2 e2 where cr: "conjunction_rule e = (c2, e2)" by fastforce
    note sound = conjunction_rule_sound [OF "1.prems"(1,2) cr] and sub = conjunction_rule_atoms [OF "1.prems"(1,2) cr]
    show ?thesis
    proof (cases c2)
      case True
      with "1.prems"(3) sub show ?thesis by (auto simp: rewrite_expression_rules [OF r cr] list_all_iff atom_after_def)
    next
      case no: False
      with sound False obtain ks where ks: "e2 = ConjunctionExpr ConjAnd ks" by auto
      with "1.prems"(3) no obtain ks' where ks': "rewrite_children lib ks = Some (c, ks')" "e' = ConjunctionExpr ConjAnd ks'"
        by (auto simp: rewrite_expression_rules [OF r cr])
      have "list_all condition ks" "list_all (live lib) ks" using sound by (auto simp: ks live_def list_all_iff)
      then have "list_all (atom_after lib (concat (map atoms ks))) (concat (map atoms ks'))"
        by (intro "1.IH"(4) [OF r refl cr [symmetric] _ ks _ _ ks'(1)]) (use no in simp_all)
      with sub atom_after_mono [of lib "concat (map atoms ks)" _ "atoms e"] show ?thesis
        unfolding list_all_iff ks ks'(2) by simp
    qed
  qed
next
  case (3 lib e es)
  from "3.prems"(3) obtain c1 x c2 xs where r: "rewrite_expression lib e = Some (c1, x)" "rewrite_children lib es = Some (c2, xs)" "es' = x # xs"
    by (auto simp: bind_eq_Some_conv)
  have "list_all (atom_after lib (atoms e)) (atoms x)" using "3.IH"(1) [OF _ _ r(1)] "3.prems" by simp
  moreover have "list_all (atom_after lib (concat (map atoms es))) (concat (map atoms xs))"
    using "3.IH"(2) [OF r(1) refl _ _ r(2)] "3.prems" by simp
  ultimately show ?case unfolding r(3) list_all_iff
    using atom_after_mono [of lib "atoms e" _ "concat (map atoms (e # es))"]
      atom_after_mono [of lib "concat (map atoms es)" _ "concat (map atoms (e # es))"] by simp blast
qed simp

text \<open>The conditions of a plan: comparisons, and true constants where a comparison was folded.\<close>

definition filter_cond :: "expr \<Rightarrow> bool" where
  "filter_cond e \<longleftrightarrow> condition e \<and> list_all (\<lambda>a. is_comparison a \<or> a = true_const) (atoms e)"

definition trivial_cond :: "expr \<Rightarrow> bool" where
  "trivial_cond e \<longleftrightarrow> condition e \<and> list_all (\<lambda>a. a = true_const) (atoms e)"

lemma true_const_rewrite: "rewrite_expression lib true_const = Some (False, true_const)"
  by (subst rewrite_expression_rules [of lib true_const False true_const False true_const])
    (simp_all add: comparison_rule_def conjunction_rule_def)

lemma comparison_rewrite:
  assumes "plain a" "is_comparison a" "\<exists>t. get_value lib t a \<noteq> Some (Inr (BoolValue False))" "rewrite_expression lib a = Some (d, a')"
  shows "is_comparison a' \<or> a' = true_const"
proof -
  from assms(4) obtain c1 e1 where r: "comparison_rule lib a = Some (c1, e1)" by (rule rewrite_expression_rulesE)
  then show ?thesis
  proof (cases rule: comparison_rule_cases)
    case same
    from assms(2) obtain op l r' where a: "a = ComparisonExpr op l r'" by (cases a) auto
    from rewrite_expression_rules [OF r conjunction_rule_other [of e1]] same assms(4) show ?thesis
      by (auto simp: a bind_eq_Some_conv)
  next
    case (folded op x y v)
    then obtain b where v: "v = BoolValue b"
      by (cases "compare_value lib op x y"; cases "the (compare_value lib op x y)") auto
    from rewrite_expression_rules [OF r conjunction_rule_other [of e1]] folded assms(4) have "a' = ValueExpr (BoolValue b)"
      by (simp add: v)
    with plain_rewrite(1) [OF assms(1,4)] assms(3) show ?thesis by (cases b) (auto simp: same_value_def)
  qed
qed

lemma rewrite_filter:
  assumes "filter_cond e" "live lib e" "rewrite_expression lib e = Some (c, e')"
  shows "filter_cond e' \<and> live lib e' \<and> same_truth lib e e' \<and> (trivial_cond e \<longrightarrow> trivial_cond e')"
proof -
  have e: "condition e" using assms(1) by (simp add: filter_cond_def)
  note sound = rewrite_condition(1) [OF e assms(2,3)] and after = rewrite_atoms(1) [OF e assms(2,3)]
  have plain: "plain a" if "a \<in> set (atoms e)" for a using that e
    by (induction e rule: atoms.induct) (auto simp: list_all_iff)
  have "is_comparison a' \<or> a' = true_const" if "a' \<in> set (atoms e')" for a'
  proof -
    from that after obtain a where a: "a \<in> set (atoms e)" "a' = a \<or> (\<exists>d. rewrite_expression lib a = Some (d, a'))"
      by (auto simp: list_all_iff atom_after_def)
    moreover from a assms(1,2) have "is_comparison a \<or> a = true_const" "\<exists>t. get_value lib t a \<noteq> Some (Inr (BoolValue False))"
      by (auto simp: filter_cond_def live_def list_all_iff)
    ultimately show ?thesis using comparison_rewrite [OF plain [OF a(1)]] by (auto simp: true_const_rewrite)
  qed
  moreover have "a' = true_const" if "a' \<in> set (atoms e')" "trivial_cond e" for a'
  proof -
    from that(1) after obtain a where a: "a \<in> set (atoms e)" "a' = a \<or> (\<exists>d. rewrite_expression lib a = Some (d, a'))"
      by (auto simp: list_all_iff atom_after_def)
    moreover from a(1) that(2) have "a = true_const" by (simp add: trivial_cond_def list_all_iff)
    ultimately show ?thesis by (auto simp: true_const_rewrite)
  qed
  ultimately show ?thesis using sound unfolding filter_cond_def trivial_cond_def list_all_iff by blast
qed

section \<open>Pushing conditions down\<close>

lemma pushdown_atoms:
  "condition e \<Longrightarrow> \<exists>rest. get_exprs_can_pushdown e = Inr (rest, filter is_comparison (atoms e)) \<and>
    (case rest of None \<Rightarrow> is_comparison e | Some x \<Rightarrow> condition x \<and> atoms x = filter (\<lambda>a. \<not> is_comparison a) (atoms e))"
  "list_all condition es \<Longrightarrow> \<exists>es'. pushdown_children es = Inr (es', filter is_comparison (concat (map atoms es))) \<and>
    list_all condition es' \<and> concat (map atoms es') = filter (\<lambda>a. \<not> is_comparison a) (concat (map atoms es))"
proof (induction e and es rule: get_exprs_can_pushdown_pushdown_children.induct)
  case (5 e es)
  from "5.IH"(1) "5.prems" obtain rest where e: "get_exprs_can_pushdown e = Inr (rest, filter is_comparison (atoms e))"
    "case rest of None \<Rightarrow> is_comparison e | Some x \<Rightarrow> condition x \<and> atoms x = filter (\<lambda>a. \<not> is_comparison a) (atoms e)"
    by auto
  from "5.IH"(2) [OF e(1) refl] "5.prems" obtain es' where "pushdown_children es = Inr (es', filter is_comparison (concat (map atoms es)))"
    "list_all condition es'" "concat (map atoms es') = filter (\<lambda>a. \<not> is_comparison a) (concat (map atoms es))"
    by auto
  with e show ?case by (cases rest; cases e) auto
qed auto

lemma all_true_nontrivial:
  "list_all (\<lambda>a. is_comparison a \<or> a = true_const) as \<Longrightarrow>
    all_true (map (truth lib t) as) = all_true (map (truth lib t) (filter is_comparison as))"
  by (induction as) (auto simp: truth_def)

lemma trivial_truth: "trivial_cond e \<Longrightarrow> truth lib t e = Some (Inr True)"
proof -
  have "list_all (\<lambda>a. a = true_const) as \<Longrightarrow> all_true (map (truth lib t) as) = Some (Inr True)" for as
    by (induction as) (auto simp: truth_def)
  then show "trivial_cond e \<Longrightarrow> ?thesis" by (simp add: truth_atoms trivial_cond_def)
qed

section \<open>Plans of a query\<close>

text \<open>
  The condition of a plan is split: what was pushed down to the table (\<open>ps\<close>) and what is left (\<open>e\<close>).  \<open>W\<close> is the
  condition of the query.
\<close>

definition where_state :: "float_text \<Rightarrow> (tuple \<Rightarrow> (RC + bool) option) \<Rightarrow> expr \<Rightarrow> expr list \<Rightarrow> bool" where
  "where_state lib W e ps \<longleftrightarrow> filter_cond e \<and> live lib e \<and> (ps = [] \<or> trivial_cond e) \<and>
    (\<forall>t. all_true (map (truth lib t) (ps @ [e])) = W t)"

lemma where_rewrite:
  "where_state lib W e ps \<Longrightarrow> rewrite_expression lib e = Some (c, e') \<Longrightarrow> where_state lib W e' ps"
  using rewrite_filter [of e lib c e'] by (auto simp: where_state_def same_truth_def all_true_append)

lemma trivial_filter: "trivial_cond e \<Longrightarrow> filter_cond e \<and> live lib e"
  by (auto simp: trivial_cond_def filter_cond_def live_def list_all_iff)

lemma where_pushdown:
  assumes "where_state lib W e ps"
  shows "\<exists>c e' ps'. predicate_pushdown (LOp PREDICATE [e] [LOp (TABLE_GET t m ps) [] []]) =
      Inr (c, LOp PREDICATE [e'] [LOp (TABLE_GET t m ps') [] []]) \<and> where_state lib W e' ps'"
proof -
  let ?push = "filter is_comparison (atoms e)"
  have e: "condition e" "list_all (\<lambda>a. is_comparison a \<or> a = true_const) (atoms e)" "ps = [] \<or> trivial_cond e"
    "\<And>t. all_true (map (truth lib t) (ps @ [e])) = W t"
    using assms by (simp_all add: where_state_def filter_cond_def)
  from pushdown_atoms(1) [OF e(1)] obtain rest where rest: "get_exprs_can_pushdown e = Inr (rest, ?push)"
    "case rest of None \<Rightarrow> is_comparison e | Some x \<Rightarrow> condition x \<and> atoms x = filter (\<lambda>a. \<not> is_comparison a) (atoms e)" by blast
  let ?e = "if is_empty_predicate rest then true_const else the rest"
  have e': "trivial_cond ?e" using rest(2) e(2)
    by (auto simp: is_empty_predicate_def trivial_cond_def list_all_iff split: option.splits)
  have "where_state lib W ?e (if ?push \<noteq> [] then ?push else ps)"
  proof (cases "?push = []")
    case True
    with e have "trivial_cond e" by (auto simp: trivial_cond_def list_all_iff filter_empty_conv)
    with True e(4) e' trivial_filter show ?thesis by (auto simp: where_state_def all_true_append trivial_truth)
  next
    case False
    then have "ps = []" using e(3) by (auto simp: trivial_cond_def list_all_iff filter_empty_conv)
    then have "all_true (map (truth lib t) ?push) = W t" for t
      using e(4) [of t] truth_atoms [OF e(1), of lib t] all_true_nontrivial [OF e(2), of lib t] by (simp split: if_splits)
    with False e' trivial_filter show ?thesis by (auto simp: where_state_def all_true_append trivial_truth)
  qed
  then show ?thesis using rest(1) by (auto simp: predicate_pushdown_def Let_def)
qed

definition select_plan :: "float_text \<Rightarrow> (tuple \<Rightarrow> (RC + bool) option) \<Rightarrow> expr list \<Rightarrow> string \<Rightarrow> ReadWriteMode \<Rightarrow> lop \<Rightarrow> bool" where
  "select_plan lib W es t m p \<longleftrightarrow> (\<exists>es' c. p = LOp PROJECTION es' [c] \<and> list_all plain es' \<and> list_all2 (same_value lib) es es' \<and>
    ((\<exists>e ps. c = LOp PREDICATE [e] [LOp (TABLE_GET t m ps) [] []] \<and> where_state lib W e ps) \<or>
     (\<exists>ps. c = LOp (TABLE_GET t m ps) [] [] \<and> (\<forall>x. all_true (map (truth lib x) ps) = W x))))"

lemma table_get_rewriter: "rewriter lib (LOp (TABLE_GET t m ps) [] []) = Some (Inr (False, LOp (TABLE_GET t m ps) [] []))"
  by (simp add: rewriter.simps rewrite_rules_def predicate_rewrite_def predicate_pushdown_def)

lemma predicate_rewriter:
  assumes "where_state lib W e ps" "rewriter lib (LOp PREDICATE [e] [LOp (TABLE_GET t m ps) [] []]) = Some (Inr (c, p'))"
  shows "\<exists>e' ps'. p' = LOp PREDICATE [e'] [LOp (TABLE_GET t m ps') [] []] \<and> where_state lib W e' ps'"
proof -
  from assms(2) obtain c1 e1 where e1: "rewrite_expression lib e = Some (c1, e1)"
    by (auto simp: rewriter.simps rewrite_rules_def bind_eq_Some_conv split: option.splits)
  then have er: "expression_rewriter lib (LOp PREDICATE [e] [LOp (TABLE_GET t m ps) [] []]) =
      Some (c1, LOp PREDICATE [e1] [LOp (TABLE_GET t m ps) [] []])" by simp
  from where_pushdown [OF where_rewrite [OF assms(1) e1]] obtain c3 e3 ps3 where
    pd: "predicate_pushdown (LOp PREDICATE [e1] [LOp (TABLE_GET t m ps) [] []]) = Inr (c3, LOp PREDICATE [e3] [LOp (TABLE_GET t m ps3) [] []])"
    "where_state lib W e3 ps3" by blast
  have "rewrite_rules lib (LOp PREDICATE [e] [LOp (TABLE_GET t m ps) [] []]) =
      Some (Inr (c1 \<or> c3, LOp PREDICATE [e3] [LOp (TABLE_GET t m ps3) [] []]))"
    by (simp add: rewrite_rules_def er pd(1) predicate_rewrite_def del: expression_rewriter.simps)
  with assms(2) pd(2) show ?thesis by (subst (asm) rewriter.simps) (auto simp: table_get_rewriter)
qed

lemma rewritten_columns:
  assumes "list_all plain es'" "list_all2 (same_value lib) es es'" "rewrite_children lib es' = Some (c, xs)"
  shows "list_all plain xs \<and> list_all2 (same_value lib) es xs"
  using plain_rewrite(2) [OF assms(1,3)] assms(2)
  by (auto simp: list_all2_conv_all_nth same_value_def)

lemma predicate_rewrite_top: "\<exists>c cs'. predicate_rewrite (LOp k es cs) = (c, LOp k es cs')"
  by (auto simp: predicate_rewrite_def split: list.splits lop.splits lop_type.splits expr.splits)

lemma pushdown_projection: "predicate_pushdown (LOp PROJECTION es cs) = Inr (False, LOp PROJECTION es cs)"
  by (simp add: predicate_pushdown_def)

lemma projection_rules:
  assumes "rewriter lib (LOp PROJECTION es [k]) = Some (Inr (c, p))"
  obtains c1 xs c2 k' c3 cs c4 cs' where "rewrite_children lib es = Some (c1, xs)" "expression_rewriter lib k = Some (c2, k')"
    "predicate_rewrite (LOp PROJECTION xs [k']) = (c3, LOp PROJECTION xs cs)" "rewriters lib cs = Some (Inr (c4, cs'))"
    "p = LOp PROJECTION xs cs'"
proof -
  from assms obtain c1 xs c2 k' where e: "rewrite_children lib es = Some (c1, xs)" "expression_rewriter lib k = Some (c2, k')"
    by (auto simp: rewriter.simps rewrite_rules_def bind_eq_Some_conv split: option.splits)
  obtain c3 cs where r: "predicate_rewrite (LOp PROJECTION xs [k']) = (c3, LOp PROJECTION xs cs)" using predicate_rewrite_top by blast
  have "rewrite_rules lib (LOp PROJECTION es [k]) = Some (Inr ((c1 \<or> c2) \<or> c3, LOp PROJECTION xs cs))"
    by (simp add: rewrite_rules_def e r pushdown_projection)
  with assms obtain c4 cs' where "rewriters lib cs = Some (Inr (c4, cs'))" "p = LOp PROJECTION xs cs'"
    by (subst (asm) rewriter.simps) (auto split: option.splits sum.splits)
  with e r that show thesis by blast
qed

lemma select_rewriter:
  assumes "select_plan lib W es t m p" "rewriter lib p = Some (Inr (c, p'))"
  shows "select_plan lib W es t m p'"
proof -
  from assms(1) obtain es' k where p: "p = LOp PROJECTION es' [k]" "list_all plain es'" "list_all2 (same_value lib) es es'"
    and k: "(\<exists>e ps. k = LOp PREDICATE [e] [LOp (TABLE_GET t m ps) [] []] \<and> where_state lib W e ps) \<or>
      (\<exists>ps. k = LOp (TABLE_GET t m ps) [] [] \<and> (\<forall>x. all_true (map (truth lib x) ps) = W x))"
    by (auto simp: select_plan_def)
  from assms(2) p obtain c1 xs c2 k' c3 cs c4 cs' where r: "rewrite_children lib es' = Some (c1, xs)" "expression_rewriter lib k = Some (c2, k')"
    "predicate_rewrite (LOp PROJECTION xs [k']) = (c3, LOp PROJECTION xs cs)" "rewriters lib cs = Some (Inr (c4, cs'))"
    "p' = LOp PROJECTION xs cs'" by (auto elim: projection_rules)
  note xs = rewritten_columns [OF p(2,3) r(1)]
  from k show ?thesis
  proof (elim disjE exE conjE)
    fix ps
    assume "k = LOp (TABLE_GET t m ps) [] []" "\<forall>x. all_true (map (truth lib x) ps) = W x"
    with r xs show ?thesis by (auto simp: select_plan_def predicate_rewrite_def table_get_rewriter)
  next
    fix e ps
    assume k: "k = LOp PREDICATE [e] [LOp (TABLE_GET t m ps) [] []]" and w: "where_state lib W e ps"
    from r(2) k obtain d e1 where e1: "rewrite_expression lib e = Some (d, e1)" "k' = LOp PREDICATE [e1] [LOp (TABLE_GET t m ps) [] []]"
      by (auto simp: bind_eq_Some_conv)
    note w1 = where_rewrite [OF w e1(1)]
    show ?thesis
    proof (cases "\<exists>v. e1 = ValueExpr v")
      case True
      with w1 have "e1 = true_const" by (auto simp: where_state_def filter_cond_def)
      with r(3) e1(2) have "cs = [LOp (TABLE_GET t m ps) [] []]" by (simp add: predicate_rewrite_def)
      with r(4) have cs': "cs' = [LOp (TABLE_GET t m ps) [] []]" by (simp add: table_get_rewriter)
      from w1 \<open>e1 = true_const\<close> have "all_true (map (truth lib x) ps) = W x" for x
        by (auto simp: where_state_def all_true_append truth_def dest!: spec [of _ x] split: if_splits)
      with cs' r(5) xs show ?thesis by (auto simp: select_plan_def)
    next
      case False
      with r(3) e1(2) have "cs = [k']" by (cases e1) (auto simp: predicate_rewrite_def)
      with r(4) obtain c5 k2 where k2: "rewriter lib k' = Some (Inr (c5, k2))" "cs' = [k2]"
        by (auto split: option.splits sum.splits)
      from predicate_rewriter [OF w1 k2(1) [unfolded e1(2)]] k2(2) r(5) xs show ?thesis by (auto simp: select_plan_def)
    qed
  qed
qed

lemma select_loop:
  assumes "select_plan lib W es t m p" "rewrite_loop lib p = Some (Some (Inr p'))"
  shows "select_plan lib W es t m p'"
  using assms
proof (induction "weight p" arbitrary: p rule: less_induct)
  case less
  from less.prems(2) obtain c p1 where r: "rewriter lib p = Some (Inr (c, p1))"
    by (subst (asm) rewrite_loop.simps) (auto split: option.splits sum.splits)
  note p1 = select_rewriter [OF less.prems(1) r]
  show ?case
  proof (cases c)
    case True
    with less.prems(2) r have "rewrite_loop lib p1 = Some (Some (Inr p'))" by (subst (asm) rewrite_loop.simps) simp
    moreover have "weight p1 < weight p" using rewriter_weight(1) [OF r] True by simp
    ultimately show ?thesis using less.hyps p1 by blast
  next
    case False
    with less.prems(2) r have "p' = p1" by (subst (asm) rewrite_loop.simps) simp
    with p1 show ?thesis by simp
  qed
qed

section \<open>Running the plans\<close>

lemma write_cells_same:
  "list_all2 (same_value lib) es es' \<Longrightarrow> write_cells lib (Some x) es' out = write_cells lib (Some x) es out"
proof (induction es es' arbitrary: out rule: list_all2_induct)
  case (Cons e es e' es')
  then have "es' = [] \<longleftrightarrow> es = []" by auto
  with Cons show ?case by (simp add: expression_cell_def same_value_def cong: if_cong)
qed simp

lemma select_rows_same:
  assumes "list_all2 (same_value lib) es es'"
  shows "select_rows lib W row es' rs out = select_rows lib W row es rs out"
  by (induction rs arbitrary: out)
    (simp_all add: write_cells_same [OF assms] cong: if_cong split: option.split sum.split bool.split)

lemma no_index_plan:
  assumes "\<forall>f. ee_find_index env t f = None"
  shows "table_get_plan lib env t m ps = Some (TableScanOp t m ps)"
proof -
  have "vector_query lib env t e = Some None" for e
    by (auto simp: vector_query_def assms split: expr.splits func_type.splits list.splits)
  then have "first_vector_query lib env t es = Some None" for es by (induction es) auto
  moreover have "index_query env t ps = None"
    by (induction ps) (auto simp: assms split: expr.splits)
  ultimately show ?thesis by (simp add: table_get_plan_def)
qed

lemma filter_cond_type: "filter_cond e \<Longrightarrow> value_type e = BOOLEANS"
  by (cases e) (auto simp: filter_cond_def)

lemma run_select:
  assumes "select_plan lib W es t m p" "\<forall>f. ee_find_index env t f = None" "ee_scanner env t m = Inr (rs, RECORD_EOF)"
  shows "run_plan lib env p = select_rows lib (\<lambda>r. W (row_tuple env t r)) (row_tuple env t) es rs []"
proof -
  note plan = no_index_plan [OF assms(2)]
  from assms(1) obtain es' k where p: "p = LOp PROJECTION es' [k]" "list_all2 (same_value lib) es es'"
    and k: "(\<exists>e ps. k = LOp PREDICATE [e] [LOp (TABLE_GET t m ps) [] []] \<and> where_state lib W e ps) \<or>
      (\<exists>ps. k = LOp (TABLE_GET t m ps) [] [] \<and> (\<forall>x. all_true (map (truth lib x) ps) = W x))"
    by (auto simp: select_plan_def)
  from k have "run_plan lib env p = select_rows lib (\<lambda>r. W (row_tuple env t r)) (row_tuple env t) es' rs []"
  proof (elim disjE exE conjE)
    fix ps
    assume k: "k = LOp (TABLE_GET t m ps) [] []" and "\<forall>x. all_true (map (truth lib x) ps) = W x"
    then have W: "(\<lambda>x. all_true (map (truth lib x) ps)) = W" by auto
    have "write_tuple_result lib es' (next_op lib env (TableScanOp t m ps)) (current_op env (TableScanOp t m ps))
        (TableScanS (Some (rs, RECORD_EOF)) []) [] = select_rows lib (\<lambda>r. W (row_tuple env t r)) (row_tuple env t) es' rs []"
      unfolding W [symmetric] by (rule scan_rows.written) (simp add: filter_error)
    with assms(3) plan show ?thesis
      by (simp add: run_plan_def create_project_def run_project_def p(1) k del: next_op.simps current_op.simps)
  next
    fix e ps
    assume k: "k = LOp PREDICATE [e] [LOp (TABLE_GET t m ps) [] []]" and w: "where_state lib W e ps"
    then have W: "(\<lambda>x. all_true (map (truth lib x) (ps @ [e]))) = W" "value_type e = BOOLEANS"
      by (auto simp: where_state_def filter_cond_type)
    have "write_tuple_result lib es' (next_op lib env (PredicateOp e (TableScanOp t m ps))) (current_op env (PredicateOp e (TableScanOp t m ps)))
        (PredicateS (TableScanS (Some (rs, RECORD_EOF)) [])) [] = select_rows lib (\<lambda>r. W (row_tuple env t r)) (row_tuple env t) es' rs []"
      unfolding W(1) [symmetric] by (rule filtered_rows.written) (intro ballI filter_error)
    with W(2) assms(3) plan show ?thesis
      by (simp add: run_plan_def create_project_def run_project_def p(1) k del: next_op.simps current_op.simps map_append)
  qed
  then show ?thesis by (simp add: select_rows_same [OF p(2)])
qed

section \<open>A query\<close>

definition sample_where :: expr where
  "sample_where = ComparisonExpr EQUAL_TO (FieldExpr ''t'' id_field) (ValueExpr (IntValue 5))"

definition sample_query :: lop where
  "sample_query = LOp PROJECTION [FieldExpr ''t'' id_field]
    [LOp PREDICATE [ConjunctionExpr ConjAnd [sample_where]] [LOp (TABLE_GET ''t'' READ_ONLY []) [] []]]"

definition sample_pushed :: lop where
  "sample_pushed = LOp PROJECTION [FieldExpr ''t'' id_field] [LOp (TABLE_GET ''t'' READ_ONLY [sample_where]) [] []]"

lemma sample_rewrites:
  "rewrite_expression lib (FieldExpr tn fm) = Some (False, FieldExpr tn fm)"
  "rewrite_expression lib sample_where = Some (False, sample_where)"
  "rewrite_expression lib (ConjunctionExpr ConjAnd [sample_where]) = Some (True, sample_where)"
proof -
  show field: "rewrite_expression lib (FieldExpr tn fm) = Some (False, FieldExpr tn fm)" for tn fm
    by (subst rewrite_expression.simps) (simp add: comparison_rule_def conjunction_rule_def)
  have "rewrite_expression lib (ValueExpr v) = Some (False, ValueExpr v)" for v
    by (subst rewrite_expression.simps) (simp add: comparison_rule_def conjunction_rule_def)
  with field show "rewrite_expression lib sample_where = Some (False, sample_where)"
    by (subst rewrite_expression.simps) (simp add: comparison_rule_def conjunction_rule_def sample_where_def)
  show "rewrite_expression lib (ConjunctionExpr ConjAnd [sample_where]) = Some (True, sample_where)"
    by (subst rewrite_expression.simps) (simp add: comparison_rule_def conjunction_rule_def sample_where_def try_to_get_bool_constant_def)
qed

lemma sample_query_optimized: "rewrite_loop lib sample_query = Some (Some (Inr sample_pushed))"
proof -
  let ?t = "LOp (TABLE_GET ''t'' READ_ONLY [sample_where]) [] []"
  let ?q = "LOp PROJECTION [FieldExpr ''t'' id_field] [LOp PREDICATE [true_const] [?t]]"
  have pushed: "rewriter lib (LOp PREDICATE [sample_where] [LOp (TABLE_GET ''t'' READ_ONLY []) [] []]) =
      Some (Inr (True, LOp PREDICATE [true_const] [?t]))"
    by (subst rewriter.simps) (simp add: rewrite_rules_def sample_rewrites predicate_rewrite_def predicate_pushdown_def
        sample_where_def [symmetric] is_empty_predicate_def table_get_rewriter, simp add: sample_where_def is_empty_predicate_def table_get_rewriter)
  have "rewriter lib sample_query = Some (Inr (True, ?q))"
    by (subst rewriter.simps) (simp add: sample_query_def rewrite_rules_def sample_rewrites predicate_rewrite_def pushdown_projection,
        simp add: sample_where_def pushed [unfolded sample_where_def] pushdown_projection)
  moreover have "rewriter lib ?q = Some (Inr (True, sample_pushed))"
    by (subst rewriter.simps) (simp add: rewrite_rules_def sample_rewrites true_const_rewrite predicate_rewrite_def pushdown_projection
        table_get_rewriter sample_pushed_def)
  moreover have "rewriter lib sample_pushed = Some (Inr (False, sample_pushed))"
    by (subst rewriter.simps) (simp add: rewrite_rules_def sample_rewrites predicate_rewrite_def pushdown_projection
        table_get_rewriter sample_pushed_def)
  ultimately show ?thesis by (simp add: rewrite_loop.simps)
qed

section \<open>Properties\<close>

text \<open>
  C37: the optimizer keeps the rows of a query.  For \<^verbatim>\<open>SELECT es FROM t WHERE c1 AND ... AND cn\<close> on a table without an
  index, with comparisons none of which is false on every row, the plan that the rewriting returns and
  the plan it was given write the same: the rows that satisfy the condition, in the order of the table.
\<close>

theorem optimizer_keeps_rows:
  assumes "\<forall>f. ee_find_index env t f = None" "ee_scanner env t m = Inr (rs, RECORD_EOF)"
    and "list_all plain es" "list_all (\<lambda>c. plain c \<and> is_comparison c) cs" "live lib (ConjunctionExpr ConjAnd cs)"
    and "rewrite_loop lib (LOp PROJECTION es [LOp PREDICATE [ConjunctionExpr ConjAnd cs] [LOp (TABLE_GET t m []) [] []]]) = Some (Some (Inr p))"
  shows "run_plan lib env p = select_rows lib (\<lambda>r. truth lib (row_tuple env t r) (ConjunctionExpr ConjAnd cs)) (row_tuple env t) es rs [] \<and>
    run_plan lib env p = run_plan lib env (LOp PROJECTION es [LOp PREDICATE [ConjunctionExpr ConjAnd cs] [LOp (TABLE_GET t m []) [] []]])"
proof -
  let ?p = "LOp PROJECTION es [LOp PREDICATE [ConjunctionExpr ConjAnd cs] [LOp (TABLE_GET t m []) [] []]]"
  let ?W = "\<lambda>x. truth lib x (ConjunctionExpr ConjAnd cs)"
  have "filter_cond (ConjunctionExpr ConjAnd cs)"
    using assms(4) by (auto simp: filter_cond_def list_all_iff plain_condition)
  then have "where_state lib ?W (ConjunctionExpr ConjAnd cs) []" using assms(5) by (auto simp: where_state_def)
  moreover have "list_all2 (same_value lib) es es" by (simp add: list_all2_conv_all_nth)
  ultimately have start: "select_plan lib ?W es t m ?p" using assms(3) by (auto simp: select_plan_def)
  from run_select [OF select_loop [OF start assms(6)] assms(1,2)] run_select [OF start assms(1,2)] show ?thesis by simp
qed

theorem optimizer_keeps_rows_witness:
  "rewrite_loop sample_text sample_query = Some (Some (Inr sample_pushed)) \<and>
   run_plan sample_text sample_env sample_pushed = run_plan sample_text sample_env sample_query"
proof
  show loop: "rewrite_loop sample_text sample_query = Some (Some (Inr sample_pushed))" by (rule sample_query_optimized)
  have "get_value sample_text (RowTuple ''t'' [id_field] [5, 0, 0, 0]) sample_where = Some (Inr (BoolValue True))"
    by (simp add: sample_where_def id_field_def field_spec_def field_cell_def compare_value_def comp_holds_def compare_int_def int_of_bytes_def)
  then have live: "live sample_text (ConjunctionExpr ConjAnd [sample_where])"
    unfolding live_def sample_where_def by (auto intro: exI [of _ "RowTuple ''t'' [id_field] [5, 0, 0, 0]"])
  have "\<forall>f. ee_find_index sample_env ''t'' f = None" "ee_scanner sample_env ''t'' READ_ONLY = Inr ([[5, 0, 0, 0]], RECORD_EOF)"
    by (simp_all add: sample_env_def)
  then show "run_plan sample_text sample_env sample_pushed = run_plan sample_text sample_env sample_query"
    unfolding sample_query_def
    by (rule optimizer_keeps_rows [OF _ _ _ _ live loop [unfolded sample_query_def], THEN conjunct2]) (simp_all add: sample_where_def)
qed

end
