(* ===== verification/Spec2Isabelle.thy ===== *)
theory Spec2Isabelle
  imports Bplus_Scan Bplus_Recover Bplus_Validate Bplus_Delete Heap_Index Mvcc_Faults Sql_Select
begin

text \<open>
  A verification library for the storage and execution core of MiniOB.
\<close>

end
